(* ===== verification/Hixl_Prelude.thy ===== *)
theory Hixl_Prelude
  imports Main "HOL-Library.Word" "HOL-Library.Multiset"
begin

text \<open>
  Shared vocabulary of the development: the status codes of the public headers, machine
  arithmetic at the width the code uses it, half-open address ranges, the pieces of the C++
  standard library the components call (\<open>upper_bound\<close>, \<open>lower_bound\<close>, \<open>find_if\<close> on vectors),
  and the list and arithmetic lemmas several components need.
\<close>

named_theorems hixl_defs \<open>definitions unfolded when a concrete state is evaluated\<close>
named_theorems hixl_inv \<open>one preservation lemma per operation of a component\<close>

section \<open>Status codes\<close>

text \<open>
  \<open>Status\<close> is \<open>uint32_t\<close> in \<open>include/hixl/hixl_types.h\<close>, \<open>include/adxl/adxl_types.h\<close> and
  \<open>include/llm_datadist/llm_datadist.h\<close>; a failing driver call is passed through as its own
  number, so a status stays a 32-bit word.
\<close>

type_synonym status = "32 word"

definition SUCCESS :: status where "SUCCESS = 0"
definition PARAM_INVALID :: status where "PARAM_INVALID = 103900"
definition TIMEOUT :: status where "TIMEOUT = 103901"
definition NOT_CONNECTED :: status where "NOT_CONNECTED = 103902"
definition ALREADY_CONNECTED :: status where "ALREADY_CONNECTED = 103903"
definition UNSUPPORTED :: status where "UNSUPPORTED = 103905"
definition FAILED :: status where "FAILED = 503900"
definition RESOURCE_EXHAUSTED :: status where "RESOURCE_EXHAUSTED = 203900"
definition LLM_PARAM_INVALID :: status where "LLM_PARAM_INVALID = 0x5010B005"
definition LLM_KV_CACHE_NOT_EXIST :: status where "LLM_KV_CACHE_NOT_EXIST = 0x5010B001"
definition GE_FAILED :: status where "GE_FAILED = 0xFFFFFFFF"
definition LLM_FEATURE_NOT_ENABLED :: status where "LLM_FEATURE_NOT_ENABLED = 0x5010B019"
definition LLM_TIMEOUT :: status where "LLM_TIMEOUT = 0x5010B01A"
definition LLM_OUT_OF_MEMORY :: status where "LLM_OUT_OF_MEMORY = 0x5010B01C"

lemmas status_defs [hixl_defs] =
  SUCCESS_def PARAM_INVALID_def TIMEOUT_def NOT_CONNECTED_def ALREADY_CONNECTED_def
  UNSUPPORTED_def FAILED_def RESOURCE_EXHAUSTED_def LLM_PARAM_INVALID_def
  LLM_KV_CACHE_NOT_EXIST_def GE_FAILED_def LLM_FEATURE_NOT_ENABLED_def LLM_TIMEOUT_def
  LLM_OUT_OF_MEMORY_def

lemma status_neq [simp]:
  "PARAM_INVALID \<noteq> SUCCESS" "SUCCESS \<noteq> PARAM_INVALID"
  "FAILED \<noteq> SUCCESS" "SUCCESS \<noteq> FAILED"
  "RESOURCE_EXHAUSTED \<noteq> SUCCESS" "SUCCESS \<noteq> RESOURCE_EXHAUSTED"
  "LLM_PARAM_INVALID \<noteq> SUCCESS" "SUCCESS \<noteq> LLM_PARAM_INVALID"
  "LLM_KV_CACHE_NOT_EXIST \<noteq> SUCCESS" "SUCCESS \<noteq> LLM_KV_CACHE_NOT_EXIST"
  "GE_FAILED \<noteq> SUCCESS" "SUCCESS \<noteq> GE_FAILED"
  "PARAM_INVALID \<noteq> FAILED" "FAILED \<noteq> PARAM_INVALID"
  "PARAM_INVALID \<noteq> RESOURCE_EXHAUSTED" "RESOURCE_EXHAUSTED \<noteq> PARAM_INVALID"
  "RESOURCE_EXHAUSTED \<noteq> FAILED" "FAILED \<noteq> RESOURCE_EXHAUSTED"
  "LLM_FEATURE_NOT_ENABLED \<noteq> SUCCESS" "LLM_OUT_OF_MEMORY \<noteq> SUCCESS" "LLM_TIMEOUT \<noteq> SUCCESS"
  "UNSUPPORTED \<noteq> SUCCESS" "SUCCESS \<noteq> UNSUPPORTED" "TIMEOUT \<noteq> SUCCESS" "SUCCESS \<noteq> TIMEOUT"
  by (simp_all add: status_defs)

datatype MemType = MEM_DEVICE | MEM_HOST

text \<open>
  Calls into the ACL runtime are parameters. An \<open>aclError\<close> is kept as the 32-bit number it is, zero
  for success; the two codes the sources compare with are fields of a record, since the header that
  defines them is not part of the repository. \<open>acl_ret\<close> is the conversion in the macro
  \<open>HIXL_CHK_ACL_RET\<close> of \<open>common/hixl_checker.h\<close>.
\<close>

type_synonym aclError = status

record acl_consts =
  ACL_ERROR_RT_STREAM_SYNC_TIMEOUT :: aclError
  ACL_ERROR_RT_FEATURE_NOT_SUPPORT :: aclError

definition ACL_ERROR_NONE :: aclError where "ACL_ERROR_NONE = 0"

definition acl_ret :: "'a acl_consts_scheme \<Rightarrow> aclError \<Rightarrow> status" where
  "acl_ret c ret = (if ret = ACL_ERROR_RT_STREAM_SYNC_TIMEOUT c then TIMEOUT else ret)"

lemma acl_ret_error [simp]: "ret \<noteq> ACL_ERROR_NONE \<Longrightarrow> acl_ret c ret \<noteq> SUCCESS"
  by (simp add: acl_ret_def SUCCESS_def ACL_ERROR_NONE_def TIMEOUT_def)

text \<open>
  The result of code that may also leave defined behaviour: a value, a returned error status, or a
  crash, which stands for a division by zero or an access outside an array.
\<close>

datatype 'a outcome = Ok 'a | Err status | Crash

fun obind :: "'a outcome \<Rightarrow> ('a \<Rightarrow> 'b outcome) \<Rightarrow> 'b outcome" where
  "obind (Ok a) f = f a"
| "obind (Err s) f = Err s"
| "obind Crash f = Crash"

text \<open>Loops that stop at the first element that fails: without and with a result per element.\<close>

fun for_each :: "('a \<Rightarrow> unit outcome) \<Rightarrow> 'a list \<Rightarrow> unit outcome" where
  "for_each f [] = Ok ()"
| "for_each f (x # xs) = obind (f x) (\<lambda>u. for_each f xs)"

fun collect :: "('a \<Rightarrow> 'b outcome) \<Rightarrow> 'a list \<Rightarrow> 'b list outcome" where
  "collect f [] = Ok []"
| "collect f (x # xs) = obind (f x) (\<lambda>y. obind (collect f xs) (\<lambda>ys. Ok (y # ys)))"

fun ofold :: "('a \<Rightarrow> 's \<Rightarrow> 's outcome) \<Rightarrow> 'a list \<Rightarrow> 's \<Rightarrow> 's outcome" where
  "ofold f [] s = Ok s"
| "ofold f (x # xs) s = obind (f x s) (ofold f xs)"

lemma obind_Ok [simp]: "obind r f = Ok b \<longleftrightarrow> (\<exists>a. r = Ok a \<and> f a = Ok b)" by (cases r) auto
lemma obind_Crash [simp]: "obind r f = Crash \<longleftrightarrow> r = Crash \<or> (\<exists>a. r = Ok a \<and> f a = Crash)" by (cases r) auto

lemma ofold_append: "ofold f (xs @ ys) s = obind (ofold f xs s) (ofold f ys)"
proof (induction xs arbitrary: s)
  case (Cons x xs)
  then show ?case by (cases "f x s") auto
qed simp

text \<open>The rule for a loop that keeps an invariant over the prefix already treated.\<close>

lemma ofold_invariant:
  assumes "P [] s"
    and "\<And>ys x zs s. xs = ys @ x # zs \<Longrightarrow> P ys s \<Longrightarrow> \<exists>s'. f x s = Ok s' \<and> P (ys @ [x]) s'"
  shows "\<exists>s'. ofold f xs s = Ok s' \<and> P xs s'"
proof -
  have "\<exists>s'. ofold f ys s = Ok s' \<and> P ys s'" if "xs = ys @ zs" for ys zs
    using that
  proof (induction ys arbitrary: zs rule: rev_induct)
    case Nil
    with assms(1) show ?case by simp
  next
    case (snoc y ys)
    then obtain s1 where "ofold f ys s = Ok s1" "P ys s1" by (metis append.assoc)
    with assms(2) [of ys y zs s1] snoc.prems show ?case by (auto simp: ofold_append)
  qed
  then show ?thesis by simp
qed

lemma ofold_total: "(\<And>x s. x \<in> set xs \<Longrightarrow> \<exists>s'. f x s = Ok s') \<Longrightarrow> \<exists>s'. ofold f xs s = Ok s'"
proof (induction xs arbitrary: s)
  case (Cons x xs)
  from Cons.prems [of x s] obtain s1 where "f x s = Ok s1" by auto
  with Cons.IH [of s1] Cons.prems show ?case by simp
qed simp

lemma row_index_less: "(i::nat) < n \<Longrightarrow> j < k \<Longrightarrow> i * k + j < n * k"
proof -
  assume "i < n" "j < k"
  then have "i * k + j < Suc i * k" by simp
  also have "\<dots> \<le> n * k" using \<open>i < n\<close> by (intro mult_le_mono1) simp
  finally show ?thesis .
qed

lemma for_each_Ok: "for_each f xs = Ok u \<longleftrightarrow> (\<forall>x \<in> set xs. f x = Ok ())"
  by (induction xs) auto
lemma for_each_Crash: "(\<And>x. x \<in> set xs \<Longrightarrow> f x \<noteq> Crash) \<Longrightarrow> for_each f xs \<noteq> Crash"
  by (induction xs) auto
lemma collect_Ok: "collect f xs = Ok ys \<longleftrightarrow> list_all2 (\<lambda>x y. f x = Ok y) xs ys"
proof (induction xs arbitrary: ys)
  case (Cons x xs)
  then show ?case by (cases ys) auto
qed auto
lemma collect_Crash: "(\<And>x. x \<in> set xs \<Longrightarrow> f x \<noteq> Crash) \<Longrightarrow> collect f xs \<noteq> Crash"
  by (induction xs) auto

section \<open>Machine arithmetic written out\<close>

text \<open>
  Addresses, sizes and counters are natural numbers below the bound of their C++ type; where the
  code lets an operation wrap, the wrap-around is written with the operations below.
\<close>

abbreviation UINT32_MAX :: nat where "UINT32_MAX \<equiv> 2 ^ 32 - 1"
abbreviation UINT64_MAX :: nat where "UINT64_MAX \<equiv> 2 ^ 64 - 1"

definition u32 :: "nat \<Rightarrow> nat" where "u32 n = n mod 2 ^ 32"
definition u64 :: "nat \<Rightarrow> nat" where "u64 n = n mod 2 ^ 64"
definition add64 :: "nat \<Rightarrow> nat \<Rightarrow> nat" where "add64 a b = (a + b) mod 2 ^ 64"
definition sub64 :: "nat \<Rightarrow> nat \<Rightarrow> nat" where "sub64 a b = (a + 2 ^ 64 - b) mod 2 ^ 64"
definition mul64 :: "nat \<Rightarrow> nat \<Rightarrow> nat" where "mul64 a b = (a * b) mod 2 ^ 64"
definition add32 :: "nat \<Rightarrow> nat \<Rightarrow> nat" where "add32 a b = (a + b) mod 2 ^ 32"
definition sub32 :: "nat \<Rightarrow> nat \<Rightarrow> nat" where "sub32 a b = (a + 2 ^ 32 - b) mod 2 ^ 32"

text \<open>\<open>ge::AddOverflow\<close> and \<open>ge::MulOverflow\<close> on 64-bit unsigned operands: true when the
  mathematical result does not fit.\<close>

definition AddOverflow :: "nat \<Rightarrow> nat \<Rightarrow> bool" where "AddOverflow a b \<longleftrightarrow> 2 ^ 64 \<le> a + b"
definition MulOverflow :: "nat \<Rightarrow> nat \<Rightarrow> bool" where "MulOverflow a b \<longleftrightarrow> 2 ^ 64 \<le> a * b"

lemmas wrap_defs [hixl_defs] =
  u32_def u64_def add64_def sub64_def mul64_def add32_def sub32_def AddOverflow_def MulOverflow_def

lemma u32_id [simp]: "n < 2 ^ 32 \<Longrightarrow> u32 n = n" by (simp add: u32_def)
lemma u64_id [simp]: "n < 2 ^ 64 \<Longrightarrow> u64 n = n" by (simp add: u64_def)
lemma u32_bound [simp, intro]: "u32 n < 2 ^ 32" by (simp add: u32_def)
lemma u64_bound [simp, intro]: "u64 n < 2 ^ 64" by (simp add: u64_def)
lemma add64_id: "a + b < 2 ^ 64 \<Longrightarrow> add64 a b = a + b" unfolding add64_def by (rule mod_less)
lemma add64_bound [simp, intro]: "add64 a b < 2 ^ 64" by (simp add: add64_def)
lemma mul64_id: "a * b < 2 ^ 64 \<Longrightarrow> mul64 a b = a * b" unfolding mul64_def by (rule mod_less)
lemma mul64_bound [simp, intro]: "mul64 a b < 2 ^ 64" by (simp add: mul64_def)
lemma add32_id: "a + b < 2 ^ 32 \<Longrightarrow> add32 a b = a + b" unfolding add32_def by (rule mod_less)

lemma mod_wrapped_diff: "(b::nat) \<le> a \<Longrightarrow> a < N \<Longrightarrow> (a + N - b) mod N = a - b"
proof -
  assume "b \<le> a" "a < N"
  then have "a + N - b = (a - b) + N" "a - b < N" by linarith+
  then show ?thesis by (simp only: mod_add_self2 mod_less)
qed

lemma sub64_id: "b \<le> a \<Longrightarrow> a < 2 ^ 64 \<Longrightarrow> sub64 a b = a - b"
  unfolding sub64_def by (rule mod_wrapped_diff)
lemma sub32_id: "b \<le> a \<Longrightarrow> a < 2 ^ 32 \<Longrightarrow> sub32 a b = a - b"
  unfolding sub32_def by (rule mod_wrapped_diff)

lemma not_AddOverflow: "\<not> AddOverflow a b \<longleftrightarrow> a + b < 2 ^ 64" unfolding AddOverflow_def by (rule not_le)
lemma not_MulOverflow: "\<not> MulOverflow a b \<longleftrightarrow> a * b < 2 ^ 64" unfolding MulOverflow_def by (rule not_le)

section \<open>Half-open ranges of addresses\<close>

type_synonym range = "nat \<times> nat"

definition span :: "range \<Rightarrow> nat set" where "span r = {fst r ..< snd r}"
definition cover :: "range list \<Rightarrow> nat set" where "cover rs = (\<Union>r \<in> set rs. span r)"

lemma mem_span [simp]: "x \<in> span (a, b) \<longleftrightarrow> a \<le> x \<and> x < b" by (simp add: span_def)
lemma cover_Nil [simp]: "cover [] = {}" by (simp add: cover_def)
lemma cover_Cons [simp]: "cover (r # rs) = span r \<union> cover rs" by (simp add: cover_def)
lemma cover_append [simp]: "cover (rs @ rs') = cover rs \<union> cover rs'" by (simp add: cover_def)
lemma cover_rev [simp]: "cover (rev rs) = cover rs" by (simp add: cover_def)
lemma mem_cover: "x \<in> cover rs \<longleftrightarrow> (\<exists>r \<in> set rs. fst r \<le> x \<and> x < snd r)"
  by (auto simp: cover_def span_def)
lemma cover_mono: "set rs \<subseteq> set rs' \<Longrightarrow> cover rs \<subseteq> cover rs'" by (auto simp: cover_def)

section \<open>The standard library on sorted vectors\<close>

text \<open>
  \<open>std::upper_bound\<close> and \<open>std::lower_bound\<close> return the partition point of the comparator, which
  on a vector sorted by \<open>key\<close> is the index of the first element whose key is greater than (not
  less than) the value. Iterators are indices; \<open>end()\<close> is the length.
\<close>

definition upper_bound :: "('a \<Rightarrow> nat) \<Rightarrow> 'a list \<Rightarrow> nat \<Rightarrow> nat" where
  "upper_bound key xs v = length (takeWhile (\<lambda>x. key x \<le> v) xs)"

definition lower_bound :: "('a \<Rightarrow> nat) \<Rightarrow> 'a list \<Rightarrow> nat \<Rightarrow> nat" where
  "lower_bound key xs v = length (takeWhile (\<lambda>x. key x < v) xs)"

lemmas bound_defs [hixl_defs] = upper_bound_def lower_bound_def

lemma upper_bound_le [simp]: "upper_bound key xs v \<le> length xs"
  by (simp add: upper_bound_def length_takeWhile_le)
lemma lower_bound_le [simp]: "lower_bound key xs v \<le> length xs"
  by (simp add: lower_bound_def length_takeWhile_le)

lemma take_upper_bound: "take (upper_bound key xs v) xs = takeWhile (\<lambda>x. key x \<le> v) xs"
  unfolding upper_bound_def by (rule takeWhile_eq_take [symmetric])
lemma drop_upper_bound: "drop (upper_bound key xs v) xs = dropWhile (\<lambda>x. key x \<le> v) xs"
  unfolding upper_bound_def by (rule dropWhile_eq_drop [symmetric])
lemma take_lower_bound: "take (lower_bound key xs v) xs = takeWhile (\<lambda>x. key x < v) xs"
  unfolding lower_bound_def by (rule takeWhile_eq_take [symmetric])
lemma drop_lower_bound: "drop (lower_bound key xs v) xs = dropWhile (\<lambda>x. key x < v) xs"
  unfolding lower_bound_def by (rule dropWhile_eq_drop [symmetric])

lemma takeWhile_before: "x \<in> set (take (upper_bound key xs v) xs) \<Longrightarrow> key x \<le> v"
  by (auto simp: take_upper_bound dest: set_takeWhileD)
lemma takeWhile_before_lower: "x \<in> set (take (lower_bound key xs v) xs) \<Longrightarrow> key x < v"
  by (auto simp: take_lower_bound dest: set_takeWhileD)

lemma sorted_dropWhile_after:
  "sorted (map key xs) \<Longrightarrow> x \<in> set (dropWhile (\<lambda>x. key x \<le> v) xs) \<Longrightarrow> v < key x"
  by (induction xs) (auto split: if_splits)
lemma sorted_dropWhile_after_lower:
  "sorted (map key xs) \<Longrightarrow> x \<in> set (dropWhile (\<lambda>x. key x < v) xs) \<Longrightarrow> v \<le> key x"
  by (induction xs) (auto split: if_splits)

lemma after_upper_bound:
  "sorted (map key xs) \<Longrightarrow> x \<in> set (drop (upper_bound key xs v) xs) \<Longrightarrow> v < key x"
  by (simp add: drop_upper_bound sorted_dropWhile_after)
lemma after_lower_bound:
  "sorted (map key xs) \<Longrightarrow> x \<in> set (drop (lower_bound key xs v) xs) \<Longrightarrow> v \<le> key x"
  by (simp add: drop_lower_bound sorted_dropWhile_after_lower)

text \<open>\<open>vector::insert(it, x)\<close> and \<open>vector::erase(it)\<close> at an index.\<close>

definition insert_at :: "nat \<Rightarrow> 'a \<Rightarrow> 'a list \<Rightarrow> 'a list" where
  "insert_at i x xs = take i xs @ x # drop i xs"
definition erase_at :: "nat \<Rightarrow> 'a list \<Rightarrow> 'a list" where
  "erase_at i xs = take i xs @ drop (Suc i) xs"

lemmas vector_defs [hixl_defs] = insert_at_def erase_at_def

lemma mset_insert_at [simp]: "mset (insert_at i x xs) = add_mset x (mset xs)"
proof -
  have "mset xs = mset (take i xs) + mset (drop i xs)"
    by (simp only: mset_append [symmetric] append_take_drop_id)
  then show ?thesis by (simp add: insert_at_def)
qed
lemma set_insert_at [simp]: "set (insert_at i x xs) = insert x (set xs)"
  by (metis mset_insert_at set_mset_add_mset_insert set_mset_mset)
lemma mset_diff_right: "x \<notin># M \<Longrightarrow> M + N - {#x#} = M + (N - {#x#})"
proof (cases "x \<in># N")
  case True
  then show ?thesis by (rule diff_union_single_conv)
next
  case False
  assume "x \<notin># M"
  with False have "x \<notin># M + N" by simp
  then show ?thesis unfolding diff_single_trivial [OF False] by (rule diff_single_trivial)
qed
lemma mset_erase_at: "i < length xs \<Longrightarrow> mset (erase_at i xs) = mset xs - {#xs ! i#}"
proof -
  assume i: "i < length xs"
  then have "mset xs = mset (take i xs @ xs ! i # drop (Suc i) xs)"
    by (metis id_take_nth_drop)
  then show ?thesis by (simp add: erase_at_def)
qed

lemma sorted_insert_at_upper_bound:
  assumes "sorted (map key xs)"
  shows "sorted (map key (insert_at (upper_bound key xs (key x)) x xs))"
proof -
  let ?P = "\<lambda>y. key y \<le> key x"
  have "sorted (map key (takeWhile ?P xs @ dropWhile ?P xs))" using assms by simp
  then have parts: "sorted (map key (takeWhile ?P xs))" "sorted (map key (dropWhile ?P xs))"
    by (simp_all only: map_append sorted_append)
  moreover have "key y \<le> key x" if "y \<in> set (takeWhile ?P xs)" for y
    using that by (auto dest: set_takeWhileD)
  moreover have "key x \<le> key y" if "y \<in> set (dropWhile ?P xs)" for y
    using sorted_dropWhile_after [OF assms that] by simp
  ultimately show ?thesis
    unfolding insert_at_def take_upper_bound drop_upper_bound
    by (fastforce simp: sorted_append intro: order_trans)
qed

lemma sorted_erase_at: "sorted (map key xs) \<Longrightarrow> sorted (map key (erase_at i xs))"
proof (cases "i < length xs")
  case True
  assume s: "sorted (map key xs)"
  from s True have "sorted (map key (take i xs @ xs ! i # drop (Suc i) xs))"
    by (simp only: id_take_nth_drop [OF True, symmetric])
  then show ?thesis by (auto simp: erase_at_def sorted_append)
qed (simp add: erase_at_def)

lemma sorted_wrt_insert_at:
  assumes "sorted_wrt P xs" "\<forall>y \<in> set (take i xs). P y x" "\<forall>y \<in> set (drop i xs). P x y"
  shows "sorted_wrt P (insert_at i x xs)"
proof -
  have "sorted_wrt P (take i xs @ drop i xs)" using assms(1) by simp
  with assms(2,3) show ?thesis unfolding insert_at_def sorted_wrt_append by simp
qed

section \<open>std::map with integer keys\<close>

text \<open>A \<open>std::map\<close> that is iterated in key order is a list of pairs sorted strictly by key; \<open>find\<close>
  is \<open>map_of\<close>, \<open>lower_bound\<close> the index above.\<close>

definition map_insert :: "nat \<Rightarrow> 'v \<Rightarrow> (nat \<times> 'v) list \<Rightarrow> (nat \<times> 'v) list" where
  "map_insert k v m = insert_at (lower_bound fst m k) (k, v) m"

definition map_erase :: "nat \<Rightarrow> (nat \<times> 'v) list \<Rightarrow> (nat \<times> 'v) list" where
  "map_erase k m = filter (\<lambda>e. fst e \<noteq> k) m"

text \<open>\<open>m[k] = v\<close>.\<close>

definition map_assign :: "nat \<Rightarrow> 'v \<Rightarrow> (nat \<times> 'v) list \<Rightarrow> (nat \<times> 'v) list" where
  "map_assign k v m = map_insert k v (map_erase k m)"

lemmas map_defs [hixl_defs] = map_insert_def map_erase_def map_assign_def

definition strict_keys :: "(nat \<times> 'v) list \<Rightarrow> bool" where
  "strict_keys m \<longleftrightarrow> sorted_wrt (<) (map fst m)"

lemma strict_keys_Nil [simp]: "strict_keys []" by (simp add: strict_keys_def)
lemma strict_keys_Cons [simp]:
  "strict_keys (e # m) \<longleftrightarrow> (\<forall>e' \<in> set m. fst e < fst e') \<and> strict_keys m"
  by (auto simp: strict_keys_def)
lemma strict_keys_sorted: "strict_keys m \<Longrightarrow> sorted (map fst m)"
  unfolding strict_keys_def by (rule strict_sorted_imp_sorted)
lemma strict_keys_distinct: "strict_keys m \<Longrightarrow> distinct (map fst m)"
  unfolding strict_keys_def by (simp add: strict_sorted_iff)

lemma set_map_insert [simp]: "set (map_insert k v m) = insert (k, v) (set m)"
  by (simp add: map_insert_def)
lemma set_map_erase: "set (map_erase k m) = {e \<in> set m. fst e \<noteq> k}"
  by (auto simp: map_erase_def)

lemma strict_keys_erase: "strict_keys m \<Longrightarrow> strict_keys (map_erase k m)"
  by (induction m) (auto simp: map_erase_def)

lemma map_insert_Cons:
  "map_insert k v (e # m) = (if fst e < k then e # map_insert k v m else (k, v) # e # m)"
  by (simp add: map_insert_def insert_at_def lower_bound_def)

lemma strict_keys_insert:
  "strict_keys m \<Longrightarrow> map_of m k = None \<Longrightarrow> strict_keys (map_insert k v m)"
proof (induction m)
  case Nil
  then show ?case by (simp add: map_insert_def insert_at_def)
next
  case (Cons e m)
  obtain k' v' where e: "e = (k', v')" by (cases e)
  with Cons show ?case by (fastforce simp: map_insert_Cons split: if_splits)
qed

lemma map_of_map_insert:
  "map_of m k = None \<Longrightarrow> map_of (map_insert k v m) = (map_of m)(k \<mapsto> v)"
proof (induction m)
  case Nil
  then show ?case by (simp add: map_insert_def insert_at_def)
next
  case (Cons e m)
  obtain k' v' where e: "e = (k', v')" by (cases e)
  with Cons have "k' \<noteq> k" "map_of m k = None" by (auto split: if_splits)
  with e Cons.IH show ?case by (auto simp: map_insert_Cons fun_upd_twist)
qed

lemma map_of_map_erase: "map_of (map_erase k m) = (map_of m)(k := None)"
  by (induction m) (auto simp: map_erase_def fun_eq_iff)

lemma map_erase_absent: "map_of m k = None \<Longrightarrow> map_erase k m = m"
  by (induction m) (auto simp: map_erase_def split: if_splits)

lemma map_assign_absent: "map_of m k = None \<Longrightarrow> map_assign k v m = map_insert k v m"
  by (simp add: map_assign_def map_erase_absent)

lemma map_of_map_assign [simp]: "map_of (map_assign k v m) = (map_of m)(k \<mapsto> v)"
  by (simp add: map_assign_def map_of_map_insert map_of_map_erase)

lemma strict_keys_assign: "strict_keys m \<Longrightarrow> strict_keys (map_assign k v m)"
  by (simp add: map_assign_def strict_keys_insert strict_keys_erase map_of_map_erase)

lemma mset_map_insert [simp]: "mset (map_insert k v m) = add_mset (k, v) (mset m)"
  by (simp add: map_insert_def)

lemma mset_map_erase:
  "strict_keys m \<Longrightarrow> map_of m k = Some v \<Longrightarrow> mset m = add_mset (k, v) (mset (map_erase k m))"
proof (induction m)
  case (Cons e m)
  obtain k' v' where e: "e = (k', v')" by (cases e)
  show ?case
  proof (cases "k' = k")
    case True
    then have "map_of m k = None" using Cons.prems e by (fastforce simp: map_of_eq_None_iff)
    then have "map_erase k m = m" by (rule map_erase_absent)
    then have "map_erase k (e # m) = m" using True e by (simp add: map_erase_def)
    then show ?thesis using True Cons.prems e by simp
  next
    case False
    then show ?thesis using Cons e by (simp add: map_erase_def)
  qed
qed simp

lemma strict_keys_map_of: "strict_keys m \<Longrightarrow> (k, v) \<in> set m \<longleftrightarrow> map_of m k = Some v"
  using strict_keys_distinct by (auto intro: map_of_is_SomeI dest: map_of_SomeD)

text \<open>The entry with the greatest key not above a value sits just before \<open>lower_bound\<close> or at it.\<close>

lemma strict_keys_nth_less:
  "strict_keys m \<Longrightarrow> i < j \<Longrightarrow> j < length m \<Longrightarrow> fst (m ! i) < fst (m ! j)"
  unfolding strict_keys_def by (simp add: sorted_wrt_iff_nth_less)

lemma nth_before_lower_bound: "i < lower_bound key m v \<Longrightarrow> key (m ! i) < v"
  by (metis lower_bound_def nth_length_takeWhile nth_mem set_takeWhileD takeWhile_nth)

lemma nth_lower_bound: "lower_bound key m v < length m \<Longrightarrow> v \<le> key (m ! lower_bound key m v)"
  unfolding lower_bound_def by (metis not_le nth_length_takeWhile)

lemma nth_after_lower_bound:
  assumes "strict_keys m" "lower_bound fst m v \<le> i" "i < length m"
  shows "v \<le> fst (m ! i)"
proof -
  have "v \<le> fst (m ! lower_bound fst m v)" using assms by (intro nth_lower_bound) simp
  also have "\<dots> \<le> fst (m ! i)"
    using strict_keys_nth_less [OF assms(1), of "lower_bound fst m v" i] assms by (cases "lower_bound fst m v = i") auto
  finally show ?thesis .
qed

lemma lower_bound_eqI:
  assumes "i \<le> length m" "\<And>j. j < i \<Longrightarrow> key (m ! j) < v" "i < length m \<Longrightarrow> v \<le> key (m ! i)"
  shows "lower_bound key m v = i"
proof (rule linorder_cases [of "lower_bound key m v" i])
  assume "lower_bound key m v < i"
  then show ?thesis using nth_lower_bound [of key m v] assms(1) assms(2) [of "lower_bound key m v"] by simp
next
  assume "i < lower_bound key m v"
  then show ?thesis using nth_before_lower_bound [of i key m v] assms(3) lower_bound_le [of key m v] by simp
qed

section \<open>Bytes in memory\<close>

text \<open>Unsigned integers as little-endian bytes, and reads and writes of a buffer; an access outside the
  buffer is a crash.\<close>

fun le_bytes :: "nat \<Rightarrow> nat \<Rightarrow> 8 word list" where
  "le_bytes 0 n = []"
| "le_bytes (Suc k) n = word_of_nat n # le_bytes k (n div 256)"

fun le_value :: "8 word list \<Rightarrow> nat" where
  "le_value [] = 0"
| "le_value (b # bs) = unat b + 256 * le_value bs"

definition read_le :: "nat \<Rightarrow> 8 word list \<Rightarrow> nat \<Rightarrow> nat outcome" where
  "read_le k buf off = (if off + k \<le> length buf then Ok (le_value (take k (drop off buf))) else Crash)"

definition write_bytes :: "8 word list \<Rightarrow> nat \<Rightarrow> 8 word list \<Rightarrow> 8 word list outcome" where
  "write_bytes buf off bs =
     (if off + length bs \<le> length buf then Ok (take off buf @ bs @ drop (off + length bs) buf) else Crash)"

lemma length_le_bytes [simp]: "length (le_bytes k n) = k"
  by (induction k arbitrary: n) simp_all

lemma le_value_le_bytes: "le_value (le_bytes k n) = n mod 256 ^ k"
proof (induction k arbitrary: n)
  case (Suc k)
  have "n mod 256 ^ Suc k = n mod 256 + 256 * (n div 256 mod 256 ^ k)" by (simp add: mod_mult2_eq)
  with Suc show ?case by (simp add: unat_of_nat)
qed simp

lemma le_value_bound: "le_value bs < 256 ^ length bs"
proof (induction bs)
  case (Cons b bs)
  have "unat b < 256" using unsigned_less [of b] by simp
  with Cons show ?case by simp
qed simp

text \<open>Reading back what was written, behind a prefix of known length.\<close>

lemma read_le_here:
  assumes "off = length pre" "n < 256 ^ k"
  shows "read_le k (pre @ le_bytes k n @ rest) off = Ok n"
  using assms by (simp add: read_le_def le_value_le_bytes)

lemma write_bytes_zeros:
  assumes "length bs = k" "off = length pre"
  shows "write_bytes (pre @ replicate (k + m) 0) off bs = Ok (pre @ bs @ replicate m 0)"
  using assms by (simp add: write_bytes_def)

section \<open>Pieces of tensors\<close>

text \<open>A piece is a tensor, a byte offset and a length; a list of pieces stands for its bytes in order.\<close>

type_synonym piece = "nat \<times> nat \<times> nat"

definition piece_bytes :: "piece list \<Rightarrow> (nat \<times> nat) list" where
  "piece_bytes d = concat (map (\<lambda>(i, toffset, len). map (\<lambda>x. (i, toffset + x)) [0 ..< len]) d)"

lemma piece_bytes_append [simp]: "piece_bytes (xs @ ys) = piece_bytes xs @ piece_bytes ys"
  by (simp add: piece_bytes_def)

lemma piece_bytes_split: "piece_bytes [(i, toffset, a), (i, toffset + a, b)] = piece_bytes [(i, toffset, a + b)]"
proof -
  have "[0 ..< a + b] = [0 ..< a] @ map (\<lambda>x. x + a) [0 ..< b]"
    by (simp add: upt_add_eq_append [of 0 a b] map_add_upt add.commute)
  then have "[0 ..< a + b] = [0 ..< a] @ map (\<lambda>x. a + x) [0 ..< b]" by (simp add: add.commute)
  then show ?thesis by (simp add: piece_bytes_def add.assoc)
qed

end
