(* ===== verification/Segments.thy ===== *)
theory Segments
  imports Hixl_Prelude
begin

text \<open>
  Registered address ranges. \<open>hixl::Segment\<close> (\<open>src/src/hixl/common/segment.cc\<close>) and
  \<open>adxl::Segment\<close> with \<open>adxl::SegmentTable\<close> (\<open>src/src/llm_datadist/adxl/segment_table.cc\<close>) both keep
  a vector of \<open>[start, end)\<close> pairs sorted by start and answer whether a queried range lies inside
  the registered ones. The vectors are lists, the reverse and the forward loop of \<open>Contains\<close> are
  recursive functions over the two halves that \<open>upper_bound\<close> separates. The locale
  \<open>range_store\<close> states what a client of a segment relies on; both classes are interpretations.
\<close>

section \<open>hixl::Segment\<close>

record Segment =
  ranges :: "range list"
  mem_type :: MemType

definition Segment_AddRange :: "Segment \<Rightarrow> nat \<Rightarrow> nat \<Rightarrow> status \<times> Segment" where
  "Segment_AddRange s start len =
     (if len > UINT64_MAX - start then (PARAM_INVALID, s)
      else
        let end = start + len; rs = ranges s; it = upper_bound fst rs start in
        if it \<noteq> 0 \<and> rs ! (it - 1) = (start, end) then (SUCCESS, s)
        else if it \<noteq> length rs \<and> rs ! it = (start, end) then (SUCCESS, s)
        else (SUCCESS, s\<lparr>ranges := insert_at it (start, end) rs\<rparr>))"

text \<open>The scan of \<open>RemoveRange\<close>: from \<open>it\<close> on, over the entries with the same start, the first one
  with the given end is erased.\<close>

fun erase_same_start :: "nat \<Rightarrow> nat \<Rightarrow> range list \<Rightarrow> range list" where
  "erase_same_start start end [] = []"
| "erase_same_start start end (r # rs) =
     (if fst r = start
      then (if snd r = end then rs else r # erase_same_start start end rs)
      else r # rs)"

definition Segment_RemoveRange :: "Segment \<Rightarrow> nat \<Rightarrow> nat \<Rightarrow> Segment" where
  "Segment_RemoveRange s start end =
     (let rs = ranges s; it = lower_bound fst rs start in
      if it = length rs \<or> fst (rs ! it) > start then s
      else s\<lparr>ranges := take it rs @ erase_same_start start end (drop it rs)\<rparr>)"

text \<open>
  The two loops of \<open>Contains\<close>. \<open>None\<close> is the early \<open>return true\<close>; otherwise the loop leaves
  \<open>max_reached\<close> (and \<open>covered_start\<close>). The reverse loop runs over the entries before the upper
  bound, last one first; the forward loop over the rest.
\<close>

fun contains_left :: "nat \<Rightarrow> nat \<Rightarrow> range list \<Rightarrow> nat \<Rightarrow> bool \<Rightarrow> (nat \<times> bool) option" where
  "contains_left start end [] max_reached covered_start = Some (max_reached, covered_start)"
| "contains_left start end (r # rs) max_reached covered_start =
     (if snd r > start then
        (let max_reached' = (if snd r > max_reached then snd r else max_reached) in
         if max_reached' \<ge> end then None else contains_left start end rs max_reached' True)
      else contains_left start end rs max_reached covered_start)"

fun contains_right :: "nat \<Rightarrow> range list \<Rightarrow> nat \<Rightarrow> nat option" where
  "contains_right end [] max_reached = Some max_reached"
| "contains_right end (r # rs) max_reached =
     (if fst r > max_reached then Some max_reached
      else if snd r > max_reached then
        (if snd r \<ge> end then None else contains_right end rs (snd r))
      else contains_right end rs max_reached)"

definition Segment_Contains :: "Segment \<Rightarrow> nat \<Rightarrow> nat \<Rightarrow> bool" where
  "Segment_Contains s start end =
     (if start > end then False
      else
        let it = upper_bound fst (ranges s) start in
        case contains_left start end (rev (take it (ranges s))) start False of
          None \<Rightarrow> True
        | Some (max_reached, covered_start) \<Rightarrow>
            if \<not> covered_start then False
            else (case contains_right end (drop it (ranges s)) max_reached of
                    None \<Rightarrow> True
                  | Some max_reached' \<Rightarrow> max_reached' \<ge> end))"

definition Segment_IsEmpty :: "Segment \<Rightarrow> bool" where
  "Segment_IsEmpty s = (ranges s = [])"

section \<open>adxl::Segment\<close>

definition adxl_Segment_AddRange :: "Segment \<Rightarrow> nat \<Rightarrow> nat \<Rightarrow> Segment" where
  "adxl_Segment_AddRange s start end =
     (if start > end then s
      else s\<lparr>ranges := insert_at (upper_bound fst (ranges s) start) (start, end) (ranges s)\<rparr>)"

definition adxl_Segment_RemoveRange :: "Segment \<Rightarrow> nat \<Rightarrow> nat \<Rightarrow> Segment" where
  "adxl_Segment_RemoveRange s start end =
     (let rs = ranges s; it = lower_bound fst rs start in
      s\<lparr>ranges := take it rs @ erase_same_start start end (drop it rs)\<rparr>)"

definition adxl_Segment_Contains :: "Segment \<Rightarrow> nat \<Rightarrow> nat \<Rightarrow> bool" where
  "adxl_Segment_Contains s start end =
     (if start > end then False
      else
        let it = upper_bound fst (ranges s) start in
        case contains_left start end (rev (take it (ranges s))) start False of
          None \<Rightarrow> True
        | Some (max_reached, covered_start) \<Rightarrow>
            if \<not> covered_start then False
            else (case contains_right end (drop it (ranges s)) max_reached of
                    None \<Rightarrow> True
                  | Some max_reached' \<Rightarrow> max_reached' \<ge> end))"

section \<open>adxl::SegmentTable\<close>

text \<open>
  The unordered map from channel ids to vectors of shared segment pointers. A segment is only
  reached through its table entry while it is mutated, so the entry holds the segment itself.
\<close>

type_synonym SegmentTable = "string \<rightharpoonup> Segment list"

definition new_segment :: "MemType \<Rightarrow> Segment" where
  "new_segment type = \<lparr>ranges = [], mem_type = type\<rparr>"

fun update_first :: "('a \<Rightarrow> bool) \<Rightarrow> ('a \<Rightarrow> 'a) \<Rightarrow> 'a list \<Rightarrow> 'a list" where
  "update_first P f [] = []"
| "update_first P f (x # xs) = (if P x then f x # xs else x # update_first P f xs)"

definition SegmentTable_Clear :: "SegmentTable \<Rightarrow> SegmentTable" where
  "SegmentTable_Clear t = Map.empty"

definition SegmentTable_RemoveChannel :: "SegmentTable \<Rightarrow> string \<Rightarrow> SegmentTable" where
  "SegmentTable_RemoveChannel t channel_id =
     (case t channel_id of None \<Rightarrow> t | Some _ \<Rightarrow> t(channel_id := None))"

definition SegmentTable_AddRange ::
  "SegmentTable \<Rightarrow> string \<Rightarrow> nat \<Rightarrow> nat \<Rightarrow> MemType \<Rightarrow> SegmentTable" where
  "SegmentTable_AddRange t channel_id start end type =
     (let segments = (case t channel_id of None \<Rightarrow> [] | Some segs \<Rightarrow> segs) in
      if list_ex (\<lambda>seg. mem_type seg = type) segments
      then t(channel_id \<mapsto> update_first (\<lambda>seg. mem_type seg = type)
                             (\<lambda>seg. adxl_Segment_AddRange seg start end) segments)
      else t(channel_id \<mapsto> segments @ [adxl_Segment_AddRange (new_segment type) start end]))"

definition SegmentTable_RemoveRange ::
  "SegmentTable \<Rightarrow> string \<Rightarrow> nat \<Rightarrow> nat \<Rightarrow> MemType \<Rightarrow> SegmentTable" where
  "SegmentTable_RemoveRange t channel_id start end type =
     (case t channel_id of
        None \<Rightarrow> t
      | Some segments \<Rightarrow>
          t(channel_id \<mapsto> update_first (\<lambda>seg. mem_type seg = type)
                             (\<lambda>seg. adxl_Segment_RemoveRange seg start end) segments))"

definition SegmentTable_FindSegment ::
  "SegmentTable \<Rightarrow> string \<Rightarrow> nat \<Rightarrow> nat \<Rightarrow> Segment option" where
  "SegmentTable_FindSegment t channel_id start end =
     (case t channel_id of
        None \<Rightarrow> None
      | Some segments \<Rightarrow> find (\<lambda>seg. adxl_Segment_Contains seg start end) segments)"

lemmas segment_op_defs [hixl_defs] =
  Segment_AddRange_def Segment_RemoveRange_def Segment_Contains_def Segment_IsEmpty_def
  adxl_Segment_AddRange_def adxl_Segment_RemoveRange_def adxl_Segment_Contains_def
  new_segment_def SegmentTable_Clear_def SegmentTable_RemoveChannel_def SegmentTable_AddRange_def
  SegmentTable_RemoveRange_def SegmentTable_FindSegment_def

section \<open>The sorted-vector invariant\<close>

definition segment_inv :: "Segment \<Rightarrow> bool" where
  "segment_inv s \<longleftrightarrow> sorted (map fst (ranges s)) \<and> (\<forall>r \<in> set (ranges s). fst r \<le> snd r)"

lemma subset_erase_same_start: "set (erase_same_start a b rs) \<subseteq> set rs"
  by (induction a b rs rule: erase_same_start.induct) auto

lemma sorted_erase_same_start:
  "sorted (map fst rs) \<Longrightarrow> sorted (map fst (erase_same_start a b rs))"
proof (induction a b rs rule: erase_same_start.induct)
  case (2 a b r rs)
  then show ?case using subset_erase_same_start [of a b rs] by auto
qed simp

lemma mset_erase_same_start:
  assumes "sorted (map fst rs)" and "\<forall>r \<in> set rs. a \<le> fst r"
  shows "mset (erase_same_start a b rs) = mset rs - {#(a, b)#}"
  using assms
proof (induction a b rs rule: erase_same_start.induct)
  case (2 a b r rs)
  show ?case
  proof (cases "fst r = a")
    case True
    show ?thesis
    proof (cases "snd r = b")
      case True
      then have "r = (a, b)" by (cases r) (use \<open>fst r = a\<close> in auto)
      then show ?thesis by simp
    next
      case False
      with 2 \<open>fst r = a\<close> have IH: "mset (erase_same_start a b rs) = mset rs - {#(a, b)#}" by auto
      from False have "r \<noteq> (a, b)" by auto
      with IH False \<open>fst r = a\<close> show ?thesis by simp
    qed
  next
    case False
    with 2 have "\<forall>x \<in> set (r # rs). a < fst x" by fastforce
    then have "(a, b) \<notin> set (r # rs)" by auto
    then have "mset (r # rs) - {#(a, b)#} = mset (r # rs)"
      by (metis diff_single_trivial set_mset_mset)
    with False show ?thesis by simp
  qed
qed simp

section \<open>Contains decides coverage\<close>

lemma contains_left_None:
  "contains_left s e rs m c = None \<Longrightarrow> s \<le> m \<Longrightarrow>
   (\<exists>r \<in> set rs. s < snd r) \<and> (e \<le> m \<or> (\<exists>r \<in> set rs. s < snd r \<and> e \<le> snd r))"
  by (induction s e rs m c rule: contains_left.induct) (auto simp: Let_def split: if_splits)

lemma contains_left_Some:
  "contains_left s e rs m c = Some (m', c') \<Longrightarrow> s \<le> m \<Longrightarrow>
   m \<le> m' \<and> (\<forall>r \<in> set rs. snd r \<le> m') \<and> (m' = m \<or> (\<exists>r \<in> set rs. snd r = m')) \<and>
   c' = (c \<or> (\<exists>r \<in> set rs. s < snd r)) \<and> (m < e \<or> (\<exists>r \<in> set rs. s < snd r) \<longrightarrow> m' < e)"
  by (induction s e rs m c rule: contains_left.induct) (auto simp: Let_def split: if_splits)

lemma interval_step:
  assumes "fst r \<le> m" and "{max m (snd r)..<e} \<subseteq> C"
  shows "{m..<e} \<subseteq> span r \<union> C"
proof
  fix x assume "x \<in> {m..<e}"
  with assms(1) have "x \<in> span r \<or> x \<in> {max m (snd r)..<e}" by (auto simp: span_def)
  with assms(2) show "x \<in> span r \<union> C" by blast
qed

lemma contains_right_None:
  "contains_right e rs m = None \<Longrightarrow> {m..<e} \<subseteq> cover rs"
proof (induction e rs m rule: contains_right.induct)
  case (2 e r rs m)
  then have "fst r \<le> m" and "{max m (snd r)..<e} \<subseteq> cover rs"
    by (auto simp: max_def split: if_splits)
  then show ?case using interval_step by simp
qed simp

lemma contains_right_Some:
  "contains_right e rs m = Some m' \<Longrightarrow> sorted (map fst rs) \<Longrightarrow>
   m \<le> m' \<and> {m..<m'} \<subseteq> cover rs \<and> m' \<notin> cover rs \<and> (m < e \<longrightarrow> m' < e)"
proof (induction e rs m rule: contains_right.induct)
  case (2 e r rs m)
  show ?case
  proof (cases "fst r > m")
    case True
    with "2.prems" show ?thesis by (auto simp: mem_cover span_def)
  next
    case False
    with 2 have IH: "max m (snd r) \<le> m'" "{max m (snd r)..<m'} \<subseteq> cover rs" "m' \<notin> cover rs"
        "m < e \<longrightarrow> m' < e"
      by (auto simp: max_def split: if_splits)
    moreover from IH False have "{m..<m'} \<subseteq> span r \<union> cover rs" by (intro interval_step) auto
    ultimately show ?thesis by (auto simp: span_def)
  qed
qed simp

definition covers :: "range list \<Rightarrow> nat \<Rightarrow> nat \<Rightarrow> bool" where
  "covers rs a b \<longleftrightarrow> a \<le> b \<and> (\<exists>r \<in> set rs. fst r \<le> a \<and> a < snd r) \<and> {a..<b} \<subseteq> cover rs"

lemma covers_nonempty: "a < b \<Longrightarrow> covers rs a b \<longleftrightarrow> {a..<b} \<subseteq> cover rs"
  by (fastforce simp: covers_def mem_cover)

text \<open>The two loops on the two halves of a sorted vector, for any \<open>L\<close> and \<open>R\<close> that the query's
  start separates.\<close>

definition contains_loops :: "range list \<Rightarrow> range list \<Rightarrow> nat \<Rightarrow> nat \<Rightarrow> bool" where
  "contains_loops L R start end =
     (case contains_left start end (rev L) start False of
        None \<Rightarrow> True
      | Some (max_reached, covered_start) \<Rightarrow>
          if \<not> covered_start then False
          else (case contains_right end R max_reached of
                  None \<Rightarrow> True
                | Some max_reached' \<Rightarrow> max_reached' \<ge> end))"

lemma cover_to_end:
  assumes "\<forall>r \<in> set L. fst r \<le> a" and "r \<in> set L" and "m \<le> snd r"
  shows "{a..<m} \<subseteq> cover L"
  using assms by (force simp: mem_cover)

lemma contains_loops_covers:
  assumes left: "\<forall>r \<in> set L. fst r \<le> a" and right: "\<forall>r \<in> set R. a < fst r"
    and sortedR: "sorted (map fst R)" and ab: "a \<le> b"
  shows "contains_loops L R a b = covers (L @ R) a b"
proof -
  have start: "(\<exists>r \<in> set (L @ R). fst r \<le> a \<and> a < snd r) \<longleftrightarrow> (\<exists>r \<in> set L. a < snd r)"
    using left right by (auto simp: not_le)
  show ?thesis
  proof (cases "contains_left a b (rev L) a False")
    case None
    from contains_left_None [OF None order_refl]
    have c: "\<exists>r \<in> set L. a < snd r" and "a = b \<or> (\<exists>r \<in> set L. b \<le> snd r)" using ab by auto
    then have "{a..<b} \<subseteq> cover (L @ R)" using cover_to_end [OF left] by fastforce
    with None c start ab show ?thesis by (simp add: contains_loops_def covers_def)
  next
    case (Some mc)
    then obtain m c where mc: "contains_left a b (rev L) a False = Some (m, c)" by (cases mc) auto
    from contains_left_Some [OF mc order_refl]
    have am: "a \<le> m" and bnd: "\<forall>r \<in> set L. snd r \<le> m" and mr: "m = a \<or> (\<exists>r \<in> set L. snd r = m)"
      and c: "c = (\<exists>r \<in> set L. a < snd r)" and mb: "c \<longrightarrow> m < b" by auto
    show ?thesis
    proof (cases c)
      case False
      with mc c start show ?thesis by (simp add: contains_loops_def covers_def)
    next
      case True
      from mr have covL: "{a..<m} \<subseteq> cover L" using cover_to_end [OF left] by fastforce
      show ?thesis
      proof (cases "contains_right b R m")
        case None
        have "{a..<b} \<subseteq> {a..<m} \<union> {m..<b}" by auto
        with contains_right_None [OF None] covL have "{a..<b} \<subseteq> cover (L @ R)"
          unfolding cover_append by blast
        with None mc True ab c start show ?thesis by (simp add: contains_loops_def covers_def)
      next
        case (Some m')
        from contains_right_Some [OF Some sortedR] True mb
        have m': "m \<le> m'" "m' \<notin> cover R" "m' < b" by auto
        with bnd have "m' \<notin> cover L" by (auto simp: mem_cover)
        moreover from m' am have "m' \<in> {a..<b}" by simp
        ultimately have "\<not> {a..<b} \<subseteq> cover (L @ R)" using m'(2) by auto
        with Some mc True m' show ?thesis by (simp add: contains_loops_def covers_def)
      qed
    qed
  qed
qed

lemma sorted_split:
  assumes "sorted (map fst rs)"
  shows "a \<le> b \<Longrightarrow> contains_loops (take (upper_bound fst rs a) rs) (drop (upper_bound fst rs a) rs) a b
           = covers rs a b"
proof -
  assume "a \<le> b"
  have "sorted (map fst (drop (upper_bound fst rs a) rs))"
    using assms by (simp add: sorted_wrt_drop flip: drop_map)
  with \<open>a \<le> b\<close> assms show ?thesis
    by (subst contains_loops_covers) (auto dest: takeWhile_before after_upper_bound)
qed

lemma Segment_Contains_covers:
  assumes "sorted (map fst (ranges s))"
  shows "Segment_Contains s a b = covers (ranges s) a b"
proof (cases "a \<le> b")
  case True
  with sorted_split [OF assms True] show ?thesis
    by (simp add: Segment_Contains_def contains_loops_def Let_def)
qed (simp add: Segment_Contains_def covers_def)

lemma adxl_Segment_Contains_eq: "adxl_Segment_Contains s a b = Segment_Contains s a b"
  by (simp add: adxl_Segment_Contains_def Segment_Contains_def)

section \<open>The operations keep the invariant\<close>

lemma mset_remove_sorted:
  assumes "sorted (map fst rs)"
  shows "mset (take (lower_bound fst rs a) rs @ erase_same_start a b (drop (lower_bound fst rs a) rs))
           = mset rs - {#(a, b)#}"
    and "sorted (map fst (take (lower_bound fst rs a) rs @
           erase_same_start a b (drop (lower_bound fst rs a) rs)))"
proof -
  let ?L = "take (lower_bound fst rs a) rs" and ?R = "drop (lower_bound fst rs a) rs"
  have R: "sorted (map fst ?R)" "\<forall>r \<in> set ?R. a \<le> fst r"
    using assms by (auto simp: sorted_wrt_drop after_lower_bound simp flip: drop_map)
  have L: "(a, b) \<notin> set ?L" using takeWhile_before_lower [of "(a, b)" fst rs a] by auto
  have "mset rs = mset ?L + mset ?R" by (simp only: mset_append [symmetric] append_take_drop_id)
  moreover from L have "mset ?L + mset ?R - {#(a, b)#} = mset ?L + (mset ?R - {#(a, b)#})"
    by (intro mset_diff_right) simp
  ultimately show "mset (?L @ erase_same_start a b ?R) = mset rs - {#(a, b)#}"
    using mset_erase_same_start [OF R] by simp
  have "sorted (map fst (?L @ ?R))" using assms by simp
  then have "sorted (map fst ?L)" and "\<forall>x \<in> set ?L. \<forall>y \<in> set ?R. fst x \<le> fst y"
    by (auto simp only: map_append sorted_append set_map)
  moreover from this(2) have "\<forall>x \<in> set ?L. \<forall>y \<in> set (erase_same_start a b ?R). fst x \<le> fst y"
    using subset_erase_same_start [of a b ?R] by blast
  ultimately show "sorted (map fst (?L @ erase_same_start a b ?R))"
    using sorted_erase_same_start [OF R(1), of a b] by (simp add: sorted_append)
qed

lemma mset_subset_inv:
  "segment_inv s \<Longrightarrow> sorted (map fst rs) \<Longrightarrow> mset rs \<subseteq># mset (ranges s) \<Longrightarrow> segment_inv (s\<lparr>ranges := rs\<rparr>)"
  unfolding segment_inv_def by (metis (no_types, lifting) Segment.select_convs(1)
      Segment.surjective Segment.update_convs(1) mset_subset_eqD set_mset_mset)

lemma insert_inv:
  assumes "segment_inv s" and "a \<le> b"
  shows "segment_inv (s\<lparr>ranges := insert_at (upper_bound fst (ranges s) a) (a, b) (ranges s)\<rparr>)"
  using assms sorted_insert_at_upper_bound [of fst "ranges s" "(a, b)"] by (auto simp: segment_inv_def)

lemma Segment_AddRange_cases:
  obtains (overflow) "len > UINT64_MAX - start" "Segment_AddRange s start len = (PARAM_INVALID, s)"
  | (present) "len \<le> UINT64_MAX - start" "(start, start + len) \<in> set (ranges s)"
      "Segment_AddRange s start len = (SUCCESS, s)"
  | (inserted) "len \<le> UINT64_MAX - start" "Segment_AddRange s start len = (SUCCESS,
      s\<lparr>ranges := insert_at (upper_bound fst (ranges s) start) (start, start + len) (ranges s)\<rparr>)"
proof -
  define it where "it = upper_bound fst (ranges s) start"
  have le: "it \<le> length (ranges s)" by (simp add: it_def)
  have res: "Segment_AddRange s start len =
     (if len > UINT64_MAX - start then (PARAM_INVALID, s)
      else if it \<noteq> 0 \<and> ranges s ! (it - 1) = (start, start + len) then (SUCCESS, s)
      else if it \<noteq> length (ranges s) \<and> ranges s ! it = (start, start + len) then (SUCCESS, s)
      else (SUCCESS, s\<lparr>ranges := insert_at it (start, start + len) (ranges s)\<rparr>))"
    by (simp add: Segment_AddRange_def it_def Let_def)
  consider "len > UINT64_MAX - start"
    | "len \<le> UINT64_MAX - start" "it \<noteq> 0" "ranges s ! (it - 1) = (start, start + len)"
    | "len \<le> UINT64_MAX - start" "it \<noteq> length (ranges s)" "ranges s ! it = (start, start + len)"
    | "len \<le> UINT64_MAX - start" "Segment_AddRange s start len =
        (SUCCESS, s\<lparr>ranges := insert_at it (start, start + len) (ranges s)\<rparr>)"
    using res by (auto split: if_splits)
  then show ?thesis
  proof cases
    case 1
    with res overflow show ?thesis by simp
  next
    case 2
    then have "it - 1 < length (ranges s)" using le by simp
    with 2 have "(start, start + len) \<in> set (ranges s)" by (metis nth_mem)
    with 2 res present show ?thesis by simp
  next
    case 3
    then have "it < length (ranges s)" using le by simp
    with 3 have "(start, start + len) \<in> set (ranges s)" by (metis nth_mem)
    with 3 res present show ?thesis by simp
  next
    case 4
    with inserted [folded it_def] show ?thesis by simp
  qed
qed

lemma Segment_AddRange_inv [hixl_inv]:
  "segment_inv s \<Longrightarrow> segment_inv (snd (Segment_AddRange s start len))"
  by (cases rule: Segment_AddRange_cases [of start len s]) (auto simp: insert_inv)

lemma adxl_Segment_AddRange_inv [hixl_inv]:
  "segment_inv s \<Longrightarrow> segment_inv (adxl_Segment_AddRange s a b)"
  by (simp add: adxl_Segment_AddRange_def insert_inv)

lemma adxl_Segment_RemoveRange_mset:
  "segment_inv s \<Longrightarrow> mset (ranges (adxl_Segment_RemoveRange s a b)) = mset (ranges s) - {#(a, b)#}"
  by (simp add: adxl_Segment_RemoveRange_def Let_def segment_inv_def mset_remove_sorted
        del: mset_append)

lemma adxl_Segment_RemoveRange_inv [hixl_inv]:
  "segment_inv s \<Longrightarrow> segment_inv (adxl_Segment_RemoveRange s a b)"
  unfolding adxl_Segment_RemoveRange_def Let_def
  by (rule mset_subset_inv) (auto simp: segment_inv_def mset_remove_sorted simp del: mset_append map_append)

lemma Segment_RemoveRange_eq:
  assumes "segment_inv s"
  shows "Segment_RemoveRange s a b = adxl_Segment_RemoveRange s a b"
proof -
  let ?rs = "ranges s"
  let ?it = "lower_bound fst ?rs a"
  have "erase_same_start a b (drop ?it ?rs) = drop ?it ?rs"
    if "?it = length ?rs \<or> fst (?rs ! ?it) > a"
  proof (cases "?it = length ?rs")
    case False
    then have "?it < length ?rs" using lower_bound_le [of fst ?rs a] by linarith
    then have "drop ?it ?rs = ?rs ! ?it # drop (Suc ?it) ?rs" by (simp add: Cons_nth_drop_Suc)
    with that False show ?thesis by simp
  qed simp
  then show ?thesis by (auto simp: Segment_RemoveRange_def adxl_Segment_RemoveRange_def Let_def)
qed

lemma Segment_RemoveRange_inv [hixl_inv]:
  "segment_inv s \<Longrightarrow> segment_inv (Segment_RemoveRange s a b)"
  by (simp add: Segment_RemoveRange_eq adxl_Segment_RemoveRange_inv)

section \<open>What a client of a segment relies on\<close>

text \<open>
  \<open>range_store\<close>: a store of registered ranges whose query decides coverage, whose \<open>add\<close> adds the
  bytes of a range and whose \<open>remove\<close> takes one copy of a range out. \<open>range_multistore\<close> adds that
  every \<open>add\<close> records a copy of its own, so that registrations and removals pair up.
\<close>

locale range_store =
  fixes rngs :: "'s \<Rightarrow> range list"
    and invar :: "'s \<Rightarrow> bool"
    and add :: "'s \<Rightarrow> nat \<Rightarrow> nat \<Rightarrow> 's"
    and remove :: "'s \<Rightarrow> nat \<Rightarrow> nat \<Rightarrow> 's"
    and contains :: "'s \<Rightarrow> nat \<Rightarrow> nat \<Rightarrow> bool"
  assumes contains_covers: "invar s \<Longrightarrow> contains s a b = covers (rngs s) a b"
    and invar_add: "invar s \<Longrightarrow> a \<le> b \<Longrightarrow> b < 2 ^ 64 \<Longrightarrow> invar (add s a b)"
    and set_add: "invar s \<Longrightarrow> a \<le> b \<Longrightarrow> b < 2 ^ 64 \<Longrightarrow>
                    set (rngs (add s a b)) = insert (a, b) (set (rngs s))"
    and invar_remove: "invar s \<Longrightarrow> invar (remove s a b)"
    and mset_remove: "invar s \<Longrightarrow> mset (rngs (remove s a b)) = mset (rngs s) - {#(a, b)#}"
begin

lemma contains_after_add:
  assumes "invar s" "a \<le> x" "x < y" "y \<le> b" "b < 2 ^ 64"
  shows "contains (add s a b) x y"
proof -
  have "(a, b) \<in> set (rngs (add s a b))" using assms by (simp add: set_add)
  then have "{x..<y} \<subseteq> cover (rngs (add s a b))" using assms by (force simp: mem_cover)
  with assms show ?thesis by (simp add: contains_covers invar_add covers_nonempty)
qed

lemma contains_mono:
  assumes "invar s" "a \<le> b" "b < 2 ^ 64" "contains s x y"
  shows "contains (add s a b) x y"
proof -
  have "set (rngs s) \<subseteq> set (rngs (add s a b))" using assms by (auto simp: set_add)
  with assms cover_mono [OF this] show ?thesis
    unfolding contains_covers [OF assms(1)] contains_covers [OF invar_add [OF assms(1-3)]] covers_def
    by blast
qed

lemma contains_split:
  assumes "invar s" "contains s x z" "x < y" "y < z"
  shows "contains s x y \<and> contains s y z"
  using assms by (simp add: contains_covers covers_nonempty order.strict_trans subset_iff)

lemma contains_join:
  assumes "invar s" "contains s x y" "contains s y z"
  shows "contains s x z"
proof -
  have "{x..<z} \<subseteq> {x..<y} \<union> {y..<z}" by auto
  with assms show ?thesis by (auto simp: contains_covers covers_def)
qed

lemma not_contains_unregistered:
  assumes "invar s" "\<forall>r \<in> set (rngs s). \<not> (fst r \<le> p \<and> p < snd r)" "x \<le> p" "p < y"
  shows "\<not> contains s x y"
proof -
  have "p \<notin> cover (rngs s)" using assms by (auto simp: mem_cover)
  moreover have "p \<in> {x..<y}" using assms by simp
  ultimately show ?thesis using assms by (auto simp: contains_covers covers_def)
qed

end

locale range_multistore = range_store +
  assumes mset_add: "invar s \<Longrightarrow> a \<le> b \<Longrightarrow> b < 2 ^ 64 \<Longrightarrow>
                       mset (rngs (add s a b)) = add_mset (a, b) (mset (rngs s))"
begin

lemma remove_after_add:
  assumes "invar s" "a \<le> b" "b < 2 ^ 64"
  shows "contains (remove (add s a b) a b) x y = contains s x y"
proof -
  have "mset (rngs (remove (add s a b) a b)) = mset (rngs s)"
    using assms by (simp add: mset_remove mset_add invar_add)
  then have "set (rngs (remove (add s a b) a b)) = set (rngs s)" by (rule mset_eq_setD)
  with assms show ?thesis
    by (simp add: contains_covers invar_add invar_remove covers_def cover_def)
qed

end

definition Segment_add :: "Segment \<Rightarrow> nat \<Rightarrow> nat \<Rightarrow> Segment" where
  "Segment_add s a b = snd (Segment_AddRange s a (b - a))"

interpretation seg: range_store ranges segment_inv Segment_add Segment_RemoveRange Segment_Contains
proof
  fix s :: Segment and a b :: nat
  assume inv: "segment_inv s"
  show "Segment_Contains s a b = covers (ranges s) a b"
    using inv by (simp add: segment_inv_def Segment_Contains_covers)
  show "segment_inv (Segment_RemoveRange s a b)" using inv by (rule Segment_RemoveRange_inv)
  show "mset (ranges (Segment_RemoveRange s a b)) = mset (ranges s) - {#(a, b)#}"
    using inv by (simp add: Segment_RemoveRange_eq adxl_Segment_RemoveRange_mset)
  assume ab: "a \<le> b" and b: "b < 2 ^ 64"
  show "segment_inv (Segment_add s a b)" using inv by (simp add: Segment_add_def Segment_AddRange_inv)
  have "b - a \<le> UINT64_MAX - a" using b by (simp add: diff_le_mono)
  then show "set (ranges (Segment_add s a b)) = insert (a, b) (set (ranges s))"
    by (cases rule: Segment_AddRange_cases [of a "b - a" s]) (use ab in \<open>auto simp: Segment_add_def\<close>)
qed

interpretation adxl_seg: range_multistore ranges segment_inv
  adxl_Segment_AddRange adxl_Segment_RemoveRange adxl_Segment_Contains
proof
  fix s :: Segment and a b :: nat
  assume inv: "segment_inv s"
  show "adxl_Segment_Contains s a b = covers (ranges s) a b"
    using inv by (simp add: segment_inv_def Segment_Contains_covers adxl_Segment_Contains_eq)
  show "segment_inv (adxl_Segment_RemoveRange s a b)" using inv by (rule adxl_Segment_RemoveRange_inv)
  show "mset (ranges (adxl_Segment_RemoveRange s a b)) = mset (ranges s) - {#(a, b)#}"
    using inv by (rule adxl_Segment_RemoveRange_mset)
  assume ab: "a \<le> b"
  show "segment_inv (adxl_Segment_AddRange s a b)" using inv by (rule adxl_Segment_AddRange_inv)
  show "set (ranges (adxl_Segment_AddRange s a b)) = insert (a, b) (set (ranges s))"
    and "mset (ranges (adxl_Segment_AddRange s a b)) = add_mset (a, b) (mset (ranges s))"
    using ab by (simp_all add: adxl_Segment_AddRange_def)
qed

section \<open>The segment table\<close>

definition table_inv :: "SegmentTable \<Rightarrow> bool" where
  "table_inv t \<longleftrightarrow> (\<forall>segs \<in> ran t. distinct (map mem_type segs) \<and> list_all segment_inv segs)"

lemma table_invD: "table_inv t \<Longrightarrow> t ch = Some segs \<Longrightarrow> distinct (map mem_type segs) \<and> list_all segment_inv segs"
  by (auto simp: table_inv_def ran_def)

lemma table_inv_upd:
  "table_inv t \<Longrightarrow> distinct (map mem_type segs) \<Longrightarrow> list_all segment_inv segs \<Longrightarrow> table_inv (t(ch \<mapsto> segs))"
  by (auto simp: table_inv_def ran_def)

lemma mem_type_add [simp]: "mem_type (adxl_Segment_AddRange s a b) = mem_type s"
  by (simp add: adxl_Segment_AddRange_def)
lemma mem_type_remove [simp]: "mem_type (adxl_Segment_RemoveRange s a b) = mem_type s"
  by (simp add: adxl_Segment_RemoveRange_def Let_def)
lemma new_segment_inv [simp]: "segment_inv (new_segment ty)"
  by (simp add: new_segment_def segment_inv_def)
lemma new_segment_fields [simp]: "mem_type (new_segment ty) = ty" "ranges (new_segment ty) = []"
  by (simp_all add: new_segment_def)

lemma update_first_keeps:
  "(\<And>x. g (f x) = g x) \<Longrightarrow> map g (update_first P f xs) = map g xs"
  by (induction xs) auto
lemma update_first_all:
  "list_all Q xs \<Longrightarrow> (\<And>x. Q x \<Longrightarrow> Q (f x)) \<Longrightarrow> list_all Q (update_first P f xs)"
  by (induction xs) auto
lemma update_first_set:
  "x \<in> set xs \<Longrightarrow> P x \<Longrightarrow> distinct (map g xs) \<Longrightarrow> (\<And>y. P y \<longleftrightarrow> g y = k) \<Longrightarrow>
   f x \<in> set (update_first P f xs)"
  by (induction xs) force+
lemma update_first_frame:
  "x \<in> set xs \<Longrightarrow> \<not> P x \<Longrightarrow> x \<in> set (update_first P f xs)"
  by (induction xs) auto

lemma SegmentTable_AddRange_inv [hixl_inv]:
  assumes "table_inv t"
  shows "table_inv (SegmentTable_AddRange t ch a b ty)"
proof (cases "t ch")
  case None
  with assms show ?thesis
    by (simp add: SegmentTable_AddRange_def table_inv_upd adxl_Segment_AddRange_inv)
next
  case (Some segs)
  note inv = table_invD [OF assms Some]
  then have "distinct (map mem_type (update_first P (\<lambda>seg. adxl_Segment_AddRange seg a b) segs))"
    and "list_all segment_inv (update_first P (\<lambda>seg. adxl_Segment_AddRange seg a b) segs)" for P
    by (auto simp: update_first_keeps update_first_all adxl_Segment_AddRange_inv)
  moreover have "ty \<notin> mem_type ` set segs" if "\<not> list_ex (\<lambda>seg. mem_type seg = ty) segs"
    using that by (auto simp: list_ex_iff)
  ultimately show ?thesis using assms Some inv
    by (auto simp: SegmentTable_AddRange_def Let_def intro!: table_inv_upd adxl_Segment_AddRange_inv)
qed

lemma SegmentTable_RemoveRange_inv [hixl_inv]:
  assumes "table_inv t"
  shows "table_inv (SegmentTable_RemoveRange t ch a b ty)"
proof (cases "t ch")
  case (Some segs)
  with table_invD [OF assms Some] assms show ?thesis
    by (auto simp: SegmentTable_RemoveRange_def update_first_keeps update_first_all
          adxl_Segment_RemoveRange_inv intro!: table_inv_upd)
qed (simp add: SegmentTable_RemoveRange_def assms)

lemma SegmentTable_RemoveChannel_inv [hixl_inv]:
  "table_inv t \<Longrightarrow> table_inv (SegmentTable_RemoveChannel t ch)"
  by (auto simp: SegmentTable_RemoveChannel_def table_inv_def ran_def split: option.splits if_splits)

lemma at_most_two_segments:
  assumes "table_inv t" "t ch = Some segs"
  shows "length segs \<le> 2"
proof -
  have "length segs = card (set (map mem_type segs))"
    using table_invD [OF assms] by (simp add: distinct_card del: set_map)
  also have "\<dots> \<le> card {MEM_DEVICE, MEM_HOST}"
    by (rule card_mono) (use MemType.exhaust in auto)
  finally show ?thesis by simp
qed

text \<open>The ranges a channel holds for one memory type; what the table is for is this map.\<close>

definition registered :: "SegmentTable \<Rightarrow> string \<Rightarrow> MemType \<Rightarrow> range multiset" where
  "registered t ch ty =
     (case t ch of
        None \<Rightarrow> {#}
      | Some segs \<Rightarrow> (case find (\<lambda>seg. mem_type seg = ty) segs of
                        None \<Rightarrow> {#} | Some seg \<Rightarrow> mset (ranges seg)))"

lemma find_update_first:
  "(\<And>x. mem_type (f x) = mem_type x) \<Longrightarrow>
   find (\<lambda>seg. mem_type seg = ty') (update_first (\<lambda>seg. mem_type seg = ty) f segs) =
     (if ty' = ty then map_option f (find (\<lambda>seg. mem_type seg = ty) segs)
      else find (\<lambda>seg. mem_type seg = ty') segs)"
  by (induction segs) auto

lemma find_snoc:
  "find P (xs @ [x]) = (case find P xs of None \<Rightarrow> (if P x then Some x else None) | Some y \<Rightarrow> Some y)"
  by (induction xs) auto

lemma find_none_ex: "\<not> list_ex P xs \<Longrightarrow> find P xs = None"
  by (auto simp: find_None_iff list_ex_iff)
lemma find_some_ex: "list_ex P xs \<Longrightarrow> \<exists>x. find P xs = Some x \<and> x \<in> set xs"
  by (induction xs) auto

lemma registered_AddRange:
  assumes "a \<le> b"
  shows "registered (SegmentTable_AddRange t ch a b ty) ch' ty' =
           (if ch' = ch \<and> ty' = ty then add_mset (a, b) (registered t ch ty) else registered t ch' ty')"
proof -
  define segs where "segs = (case t ch of None \<Rightarrow> [] | Some segs \<Rightarrow> segs)"
  have reg: "registered t ch ty' = (case find (\<lambda>seg. mem_type seg = ty') segs of
               None \<Rightarrow> {#} | Some seg \<Rightarrow> mset (ranges seg))" for ty'
    by (simp add: registered_def segs_def split: option.splits)
  have add: "mset (ranges (adxl_Segment_AddRange s a b)) = add_mset (a, b) (mset (ranges s))" for s
    using assms by (simp add: adxl_Segment_AddRange_def)
  show ?thesis
  proof (cases "list_ex (\<lambda>seg. mem_type seg = ty) segs")
    case True
    with find_some_ex [OF True] show ?thesis
      by (auto simp: SegmentTable_AddRange_def segs_def [symmetric] Let_def registered_def
            find_update_first reg [unfolded registered_def] add)
  next
    case False
    with find_none_ex [OF False] show ?thesis
      by (auto simp: SegmentTable_AddRange_def segs_def [symmetric] Let_def registered_def
            find_snoc reg [unfolded registered_def] add split: option.splits)
  qed
qed

lemma registered_RemoveRange:
  assumes "table_inv t"
  shows "registered (SegmentTable_RemoveRange t ch a b ty) ch' ty' =
           (if ch' = ch \<and> ty' = ty then registered t ch ty - {#(a, b)#} else registered t ch' ty')"
proof (cases "t ch")
  case (Some segs)
  have "segment_inv s" if "find (\<lambda>seg. mem_type seg = ty) segs = Some s" for s
    using that table_invD [OF assms Some] by (auto simp: find_Some_iff list_all_iff)
  with Some show ?thesis
    by (auto simp: SegmentTable_RemoveRange_def registered_def find_update_first
          adxl_Segment_RemoveRange_mset split: option.splits)
qed (simp add: SegmentTable_RemoveRange_def registered_def)

lemma find_Contains_iff:
  assumes "distinct (map mem_type segs)" "list_all segment_inv segs" "x < y"
  shows "find (\<lambda>seg. adxl_Segment_Contains seg x y) segs \<noteq> None \<longleftrightarrow>
         (\<exists>ty seg. find (\<lambda>seg. mem_type seg = ty) segs = Some seg \<and> {x..<y} \<subseteq> cover (ranges seg))"
proof -
  have "find (\<lambda>s. mem_type s = mem_type seg) segs = Some seg" if "seg \<in> set segs" for seg
    using that assms(1) by (induction segs) force+
  moreover have "adxl_Segment_Contains seg x y \<longleftrightarrow> {x..<y} \<subseteq> cover (ranges seg)" if "seg \<in> set segs" for seg
    using that assms by (simp add: adxl_seg.contains_covers covers_nonempty list_all_iff)
  ultimately show ?thesis by (auto simp: find_None_iff find_Some_iff) (metis find_Some_iff nth_mem)+
qed

section \<open>Call sequences against abstract specifications\<close>

text \<open>Calls on one \<open>adxl::Segment\<close>, and the multiset of live ranges they describe.\<close>

datatype seg_call = CallAdd nat nat | CallRemove nat nat

fun adxl_seg_call :: "Segment \<Rightarrow> seg_call \<Rightarrow> Segment" where
  "adxl_seg_call s (CallAdd a b) = adxl_Segment_AddRange s a b"
| "adxl_seg_call s (CallRemove a b) = adxl_Segment_RemoveRange s a b"

fun spec_seg_call :: "range multiset \<Rightarrow> seg_call \<Rightarrow> range multiset" where
  "spec_seg_call M (CallAdd a b) = (if a > b then M else add_mset (a, b) M)"
| "spec_seg_call M (CallRemove a b) = M - {#(a, b)#}"

lemma adxl_seg_call_refines:
  "segment_inv s \<Longrightarrow> segment_inv (adxl_seg_call s c) \<and>
     mset (ranges (adxl_seg_call s c)) = spec_seg_call (mset (ranges s)) c"
  by (cases c) (auto simp: adxl_Segment_AddRange_inv adxl_Segment_RemoveRange_inv
      adxl_Segment_RemoveRange_mset adxl_Segment_AddRange_def insert_inv)

lemma adxl_seg_calls_refine:
  "segment_inv s \<Longrightarrow> segment_inv (foldl adxl_seg_call s cs) \<and>
     mset (ranges (foldl adxl_seg_call s cs)) = foldl spec_seg_call (mset (ranges s)) cs"
  by (induction cs arbitrary: s) (auto simp: adxl_seg_call_refines)

lemma cover_mset: "cover rs = (\<Union>r \<in> set_mset (mset rs). span r)"
  by (simp add: cover_def)

text \<open>Calls on a \<open>SegmentTable\<close>, and the ranges per channel and memory type they describe.\<close>

datatype table_call =
    CallTableAdd string nat nat MemType
  | CallTableRemove string nat nat MemType
  | CallRemoveChannel string
  | CallClear

fun do_table_call :: "SegmentTable \<Rightarrow> table_call \<Rightarrow> SegmentTable" where
  "do_table_call t (CallTableAdd ch a b ty) = SegmentTable_AddRange t ch a b ty"
| "do_table_call t (CallTableRemove ch a b ty) = SegmentTable_RemoveRange t ch a b ty"
| "do_table_call t (CallRemoveChannel ch) = SegmentTable_RemoveChannel t ch"
| "do_table_call t CallClear = SegmentTable_Clear t"

type_synonym table_spec = "string \<Rightarrow> MemType \<Rightarrow> range multiset"

fun spec_table_call :: "table_spec \<Rightarrow> table_call \<Rightarrow> table_spec" where
  "spec_table_call R (CallTableAdd ch a b ty) =
     (if a > b then R else R(ch := (R ch)(ty := add_mset (a, b) (R ch ty))))"
| "spec_table_call R (CallTableRemove ch a b ty) = R(ch := (R ch)(ty := R ch ty - {#(a, b)#}))"
| "spec_table_call R (CallRemoveChannel ch) = R(ch := (\<lambda>_. {#}))"
| "spec_table_call R CallClear = (\<lambda>_ _. {#})"

lemma registered_AddRange_inverted:
  assumes "a > b"
  shows "registered (SegmentTable_AddRange t ch a b ty) = registered t"
proof (intro ext)
  fix ch' ty'
  define segs where "segs = (case t ch of None \<Rightarrow> [] | Some segs \<Rightarrow> segs)"
  have same: "adxl_Segment_AddRange s a b = s" for s using assms by (simp add: adxl_Segment_AddRange_def)
  have upd: "update_first P (\<lambda>s. s) xs = xs" for P :: "Segment \<Rightarrow> bool" and xs by (induction xs) auto
  show "registered (SegmentTable_AddRange t ch a b ty) ch' ty' = registered t ch' ty'"
    by (cases "t ch") (auto simp: SegmentTable_AddRange_def registered_def Let_def same upd find_snoc
        split: option.splits)
qed

lemma table_call_refines:
  "table_inv t \<Longrightarrow> table_inv (do_table_call t c) \<and>
     registered (do_table_call t c) = spec_table_call (registered t) c"
proof (cases c)
  case (CallTableAdd ch a b ty)
  assume inv: "table_inv t"
  have "registered (SegmentTable_AddRange t ch a b ty) = spec_table_call (registered t) c"
  proof (cases "a > b")
    case True
    then show ?thesis by (simp add: CallTableAdd registered_AddRange_inverted)
  next
    case False
    then show ?thesis by (intro ext) (simp add: CallTableAdd registered_AddRange)
  qed
  with inv CallTableAdd show ?thesis by (simp add: SegmentTable_AddRange_inv)
next
  case (CallTableRemove ch a b ty)
  assume "table_inv t"
  then show ?thesis
    by (auto simp: CallTableRemove SegmentTable_RemoveRange_inv registered_RemoveRange fun_eq_iff)
next
  case (CallRemoveChannel ch)
  assume "table_inv t"
  then have "table_inv (SegmentTable_RemoveChannel t ch)" by (rule SegmentTable_RemoveChannel_inv)
  moreover have "registered (SegmentTable_RemoveChannel t ch) = (registered t)(ch := \<lambda>_. {#})"
    by (auto simp: fun_eq_iff registered_def SegmentTable_RemoveChannel_def split: option.splits)
  ultimately show ?thesis by (simp add: CallRemoveChannel)
next
  case CallClear
  then show ?thesis by (simp add: SegmentTable_Clear_def table_inv_def registered_def fun_eq_iff)
qed

lemma table_calls_refine:
  "table_inv t \<Longrightarrow> table_inv (foldl do_table_call t cs) \<and>
     registered (foldl do_table_call t cs) = foldl spec_table_call (registered t) cs"
  by (induction cs arbitrary: t) (auto simp: table_call_refines)

lemma FindSegment_registered:
  assumes "table_inv t" "x < y"
  shows "SegmentTable_FindSegment t ch x y \<noteq> None \<longleftrightarrow>
           (\<exists>ty. {x..<y} \<subseteq> (\<Union>r \<in> set_mset (registered t ch ty). span r))"
proof (cases "t ch")
  case None
  with assms(2) show ?thesis by (simp add: SegmentTable_FindSegment_def registered_def)
next
  case (Some segs)
  from table_invD [OF assms(1) Some] have
    "SegmentTable_FindSegment t ch x y \<noteq> None \<longleftrightarrow>
      (\<exists>ty seg. find (\<lambda>seg. mem_type seg = ty) segs = Some seg \<and> {x..<y} \<subseteq> cover (ranges seg))"
    by (simp add: SegmentTable_FindSegment_def Some find_Contains_iff [OF _ _ assms(2)] del: not_None_eq)
  also have "\<dots> \<longleftrightarrow> (\<exists>ty. {x..<y} \<subseteq> (\<Union>r \<in> set_mset (registered t ch ty). span r))"
    using assms(2) by (force simp: registered_def Some cover_mset split: option.splits)
  finally show ?thesis .
qed

section \<open>Properties\<close>

text \<open>C1: \<open>Segment::Contains\<close> decides coverage. For a segment with sorted ranges the two-loop scan
  answers true exactly when the query is not inverted, its first address lies in a registered range
  and every address of \<open>[a, b)\<close> lies in some registered range, adjacent and overlapping ranges
  being merged on the fly.\<close>

theorem Segment_Contains_correct:
  assumes "segment_inv s"
  shows "Segment_Contains s a b \<longleftrightarrow>
           a \<le> b \<and> (\<exists>r \<in> set (ranges s). fst r \<le> a \<and> a < snd r) \<and>
           (\<forall>p. a \<le> p \<and> p < b \<longrightarrow> (\<exists>r \<in> set (ranges s). fst r \<le> p \<and> p < snd r))"
proof -
  have "{a..<b} \<subseteq> cover (ranges s) \<longleftrightarrow>
          (\<forall>p. a \<le> p \<and> p < b \<longrightarrow> (\<exists>r \<in> set (ranges s). fst r \<le> p \<and> p < snd r))"
    by (auto simp: subset_iff mem_cover)
  then show ?thesis by (simp add: seg.contains_covers [OF assms] covers_def)
qed

theorem Segment_Contains_correct_witness:
  "segment_inv \<lparr>ranges = [(0, 10), (5, 20), (20, 30)], mem_type = MEM_HOST\<rparr> \<and>
   Segment_Contains \<lparr>ranges = [(0, 10), (5, 20), (20, 30)], mem_type = MEM_HOST\<rparr> 3 28 \<and>
   (\<exists>r \<in> set [(0, 10), (5, 20), (20::nat, 30)]. fst r \<le> 27 \<and> (27::nat) < snd r)"
proof -
  let ?s = "\<lparr>ranges = [(0, 10), (5, 20), (20, 30)], mem_type = MEM_HOST\<rparr> :: Segment"
  have inv: "segment_inv ?s" by (simp add: segment_inv_def)
  moreover have c: "Segment_Contains ?s 3 28"
    by (simp add: Segment_Contains_def upper_bound_def)
  moreover from c have "\<exists>r \<in> set (ranges ?s). fst r \<le> 27 \<and> 27 < snd r"
    unfolding Segment_Contains_correct [OF inv] by (elim conjE allE [of _ 27]) simp
  ultimately show ?thesis by simp
qed

text \<open>\<open>Segment::AddRange\<close> on every branch. A range whose end would pass \<open>UINT64_MAX\<close> is rejected
  with \<open>PARAM_INVALID\<close> and nothing changes; any other range is accepted, the vector stays sorted and
  the covered addresses grow by exactly the range.\<close>

lemma Segment_AddRange_correct:
  assumes "segment_inv s" and "start < 2 ^ 64"
  shows "(2 ^ 64 \<le> start + len \<longrightarrow> Segment_AddRange s start len = (PARAM_INVALID, s)) \<and>
         (start + len < 2 ^ 64 \<longrightarrow>
            fst (Segment_AddRange s start len) = SUCCESS \<and>
            segment_inv (snd (Segment_AddRange s start len)) \<and>
            cover (ranges (snd (Segment_AddRange s start len))) = cover (ranges s) \<union> {start..<start + len})"
proof (cases rule: Segment_AddRange_cases [of start len s])
  case overflow
  with assms(2) show ?thesis by simp
next
  case present
  then have "{start..<start + len} \<subseteq> cover (ranges s)" by (force simp: mem_cover)
  with present assms show ?thesis by auto
next
  case inserted
  with Segment_AddRange_inv [OF assms(1), of start len] assms(2) show ?thesis
    by (auto simp: cover_def span_def)
qed

theorem Segment_AddRange_correct_witness:
  "segment_inv \<lparr>ranges = [(0, 10)], mem_type = MEM_HOST\<rparr> \<and>
   Segment_AddRange \<lparr>ranges = [(0, 10)], mem_type = MEM_HOST\<rparr> (2 ^ 64 - 1) 1 =
     (PARAM_INVALID, \<lparr>ranges = [(0, 10)], mem_type = MEM_HOST\<rparr>)"
proof -
  have "segment_inv \<lparr>ranges = [(0, 10)], mem_type = MEM_HOST\<rparr>" by (simp add: segment_inv_def)
  with Segment_AddRange_correct [OF this, of "2 ^ 64 - 1" 1] show ?thesis by simp
qed

text \<open>the duplicate check of \<open>Segment::AddRange\<close> only looks at the neighbours of the insertion
  point, so re-adding a registered range is not always a no-op: with a second range of the same
  start in between, the range is stored twice, and one \<open>RemoveRange\<close> per range leaves it registered.\<close>

lemma Segment_AddRange_duplicates:
  "let s0 = \<lparr>ranges = [], mem_type = MEM_DEVICE\<rparr>;
       s1 = snd (Segment_AddRange s0 0 10);
       s2 = snd (Segment_AddRange s1 0 20);
       s3 = snd (Segment_AddRange s2 0 10)
   in (0, 10) \<in> set (ranges s2) \<and> ranges s3 = [(0, 10), (0, 20), (0, 10)] \<and>
      Segment_Contains (Segment_RemoveRange (Segment_RemoveRange s3 0 10) 0 20) 0 10"
proof -
  let ?s = "\<lambda>rs. \<lparr>ranges = rs, mem_type = MEM_DEVICE\<rparr> :: Segment"
  have "Segment_AddRange (?s []) 0 10 = (SUCCESS, ?s [(0, 10)])"
    and "Segment_AddRange (?s [(0, 10)]) 0 20 = (SUCCESS, ?s [(0, 10), (0, 20)])"
    and "Segment_AddRange (?s [(0, 10), (0, 20)]) 0 10 = (SUCCESS, ?s [(0, 10), (0, 20), (0, 10)])"
    by (simp_all add: Segment_AddRange_def upper_bound_def insert_at_def)
  moreover have "Segment_RemoveRange (?s [(0, 10), (0, 20), (0, 10)]) 0 10 = ?s [(0, 20), (0, 10)]"
    and "Segment_RemoveRange (?s [(0, 20), (0, 10)]) 0 20 = ?s [(0, 10)]"
    by (simp_all add: Segment_RemoveRange_def lower_bound_def)
  moreover have "Segment_Contains (?s [(0, 10)]) 0 10"
    by (simp add: Segment_Contains_def upper_bound_def)
  ultimately show ?thesis by simp
qed

text \<open>C24: \<open>adxl::Segment\<close> refines a multiset of ranges. After any sequence of \<open>AddRange\<close> and
  \<open>RemoveRange\<close> calls on an empty segment the vector is sorted and holds exactly the ranges the
  calls leave live (inverted ranges being ignored), and \<open>Contains\<close> answers for every non-empty query
  whether the live ranges cover it.\<close>

theorem adxl_Segment_refines:
  assumes "x < y"
  shows "segment_inv (foldl adxl_seg_call (new_segment ty) cs) \<and>
         mset (ranges (foldl adxl_seg_call (new_segment ty) cs)) = foldl spec_seg_call {#} cs \<and>
         (adxl_Segment_Contains (foldl adxl_seg_call (new_segment ty) cs) x y \<longleftrightarrow>
            {x..<y} \<subseteq> (\<Union>r \<in> set_mset (foldl spec_seg_call {#} cs). span r))"
  using adxl_seg_calls_refine [OF new_segment_inv, of ty cs] assms
  by (simp add: adxl_seg.contains_covers covers_nonempty cover_mset)

theorem adxl_Segment_refines_witness:
  "(2::nat) < 9 \<and>
   adxl_Segment_Contains (foldl adxl_seg_call (new_segment MEM_HOST)
     [CallAdd 5 10, CallAdd 0 5, CallAdd 7 3, CallRemove 1 2]) 2 9"
proof -
  have "{2..<9} \<subseteq> {0..<5} \<union> {5..<10::nat}" by auto
  then show ?thesis
    using adxl_Segment_refines [of 2 9 MEM_HOST "[CallAdd 5 10, CallAdd 0 5, CallAdd 7 3, CallRemove 1 2]"]
    by (simp add: span_def)
qed

text \<open>C25: the segment table refines a map from channel and memory type to live ranges. After any
  sequence of table calls from the empty table each channel holds at most one sorted segment per
  memory type (so at most two), and \<open>FindSegment\<close> finds one for a non-empty query exactly when the
  live ranges of that channel for some single memory type cover it; calls on other channels do not
  matter.\<close>

theorem SegmentTable_refines:
  assumes "x < y"
  shows "(\<forall>segs. foldl do_table_call Map.empty cs ch = Some segs \<longrightarrow>
            length segs \<le> 2 \<and> list_all segment_inv segs) \<and>
         (SegmentTable_FindSegment (foldl do_table_call Map.empty cs) ch x y \<noteq> None \<longleftrightarrow>
            (\<exists>ty. {x..<y} \<subseteq> (\<Union>r \<in> set_mset (foldl spec_table_call (\<lambda>_ _. {#}) cs ch ty). span r)))"
proof -
  have "table_inv Map.empty" and "registered Map.empty = (\<lambda>_ _. {#})"
    by (simp_all add: table_inv_def registered_def fun_eq_iff)
  with table_calls_refine [of Map.empty cs]
  have inv: "table_inv (foldl do_table_call Map.empty cs)"
    and reg: "registered (foldl do_table_call Map.empty cs) = foldl spec_table_call (\<lambda>_ _. {#}) cs"
    by simp_all
  show ?thesis
    using FindSegment_registered [OF inv assms, of ch] at_most_two_segments [OF inv] table_invD [OF inv]
    unfolding reg by blast
qed

theorem SegmentTable_refines_witness:
  "(0::nat) < 8 \<and>
   SegmentTable_FindSegment (foldl do_table_call Map.empty
     [CallTableAdd ''a'' 0 4 MEM_DEVICE, CallTableAdd ''a'' 4 8 MEM_DEVICE, CallTableAdd ''b'' 0 8 MEM_HOST,
      CallRemoveChannel ''b'']) ''a'' 0 8 \<noteq> None"
proof -
  have "{0..<8} \<subseteq> {4..<8} \<union> {0..<4::nat}" by auto
  then have "\<exists>ty. {0..<8} \<subseteq> (\<Union>r \<in> set_mset (foldl spec_table_call (\<lambda>_ _. {#})
     [CallTableAdd ''a'' 0 4 MEM_DEVICE, CallTableAdd ''a'' 4 8 MEM_DEVICE, CallTableAdd ''b'' 0 8 MEM_HOST,
      CallRemoveChannel ''b''] ''a'' ty). span r)"
    by (intro exI [of _ MEM_DEVICE]) (simp add: span_def)
  then show ?thesis
    using SegmentTable_refines [of 0 8 "[CallTableAdd ''a'' 0 4 MEM_DEVICE, CallTableAdd ''a'' 4 8 MEM_DEVICE,
      CallTableAdd ''b'' 0 8 MEM_HOST, CallRemoveChannel ''b'']" "''a''"] by simp
qed

end
