(* ===== verification/Mem_Store.thy ===== *)
theory Mem_Store
  imports Hixl_Prelude
begin

text \<open>
  The store of registered memory that a client keeps for both ends of a channel
  (\<open>src/src/hixl/cs/hixl_mem_store.cc\<close>): registration with its overlap check, validation of the
  addresses of a one-sided transfer and conversion of host addresses to the device addresses they
  are mapped to. A \<open>std::map\<close> from addresses to regions is a list of pairs sorted strictly by key;
  iterators are indices. Addresses and sizes are naturals below \<open>2 ^ 64\<close>, the null pointer is 0,
  and address arithmetic wraps where the code does not check it.
\<close>

section \<open>Data\<close>

record MemoryRegion =
  rg_addr :: nat
  rg_size :: nat
  rg_is_host_mem :: bool
  rg_register_dev_addr :: nat

type_synonym regions = "(nat \<times> MemoryRegion) list"

record HixlMemStore =
  server_regions :: regions
  client_regions :: regions

record HixlOneSideOpDesc =
  remote_buf :: nat
  local_buf :: nat
  op_len :: nat

section \<open>Operations\<close>

definition IsAddrInRegion :: "MemoryRegion \<Rightarrow> nat \<Rightarrow> bool" where
  "IsAddrInRegion r a =
     (if a < rg_addr r then False else a < add64 (rg_addr r) (rg_size r))"

definition CheckRegionsContiguous :: "MemoryRegion \<Rightarrow> MemoryRegion \<Rightarrow> bool" where
  "CheckRegionsContiguous prev cur =
     (let prev_end = add64 (rg_addr prev) (rg_size prev);
          prev_has_dev_addr = rg_register_dev_addr prev \<noteq> 0;
          curr_has_dev_addr = rg_register_dev_addr cur \<noteq> 0
      in if prev_end \<noteq> rg_addr cur then False
         else if rg_is_host_mem prev \<noteq> rg_is_host_mem cur then False
         else if prev_has_dev_addr \<noteq> curr_has_dev_addr then False
         else if prev_has_dev_addr
              then add64 (rg_register_dev_addr prev) (rg_size prev) = rg_register_dev_addr cur
         else True)"

definition RecordMemory ::
  "HixlMemStore \<Rightarrow> bool \<Rightarrow> nat \<Rightarrow> nat \<Rightarrow> bool \<Rightarrow> nat \<Rightarrow> status \<times> HixlMemStore" where
  "RecordMemory st is_server addr sz is_host_mem register_dev_addr =
     (if addr = 0 \<or> sz = 0 then (PARAM_INVALID, st)
      else if AddOverflow addr sz then (PARAM_INVALID, st)
      else if register_dev_addr \<noteq> 0 \<and> AddOverflow register_dev_addr sz then (PARAM_INVALID, st)
      else
        let new_region = \<lparr>rg_addr = addr, rg_size = sz, rg_is_host_mem = is_host_mem,
                          rg_register_dev_addr = register_dev_addr\<rparr>
        in if is_server then
             (if map_of (server_regions st) addr \<noteq> None then (SUCCESS, st)
              else (SUCCESS, st\<lparr>server_regions := map_insert addr new_region (server_regions st)\<rparr>))
           else
             (if map_of (client_regions st) addr \<noteq> None then (PARAM_INVALID, st)
              else (SUCCESS, st\<lparr>client_regions := map_insert addr new_region (client_regions st)\<rparr>)))"

definition UnrecordMemory :: "HixlMemStore \<Rightarrow> bool \<Rightarrow> nat \<Rightarrow> status \<times> HixlMemStore" where
  "UnrecordMemory st is_server addr =
     (if is_server then
        (if map_of (server_regions st) addr = None then (PARAM_INVALID, st)
         else (SUCCESS, st\<lparr>server_regions := map_erase addr (server_regions st)\<rparr>))
      else
        (if map_of (client_regions st) addr = None then (PARAM_INVALID, st)
         else (SUCCESS, st\<lparr>client_regions := map_erase addr (client_regions st)\<rparr>)))"

definition side :: "HixlMemStore \<Rightarrow> bool \<Rightarrow> regions" where
  "side st is_server = (if is_server then server_regions st else client_regions st)"

text \<open>The lambda \<open>overlaps\<close> of \<open>CheckMemoryForRegister\<close>.\<close>

definition overlaps :: "bool \<Rightarrow> nat \<Rightarrow> nat \<Rightarrow> MemoryRegion \<Rightarrow> bool" where
  "overlaps is_server s e r =
     (if AddOverflow (rg_addr r) (rg_size r) then True
      else
        let rs = rg_addr r; re = rg_addr r + rg_size r;
            is_overlap = (s < re \<and> rs < e);
            is_same = (s = rs \<and> e = re)
        in is_overlap \<and> (\<not> is_same \<or> \<not> is_server))"

text \<open>
  True means the range must not be registered. \<open>HIXL_CHECK_NOTNULL\<close> returns the non-zero status
  \<open>PARAM_INVALID\<close> from this function with a \<open>bool\<close> result, so a null address reads as true.
\<close>

definition CheckMemoryForRegister :: "HixlMemStore \<Rightarrow> bool \<Rightarrow> nat \<Rightarrow> nat \<Rightarrow> bool" where
  "CheckMemoryForRegister st is_server check_addr check_size =
     (let regions = side st is_server in
      if check_addr = 0 then True
      else if check_size = 0 then True
      else if AddOverflow check_addr check_size then True
      else if regions = [] then False
      else
        let s = check_addr; e = check_addr + check_size; it = lower_bound fst regions check_addr in
        if it \<noteq> length regions \<and> overlaps is_server s e (snd (regions ! it)) then True
        else if it \<noteq> 0 \<and> overlaps is_server s e (snd (regions ! (it - 1))) then True
        else False)"

text \<open>The two while loops of \<open>CheckMergedRegionsAccess\<close>, backward and forward from an index.\<close>

fun merge_backward :: "regions \<Rightarrow> nat \<Rightarrow> nat" where
  "merge_backward regions 0 = 0"
| "merge_backward regions (Suc i) =
     (if \<not> CheckRegionsContiguous (snd (regions ! i)) (snd (regions ! Suc i)) then Suc i
      else merge_backward regions i)"

function merge_forward :: "regions \<Rightarrow> nat \<Rightarrow> nat" where
  "merge_forward regions i =
     (if i \<ge> length regions then i
      else if Suc i = length regions \<or>
              \<not> CheckRegionsContiguous (snd (regions ! i)) (snd (regions ! Suc i)) then i
      else merge_forward regions (Suc i))"
  by pat_completeness auto
termination by (relation "measure (\<lambda>(regions, i). length regions - i)") auto

declare merge_forward.simps [simp del]

definition region_contains :: "nat \<Rightarrow> nat \<Rightarrow> nat \<Rightarrow> nat \<Rightarrow> bool" where
  "region_contains s e addr sz \<longleftrightarrow> s \<ge> addr \<and> e \<le> add64 addr sz"

definition CheckMergedRegionsAccess :: "regions \<Rightarrow> nat \<Rightarrow> nat \<Rightarrow> nat \<Rightarrow> bool" where
  "CheckMergedRegionsAccess regions s e it =
     (let start_it = merge_backward regions it; end_it = merge_forward regions it in
      if start_it = end_it \<or> end_it = length regions then False
      else
        let merged_start = rg_addr (snd (regions ! start_it));
            merged_end = add64 (rg_addr (snd (regions ! end_it))) (rg_size (snd (regions ! end_it)))
        in region_contains s e merged_start (sub64 merged_end merged_start))"

text \<open>As in \<open>CheckMemoryForRegister\<close>, a null address makes this function return true.\<close>

definition CheckMemoryForAccess :: "HixlMemStore \<Rightarrow> bool \<Rightarrow> nat \<Rightarrow> nat \<Rightarrow> bool" where
  "CheckMemoryForAccess st is_server check_addr check_size =
     (let regions = side st is_server in
      if check_addr = 0 then True
      else if check_size = 0 then False
      else if regions = [] then False
      else if check_size > UINT64_MAX - check_addr then False
      else
        let s = check_addr; e = check_addr + check_size; it = lower_bound fst regions check_addr;
            contains = (\<lambda>r. region_contains s e (rg_addr r) (rg_size r))
        in if it \<noteq> length regions \<and> contains (snd (regions ! it)) then True
           else if it \<noteq> 0 \<and> contains (snd (regions ! (it - 1))) then True
           else if it \<noteq> length regions then CheckMergedRegionsAccess regions s e it
           else False)"

definition ValidateMemoryAccess :: "HixlMemStore \<Rightarrow> nat \<Rightarrow> nat \<Rightarrow> nat \<Rightarrow> status" where
  "ValidateMemoryAccess st server_addr mem_size client_addr =
     (if \<not> (server_addr \<noteq> 0 \<and> client_addr \<noteq> 0 \<and> mem_size \<noteq> 0) then PARAM_INVALID
      else if \<not> CheckMemoryForAccess st True server_addr mem_size then PARAM_INVALID
      else if \<not> CheckMemoryForAccess st False client_addr mem_size then PARAM_INVALID
      else SUCCESS)"

definition FindMemoryRegion :: "HixlMemStore \<Rightarrow> bool \<Rightarrow> nat \<Rightarrow> status + MemoryRegion" where
  "FindMemoryRegion st is_server addr =
     (let regions = side st is_server; it = lower_bound fst regions addr in
      if regions = [] then Inl FAILED
      else if it \<noteq> length regions \<and> IsAddrInRegion (snd (regions ! it)) addr
           then Inr (snd (regions ! it))
      else if it \<noteq> 0 \<and> IsAddrInRegion (snd (regions ! (it - 1))) addr
           then Inr (snd (regions ! (it - 1)))
      else Inl FAILED)"

fun BatchValidateMemoryAccess ::
  "HixlMemStore \<Rightarrow> HixlOneSideOpDesc list \<Rightarrow> bool \<Rightarrow> status" where
  "BatchValidateMemoryAccess st [] check_local_mem = SUCCESS"
| "BatchValidateMemoryAccess st (d # ds) check_local_mem =
     (if \<not> (remote_buf d \<noteq> 0 \<and> local_buf d \<noteq> 0 \<and> op_len d \<noteq> 0) then PARAM_INVALID
      else if \<not> CheckMemoryForAccess st True (remote_buf d) (op_len d) then PARAM_INVALID
      else if \<not> check_local_mem then BatchValidateMemoryAccess st ds check_local_mem
      else if \<not> CheckMemoryForAccess st False (local_buf d) (op_len d) then PARAM_INVALID
      else BatchValidateMemoryAccess st ds check_local_mem)"

text \<open>
  \<open>ConvertHostAddr\<close> writes the descriptor in place and counts converted addresses; an error may
  come after the remote address has been rewritten, so the descriptor is part of the result.
\<close>

definition ConvertHostAddr ::
  "HixlMemStore \<Rightarrow> HixlOneSideOpDesc \<Rightarrow> nat \<Rightarrow> nat \<Rightarrow> status \<times> HixlOneSideOpDesc \<times> nat \<times> nat" where
  "ConvertHostAddr st desc local_host_cnt remote_host_cnt =
     (case FindMemoryRegion st True (remote_buf desc) of
        Inl status \<Rightarrow> (status, desc, local_host_cnt, remote_host_cnt)
      | Inr rr \<Rightarrow>
          if rg_is_host_mem rr \<and> rg_register_dev_addr rr = 0
          then (PARAM_INVALID, desc, local_host_cnt, remote_host_cnt)
          else
            let desc' = (if rg_is_host_mem rr
                         then desc\<lparr>remote_buf := add64 (rg_register_dev_addr rr)
                                                   (sub64 (remote_buf desc) (rg_addr rr))\<rparr>
                         else desc);
                remote_cnt' = (if rg_is_host_mem rr then add32 remote_host_cnt 1 else remote_host_cnt)
            in case FindMemoryRegion st False (local_buf desc') of
                 Inl status \<Rightarrow> (status, desc', local_host_cnt, remote_cnt')
               | Inr lr \<Rightarrow>
                   if rg_is_host_mem lr \<and> rg_register_dev_addr lr = 0
                   then (PARAM_INVALID, desc', local_host_cnt, remote_cnt')
                   else if rg_is_host_mem lr
                   then (SUCCESS, desc'\<lparr>local_buf := add64 (rg_register_dev_addr lr)
                                                     (sub64 (local_buf desc') (rg_addr lr))\<rparr>,
                         add32 local_host_cnt 1, remote_cnt')
                   else (SUCCESS, desc', local_host_cnt, remote_cnt'))"

fun BatchConvertHostAddr_loop ::
  "HixlMemStore \<Rightarrow> HixlOneSideOpDesc list \<Rightarrow> nat \<Rightarrow> nat \<Rightarrow> status \<times> HixlOneSideOpDesc list" where
  "BatchConvertHostAddr_loop st [] lc rc = (SUCCESS, [])"
| "BatchConvertHostAddr_loop st (d # ds) lc rc =
     (case ConvertHostAddr st d lc rc of
        (status, d', lc', rc') \<Rightarrow>
          if status \<noteq> SUCCESS then (status, d' # ds)
          else (case BatchConvertHostAddr_loop st ds lc' rc' of (status', ds') \<Rightarrow> (status', d' # ds')))"

definition BatchConvertHostAddr ::
  "HixlMemStore \<Rightarrow> HixlOneSideOpDesc list \<Rightarrow> status \<times> HixlOneSideOpDesc list" where
  "BatchConvertHostAddr st desc_list = BatchConvertHostAddr_loop st desc_list 0 0"

section \<open>Invariant\<close>

definition region_bytes :: "MemoryRegion \<Rightarrow> nat set" where
  "region_bytes r = {rg_addr r ..< rg_addr r + rg_size r}"

definition region_ok :: "nat \<times> MemoryRegion \<Rightarrow> bool" where
  "region_ok e \<longleftrightarrow> fst e = rg_addr (snd e) \<and> rg_addr (snd e) \<noteq> 0 \<and> rg_size (snd e) \<noteq> 0 \<and>
     rg_addr (snd e) + rg_size (snd e) < 2 ^ 64 \<and>
     (rg_register_dev_addr (snd e) \<noteq> 0 \<longrightarrow> rg_register_dev_addr (snd e) + rg_size (snd e) < 2 ^ 64)"

definition regions_inv :: "regions \<Rightarrow> bool" where
  "regions_inv m \<longleftrightarrow> strict_keys m \<and> (\<forall>e \<in> set m. region_ok e)"

definition store_inv :: "HixlMemStore \<Rightarrow> bool" where
  "store_inv st \<longleftrightarrow> regions_inv (server_regions st) \<and> regions_inv (client_regions st)"

definition regions_disjoint :: "regions \<Rightarrow> bool" where
  "regions_disjoint m \<longleftrightarrow>
     sorted_wrt (\<lambda>e f. rg_addr (snd e) + rg_size (snd e) \<le> rg_addr (snd f)) m"

lemma store_inv_side: "store_inv st \<Longrightarrow> regions_inv (side st is_server)"
  by (simp add: store_inv_def side_def)

lemma regions_inv_insert:
  assumes "regions_inv m" "map_of m a = None" "region_ok (a, r)"
  shows "regions_inv (map_insert a r m)"
  using assms by (auto simp: regions_inv_def strict_keys_insert)

lemma regions_inv_erase: "regions_inv m \<Longrightarrow> regions_inv (map_erase a m)"
  by (auto simp: regions_inv_def strict_keys_erase set_map_erase)

lemma RecordMemory_region_ok:
  assumes "\<not> (addr = 0 \<or> sz = 0)" "\<not> AddOverflow addr sz"
    "\<not> (dev \<noteq> 0 \<and> AddOverflow dev sz)"
  shows "region_ok (addr, \<lparr>rg_addr = addr, rg_size = sz, rg_is_host_mem = h, rg_register_dev_addr = dev\<rparr>)"
  using assms by (auto simp: region_ok_def not_AddOverflow)

lemma RecordMemory_inv [hixl_inv]:
  "store_inv st \<Longrightarrow> store_inv (snd (RecordMemory st is_server addr sz h dev))"
  using RecordMemory_region_ok [of addr sz dev h]
  by (auto simp: RecordMemory_def store_inv_def Let_def regions_inv_insert)

lemma RecordMemory_map:
  assumes "fst (RecordMemory st sv a n h dev) = SUCCESS" "map_of (side st sv) a = None"
  shows "map_of (side (snd (RecordMemory st sv a n h dev)) sv) =
    (map_of (side st sv))(a \<mapsto> \<lparr>rg_addr = a, rg_size = n, rg_is_host_mem = h, rg_register_dev_addr = dev\<rparr>)"
  using assms by (auto simp: RecordMemory_def side_def Let_def map_of_map_insert split: if_splits)

lemma UnrecordMemory_inv [hixl_inv]:
  "store_inv st \<Longrightarrow> store_inv (snd (UnrecordMemory st is_server addr))"
  by (simp add: UnrecordMemory_def store_inv_def regions_inv_erase)

lemma regions_inv_nth:
  assumes "regions_inv m" "i < length m"
  shows "region_ok (m ! i)"
  using assms by (simp add: regions_inv_def)

lemma region_end:
  "region_ok e \<Longrightarrow> add64 (rg_addr (snd e)) (rg_size (snd e)) = rg_addr (snd e) + rg_size (snd e)"
  by (simp add: region_ok_def add64_id)

section \<open>Chains of contiguous regions\<close>

text \<open>A chain is a run of consecutive entries each of which continues the one before.\<close>

definition chain :: "regions \<Rightarrow> nat \<Rightarrow> nat \<Rightarrow> bool" where
  "chain m i j \<longleftrightarrow> i \<le> j \<and> j < length m \<and>
     (\<forall>k. i \<le> k \<and> k < j \<longrightarrow> CheckRegionsContiguous (snd (m ! k)) (snd (m ! Suc k)))"

lemma chain_single [simp]: "i < length m \<Longrightarrow> chain m i i"
  by (auto simp: chain_def)

lemma chain_sub: "chain m i j \<Longrightarrow> i \<le> i' \<Longrightarrow> i' \<le> j' \<Longrightarrow> j' \<le> j \<Longrightarrow> chain m i' j'"
  by (simp add: chain_def)

lemma chain_extend_left:
  "chain m (Suc i) j \<Longrightarrow> CheckRegionsContiguous (snd (m ! i)) (snd (m ! Suc i)) \<Longrightarrow> chain m i j"
  unfolding chain_def by (metis Suc_leD Suc_leI le_neq_implies_less)

lemma chain_extend_right:
  "chain m i j \<Longrightarrow> Suc j < length m \<Longrightarrow>
   CheckRegionsContiguous (snd (m ! j)) (snd (m ! Suc j)) \<Longrightarrow> chain m i (Suc j)"
  unfolding chain_def by (metis le_SucI less_Suc_eq)

lemma chain_left: "chain m i j \<Longrightarrow> i \<noteq> j \<Longrightarrow>
   chain m (Suc i) j \<and> CheckRegionsContiguous (snd (m ! i)) (snd (m ! Suc i))"
  unfolding chain_def by (metis Suc_leD Suc_leI le_neq_implies_less le_refl)

lemma chain_right: "chain m i (Suc j) \<Longrightarrow> i \<noteq> Suc j \<Longrightarrow>
   chain m i j \<and> CheckRegionsContiguous (snd (m ! j)) (snd (m ! Suc j))"
  unfolding chain_def by (metis Suc_lessD le_Suc_eq lessI less_SucI)

lemma chain_bounds: "chain m i j \<Longrightarrow> i \<le> j \<and> j < length m"
  by (simp only: chain_def)

lemma merge_backward_chain: "j < length m \<Longrightarrow> chain m (merge_backward m j) j"
proof (induction j)
  case (Suc j)
  then show ?case
    by (cases "CheckRegionsContiguous (snd (m ! j)) (snd (m ! Suc j))")
       (simp_all add: chain_extend_right)
qed simp

lemma merge_backward_least: "chain m i j \<Longrightarrow> merge_backward m j \<le> i"
proof (induction j)
  case (Suc j)
  show ?case
  proof (cases "i = Suc j")
    case True
    then show ?thesis using merge_backward_chain [of "Suc j" m] chain_bounds Suc.prems by blast
  next
    case False
    with chain_right Suc show ?thesis by simp
  qed
qed simp

lemma merge_forward_chain: "i < length m \<Longrightarrow> chain m i (merge_forward m i)"
proof (induction m i rule: merge_forward.induct)
  case (1 m i)
  show ?case
  proof (cases "Suc i = length m \<or> \<not> CheckRegionsContiguous (snd (m ! i)) (snd (m ! Suc i))")
    case True
    with 1(2) show ?thesis by (simp add: merge_forward.simps [of m i])
  next
    case False
    with 1 have "chain m (Suc i) (merge_forward m (Suc i))" by auto
    moreover have "merge_forward m i = merge_forward m (Suc i)"
      using False 1(2) by (subst merge_forward.simps) simp
    ultimately show ?thesis using False by (simp add: chain_extend_left)
  qed
qed

lemma merge_forward_greatest: "chain m i j \<Longrightarrow> j \<le> merge_forward m i"
proof (induction m i rule: merge_forward.induct)
  case (1 m i)
  show ?case
  proof (cases "i = j")
    case True
    then show ?thesis using merge_forward_chain [of i m] chain_bounds 1(2) by blast
  next
    case False
    with chain_left [OF 1(2)] chain_bounds [OF 1(2)] 1(1) show ?thesis
      by (subst merge_forward.simps) simp
  qed
qed

abbreviation reg :: "regions \<Rightarrow> nat \<Rightarrow> MemoryRegion" where "reg m k \<equiv> snd (m ! k)"
abbreviation reg_end :: "MemoryRegion \<Rightarrow> nat" where "reg_end r \<equiv> rg_addr r + rg_size r"

lemma contiguous_facts:
  assumes "region_ok e" "region_ok f" "CheckRegionsContiguous (snd e) (snd f)"
  shows "rg_addr (snd f) = reg_end (snd e)"
    "rg_is_host_mem (snd f) = rg_is_host_mem (snd e)"
    "(rg_register_dev_addr (snd f) = 0) = (rg_register_dev_addr (snd e) = 0)"
    "rg_register_dev_addr (snd e) \<noteq> 0 \<Longrightarrow>
       rg_register_dev_addr (snd f) = rg_register_dev_addr (snd e) + rg_size (snd e)"
  using assms
  by (auto simp: CheckRegionsContiguous_def region_end Let_def region_ok_def add64_id split: if_splits)

lemma chain_step:
  assumes "regions_inv m" "chain m i (Suc j)" "i \<noteq> Suc j"
  shows "chain m i j" "region_ok (m ! j)" "region_ok (m ! Suc j)"
    "CheckRegionsContiguous (reg m j) (reg m (Suc j))"
  using chain_right [OF assms(2,3)] chain_bounds [OF assms(2)] assms(1)
  by (auto intro: regions_inv_nth)

lemma chain_cover:
  assumes "regions_inv m" "chain m i j" "rg_addr (reg m i) \<le> p" "p < reg_end (reg m j)"
  shows "\<exists>k. i \<le> k \<and> k \<le> j \<and> p \<in> region_bytes (reg m k)"
  using assms(2,4)
proof (induction j)
  case 0
  then show ?case using assms(3) by (auto simp: region_bytes_def dest!: chain_bounds)
next
  case (Suc j)
  consider "p \<in> region_bytes (reg m (Suc j))" | "i \<noteq> Suc j" "p < rg_addr (reg m (Suc j))"
    using Suc.prems assms(3) by (cases "i = Suc j"; cases "p < rg_addr (reg m (Suc j))") (auto simp: region_bytes_def)
  then show ?case
  proof cases
    case 1
    then show ?thesis using chain_bounds [OF Suc.prems(1)] by blast
  next
    case 2
    note st = chain_step [OF assms(1) Suc.prems(1) 2(1)]
    with 2 contiguous_facts(1) [OF st(2-4)] Suc.IH show ?thesis by fastforce
  qed
qed

lemma chain_translate:
  assumes "regions_inv m" "chain m i j"
  shows "rg_addr (reg m i) \<le> rg_addr (reg m j) \<and> rg_is_host_mem (reg m j) = rg_is_host_mem (reg m i) \<and>
    (rg_register_dev_addr (reg m i) \<noteq> 0 \<longrightarrow> rg_register_dev_addr (reg m j) \<noteq> 0 \<and>
       rg_register_dev_addr (reg m j) + rg_addr (reg m i) = rg_register_dev_addr (reg m i) + rg_addr (reg m j))"
  using assms(2)
proof (induction j)
  case 0
  then show ?case by (auto dest!: chain_bounds)
next
  case (Suc j)
  show ?case
  proof (cases "i = Suc j")
    case False
    note st = chain_step [OF assms(1) Suc.prems False]
    note c = contiguous_facts [OF st(2-4)]
    from Suc.IH [OF st(1)] c show ?thesis by auto
  qed simp
qed

section \<open>Locating an address\<close>

lemma disjoint_nth:
  assumes "regions_disjoint m" "i < j" "j < length m"
  shows "reg_end (reg m i) \<le> rg_addr (reg m j)"
  using assms by (simp add: regions_disjoint_def sorted_wrt_iff_nth_less)

lemma lower_bound_locate:
  assumes "regions_inv m" "regions_disjoint m" "k < length m" "a \<in> region_bytes (reg m k)"
  shows "lower_bound fst m a = (if a = rg_addr (reg m k) then k else Suc k)"
proof (rule lower_bound_eqI)
  have key: "fst (m ! j) = rg_addr (reg m j)" if "j < length m" for j
    using regions_inv_nth [OF assms(1) that] by (simp add: region_ok_def)
  have in_k: "rg_addr (reg m k) \<le> a" "a < reg_end (reg m k)"
    using assms(4) by (simp_all add: region_bytes_def)
  show "(if a = rg_addr (reg m k) then k else Suc k) \<le> length m" using assms(3) by simp
  show "fst (m ! j) < a" if "j < (if a = rg_addr (reg m k) then k else Suc k)" for j
  proof (cases "j = k")
    case True
    then show ?thesis using that in_k key [OF assms(3)] by (simp split: if_splits)
  next
    case False
    with that have "j < k" by (simp split: if_splits)
    then have "reg_end (reg m j) \<le> rg_addr (reg m k)" "region_ok (m ! j)"
      using assms by (auto intro: disjoint_nth regions_inv_nth)
    then show ?thesis using in_k by (simp add: region_ok_def)
  qed
  show "a \<le> fst (m ! (if a = rg_addr (reg m k) then k else Suc k))"
    if "(if a = rg_addr (reg m k) then k else Suc k) < length m"
    using that in_k key [OF assms(3)] key [of "Suc k"] disjoint_nth [OF assms(2), of k "Suc k"]
    by (simp split: if_splits)
qed

lemma IsAddrInRegion_bytes:
  "region_ok e \<Longrightarrow> IsAddrInRegion (snd e) a \<longleftrightarrow> a \<in> region_bytes (snd e)"
  by (auto simp: IsAddrInRegion_def region_end region_bytes_def)

lemma FindMemoryRegion_locate:
  assumes "store_inv st" "regions_disjoint (side st sv)" "k < length (side st sv)"
    "a \<in> region_bytes (reg (side st sv) k)"
  shows "FindMemoryRegion st sv a = Inr (reg (side st sv) k)"
proof -
  let ?m = "side st sv"
  note inv = store_inv_side [OF assms(1), of sv]
  note lb = lower_bound_locate [OF inv assms(2-4)]
  have k: "IsAddrInRegion (reg ?m k) a"
    using IsAddrInRegion_bytes regions_inv_nth [OF inv assms(3)] assms(4) by blast
  have "\<not> IsAddrInRegion (reg ?m (Suc k)) a" if "Suc k < length ?m"
    using disjoint_nth [OF assms(2) _ that, of k] assms(4)
    by (simp add: IsAddrInRegion_def region_bytes_def)
  then have n: "\<not> (Suc k \<noteq> length ?m \<and> IsAddrInRegion (reg ?m (Suc k)) a)" using assms(3) by linarith
  have ne: "?m \<noteq> []" "k \<noteq> length ?m" using assms(3) by auto
  show ?thesis
  proof (cases "a = rg_addr (reg ?m k)")
    case True
    with lb have "lower_bound fst ?m a = k" by simp
    then show ?thesis unfolding FindMemoryRegion_def Let_def using k ne by simp
  next
    case False
    with lb have "lower_bound fst ?m a = Suc k" by simp
    then show ?thesis unfolding FindMemoryRegion_def Let_def using k n ne by auto
  qed
qed

section \<open>Access validation\<close>

text \<open>A chain of entries that \<open>CheckRegionsContiguous\<close> links contains the access.\<close>

definition access_chain :: "regions \<Rightarrow> nat \<Rightarrow> nat \<Rightarrow> bool" where
  "access_chain m a n \<longleftrightarrow>
     (\<exists>i j. chain m i j \<and> rg_addr (reg m i) \<le> a \<and> a + n \<le> reg_end (reg m j))"

lemma region_contains_ok:
  "region_ok e \<Longrightarrow> region_contains s e' (rg_addr (snd e)) (rg_size (snd e)) \<longleftrightarrow>
     rg_addr (snd e) \<le> s \<and> e' \<le> reg_end (snd e)"
  by (simp add: region_contains_def region_end)

lemma merged_contains:
  assumes "regions_inv m" "chain m i j"
  shows "region_contains s e (rg_addr (reg m i))
           (sub64 (add64 (rg_addr (reg m j)) (rg_size (reg m j))) (rg_addr (reg m i))) \<longleftrightarrow>
         rg_addr (reg m i) \<le> s \<and> e \<le> reg_end (reg m j)"
proof -
  have j: "region_ok (m ! j)" using assms chain_bounds by (blast intro: regions_inv_nth)
  then have b: "reg_end (reg m j) < 2 ^ 64" by (simp add: region_ok_def)
  moreover have "rg_addr (reg m i) \<le> reg_end (reg m j)"
    using chain_translate [OF assms] by simp
  ultimately show ?thesis
    by (simp add: region_contains_def region_end [OF j] sub64_id add64_id)
qed

lemma CheckMergedRegionsAccess_iff:
  assumes "regions_inv m" "it < length m"
  shows "CheckMergedRegionsAccess m s e it \<longleftrightarrow>
    (let i = merge_backward m it; j = merge_forward m it in
     i \<noteq> j \<and> chain m i j \<and> rg_addr (reg m i) \<le> s \<and> e \<le> reg_end (reg m j))"
proof -
  let ?i = "merge_backward m it" and ?j = "merge_forward m it"
  have b: "chain m ?i it" and f: "chain m it ?j"
    using assms merge_backward_chain merge_forward_chain by blast+
  have "CheckRegionsContiguous (reg m k) (reg m (Suc k))" if "?i \<le> k" "k < ?j" for k
    using that b f unfolding chain_def by (cases "k < it") auto
  then have c: "chain m ?i ?j" using chain_bounds [OF b] chain_bounds [OF f] by (simp add: chain_def)
  then have "?j \<noteq> length m" using chain_bounds [OF c] by simp
  then show ?thesis using c merged_contains [OF assms(1) c]
    by (simp add: CheckMergedRegionsAccess_def Let_def)
qed

lemma CheckMemoryForAccess_sound:
  assumes "store_inv st" "a \<noteq> 0" "CheckMemoryForAccess st sv a n"
  shows "n \<noteq> 0 \<and> a + n < 2 ^ 64 \<and> access_chain (side st sv) a n"
proof -
  define m where "m = side st sv"
  define it where "it = lower_bound fst m a"
  have inv: "regions_inv m" using assms(1) by (simp add: m_def store_inv_side)
  have it: "it \<le> length m" by (simp add: it_def)
  have n: "n \<noteq> 0" "\<not> n > UINT64_MAX - a" and
    c: "it \<noteq> length m \<and> region_contains a (a + n) (rg_addr (reg m it)) (rg_size (reg m it)) \<or>
        it \<noteq> 0 \<and> region_contains a (a + n) (rg_addr (reg m (it - 1))) (rg_size (reg m (it - 1))) \<or>
        it \<noteq> length m \<and> CheckMergedRegionsAccess m a (a + n) it"
    using assms(2,3) unfolding CheckMemoryForAccess_def m_def [symmetric] it_def
    by (simp_all add: Let_def split: if_splits)
  have single: "access_chain m a n"
    if "k < length m" "region_contains a (a + n) (rg_addr (reg m k)) (rg_size (reg m k))" for k
    using that region_contains_ok [OF regions_inv_nth [OF inv that(1)]] chain_single [OF that(1)]
    unfolding access_chain_def by blast
  from c have g: "access_chain m a n"
  proof (elim disjE conjE)
    assume "it \<noteq> length m" "CheckMergedRegionsAccess m a (a + n) it"
    moreover from this have "it < length m" using it by simp
    ultimately show ?thesis using CheckMergedRegionsAccess_iff [OF inv]
      unfolding access_chain_def Let_def by blast
  qed (use single [of it] single [of "it - 1"] it in auto)
  then obtain i j where "chain m i j" "a + n \<le> reg_end (reg m j)" by (auto simp: access_chain_def)
  then have "a + n < 2 ^ 64"
    using regions_inv_nth [OF inv, of j] chain_bounds [of m i j] by (simp add: region_ok_def)
  then show ?thesis using g n by (simp add: m_def)
qed

lemma merged_complete:
  assumes "regions_inv m" "regions_disjoint m" "chain m i j" "i \<le> it" "it \<le> j" "i \<noteq> j"
    "rg_addr (reg m i) \<le> s" "e \<le> reg_end (reg m j)"
  shows "CheckMergedRegionsAccess m s e it"
proof -
  let ?i = "merge_backward m it" and ?j = "merge_forward m it"
  have it: "it < length m" using assms chain_bounds by fastforce
  have "chain m i it" "chain m it j" using assms by (auto intro: chain_sub)
  then have le: "?i \<le> i" "j \<le> ?j" using merge_backward_least merge_forward_greatest by blast+
  have b: "chain m ?i it" and f: "chain m it ?j"
    using it merge_backward_chain merge_forward_chain by blast+
  have c: "chain m ?i ?j"
    using b f chain_bounds [OF b] chain_bounds [OF f] unfolding chain_def by (metis le_less_trans not_le order_trans)
  have "rg_addr (reg m ?i) \<le> rg_addr (reg m i)"
    using chain_translate [OF assms(1) chain_sub [OF b order_refl le(1)]] assms(4) by simp
  moreover have "reg_end (reg m j) \<le> reg_end (reg m ?j)"
  proof (cases "j = ?j")
    case False
    with le(2) have "j < ?j" by simp
    then have "reg_end (reg m j) \<le> rg_addr (reg m ?j)"
      by (rule disjoint_nth [OF assms(2)]) (use chain_bounds [OF f] in simp)
    then show ?thesis by simp
  qed simp
  moreover have "?i \<noteq> ?j" using le assms(4-6) by linarith
  ultimately show ?thesis
    using c assms(7,8) unfolding CheckMergedRegionsAccess_iff [OF assms(1) it] Let_def by linarith
qed

lemma CheckMemoryForAccess_complete:
  assumes "store_inv st" "regions_disjoint (side st sv)" "n \<noteq> 0" "access_chain (side st sv) a n"
  shows "CheckMemoryForAccess st sv a n"
proof -
  define m where "m = side st sv"
  define it where "it = lower_bound fst m a"
  have inv: "regions_inv m" and dis: "regions_disjoint m" using assms(1,2) by (simp_all add: m_def store_inv_side)
  obtain i j where ch: "chain m i j" "rg_addr (reg m i) \<le> a" "a + n \<le> reg_end (reg m j)"
    using assms(4) unfolding access_chain_def m_def by blast
  then obtain k where k: "i \<le> k" "k \<le> j" "a \<in> region_bytes (reg m k)"
    using chain_cover [OF inv ch(1,2)] assms(3) by fastforce
  have j: "j < length m" "region_ok (m ! j)" using chain_bounds [OF ch(1)] inv by (auto intro: regions_inv_nth)
  then have kl: "k < length m" "region_ok (m ! k)" using k inv by (auto intro: regions_inv_nth)
  have it: "it = (if a = rg_addr (reg m k) then k else Suc k)"
    unfolding it_def by (rule lower_bound_locate [OF inv dis kl(1) k(3)])
  have no: "m \<noteq> []" "\<not> n > UINT64_MAX - a" using kl j ch(3) by (auto simp: region_ok_def)
  have "it \<noteq> length m \<and> region_contains a (a + n) (rg_addr (reg m it)) (rg_size (reg m it)) \<or>
        it \<noteq> 0 \<and> region_contains a (a + n) (rg_addr (reg m (it - 1))) (rg_size (reg m (it - 1))) \<or>
        it \<noteq> length m \<and> CheckMergedRegionsAccess m a (a + n) it"
  proof (cases "a + n \<le> reg_end (reg m k)")
    case True
    then have "region_contains a (a + n) (rg_addr (reg m k)) (rg_size (reg m k))"
      using region_contains_ok [OF kl(2)] k(3) by (simp add: region_bytes_def)
    then show ?thesis using it kl(1) by (cases "a = rg_addr (reg m k)") simp_all
  next
    case False
    then have "k \<noteq> j" using ch(3) by blast
    then have "i \<le> it" "it \<le> j" "i \<noteq> j" using k it by auto
    then show ?thesis using merged_complete [OF inv dis ch(1) _ _ _ ch(2,3)] j(1) by simp
  qed
  then show ?thesis
    using assms(3) no unfolding CheckMemoryForAccess_def m_def [symmetric] Let_def it_def by (simp only: if_False) auto
qed

text \<open>
  What an access needs, without the code's checks: consecutive regions, each starting where the one
  before ends, of the same memory kind, and either all unmapped or mapped to consecutive device
  addresses.
\<close>

definition continues :: "MemoryRegion \<Rightarrow> MemoryRegion \<Rightarrow> bool" where
  "continues r r' \<longleftrightarrow> rg_addr r' = rg_addr r + rg_size r \<and> rg_is_host_mem r' = rg_is_host_mem r \<and>
     (if rg_register_dev_addr r = 0 then rg_register_dev_addr r' = 0
      else rg_register_dev_addr r' = rg_register_dev_addr r + rg_size r)"

definition access_granted :: "regions \<Rightarrow> nat \<Rightarrow> nat \<Rightarrow> bool" where
  "access_granted m a n \<longleftrightarrow>
     (\<exists>i j. i \<le> j \<and> j < length m \<and> (\<forall>k. i \<le> k \<and> k < j \<longrightarrow> continues (reg m k) (reg m (Suc k))) \<and>
        rg_addr (reg m i) \<le> a \<and> a + n \<le> reg_end (reg m j))"

lemma CheckRegionsContiguous_continues:
  assumes "region_ok e" "region_ok f"
  shows "CheckRegionsContiguous (snd e) (snd f) \<longleftrightarrow> continues (snd e) (snd f)"
  using assms region_end [OF assms(1)]
  by (cases "rg_register_dev_addr (snd e) = 0")
     (auto simp: CheckRegionsContiguous_def continues_def Let_def region_ok_def add64_id)

lemma access_granted_chain:
  assumes "regions_inv m"
  shows "access_granted m a n \<longleftrightarrow> access_chain m a n"
proof -
  have "(\<forall>k. i \<le> k \<and> k < j \<longrightarrow> continues (reg m k) (reg m (Suc k))) \<longleftrightarrow>
        (\<forall>k. i \<le> k \<and> k < j \<longrightarrow> CheckRegionsContiguous (reg m k) (reg m (Suc k)))"
    if "j < length m" for i j
    using CheckRegionsContiguous_continues regions_inv_nth [OF assms] that
    by (metis Suc_leI Suc_lessD le_less_trans)
  then show ?thesis unfolding access_granted_def access_chain_def chain_def by blast
qed

section \<open>Registration guard\<close>

lemma overlaps_bytes:
  assumes "region_ok e" "n \<noteq> 0"
  shows "overlaps sv a (a + n) (snd e) \<longleftrightarrow>
    region_bytes (snd e) \<inter> {a ..< a + n} \<noteq> {} \<and> (sv \<longrightarrow> region_bytes (snd e) \<noteq> {a ..< a + n})"
proof -
  have "(a < reg_end (snd e) \<and> rg_addr (snd e) < a + n) \<longleftrightarrow> region_bytes (snd e) \<inter> {a ..< a + n} \<noteq> {}"
    using assms by (auto simp: region_bytes_def region_ok_def)
  moreover have "(a = rg_addr (snd e) \<and> a + n = reg_end (snd e)) \<longleftrightarrow> region_bytes (snd e) = {a ..< a + n}"
    using assms atLeastLessThan_eq_iff [of "rg_addr (snd e)" "reg_end (snd e)" a "a + n"]
    unfolding region_bytes_def region_ok_def by (metis less_add_same_cancel1 not_gr_zero)
  moreover have "\<not> AddOverflow (rg_addr (snd e)) (rg_size (snd e))"
    using assms(1) by (simp add: not_AddOverflow region_ok_def)
  ultimately show ?thesis by (auto simp: overlaps_def Let_def)
qed

lemma overlaps_near:
  assumes "regions_inv m" "regions_disjoint m" "k < length m" "overlaps sv a (a + n) (reg m k)"
  defines "it \<equiv> lower_bound fst m a"
  shows "it \<noteq> length m \<and> overlaps sv a (a + n) (reg m it) \<or>
         it \<noteq> 0 \<and> overlaps sv a (a + n) (reg m (it - 1))"
proof -
  have it: "it \<le> length m" by (simp add: it_def)
  have k: "a < reg_end (reg m k)" "rg_addr (reg m k) < a + n"
    using assms(4) regions_inv_nth [OF assms(1,3)]
    by (auto simp: overlaps_def Let_def AddOverflow_def region_ok_def split: if_splits)
  consider "k = it" | "Suc k = it" | "k < it - 1" "it \<noteq> 0" | "it < k" by linarith
  then show ?thesis
  proof cases
    case 2
    then have "it - 1 = k" "it \<noteq> 0" by auto
    then show ?thesis using assms(4) by simp
  next
    case 3
    have "fst (m ! (it - 1)) < a" using 3 nth_before_lower_bound [of "it - 1" fst m a] by (simp add: it_def)
    moreover have "fst (m ! (it - 1)) = rg_addr (reg m (it - 1))"
      using regions_inv_nth [OF assms(1), of "it - 1"] it 3 by (simp add: region_ok_def)
    moreover have "reg_end (reg m k) \<le> rg_addr (reg m (it - 1))"
      using disjoint_nth [OF assms(2) 3(1)] it 3 by simp
    ultimately show ?thesis using k by linarith
  next
    case 4
    then have il: "it < length m" using assms(3) by simp
    have ok: "region_ok (m ! it)" by (rule regions_inv_nth [OF assms(1) il])
    have "a \<le> rg_addr (reg m it)" using nth_lower_bound [of fst m a] il ok by (simp add: it_def region_ok_def)
    moreover have "reg_end (reg m it) \<le> rg_addr (reg m k)" by (rule disjoint_nth [OF assms(2) 4 assms(3)])
    ultimately show ?thesis using il ok k by (simp add: overlaps_def Let_def AddOverflow_def region_ok_def)
  qed (use assms(3,4) in auto)
qed

lemma CheckMemoryForRegister_iff:
  assumes "store_inv st" "regions_disjoint (side st sv)"
  shows "CheckMemoryForRegister st sv a n \<longleftrightarrow>
    a = 0 \<or> n = 0 \<or> 2 ^ 64 \<le> a + n \<or>
    (\<exists>e \<in> set (side st sv). region_bytes (snd e) \<inter> {a ..< a + n} \<noteq> {} \<and>
        (sv \<longrightarrow> region_bytes (snd e) \<noteq> {a ..< a + n}))"
proof (cases "a = 0 \<or> n = 0 \<or> AddOverflow a n")
  case True
  then show ?thesis by (auto simp: CheckMemoryForRegister_def Let_def AddOverflow_def)
next
  case False
  define m where "m = side st sv"
  define it where "it = lower_bound fst m a"
  have inv: "regions_inv m" and dis: "regions_disjoint m" using assms by (simp_all add: m_def store_inv_side)
  have it: "it \<le> length m" by (simp add: it_def)
  have "CheckMemoryForRegister st sv a n \<longleftrightarrow>
      it \<noteq> length m \<and> overlaps sv a (a + n) (reg m it) \<or>
      it \<noteq> 0 \<and> overlaps sv a (a + n) (reg m (it - 1))"
    using False unfolding CheckMemoryForRegister_def m_def [symmetric] Let_def it_def
    by (auto simp: lower_bound_def)
  also have "\<dots> \<longleftrightarrow> (\<exists>k < length m. overlaps sv a (a + n) (reg m k))"
  proof
    assume "\<exists>k < length m. overlaps sv a (a + n) (reg m k)"
    then show "it \<noteq> length m \<and> overlaps sv a (a + n) (reg m it) \<or>
      it \<noteq> 0 \<and> overlaps sv a (a + n) (reg m (it - 1))"
      unfolding it_def using overlaps_near [OF inv dis] by blast
  next
    assume "it \<noteq> length m \<and> overlaps sv a (a + n) (reg m it) \<or>
      it \<noteq> 0 \<and> overlaps sv a (a + n) (reg m (it - 1))"
    moreover have "it \<noteq> length m \<Longrightarrow> it < length m" "it \<noteq> 0 \<Longrightarrow> it - 1 < length m" using it by auto
    ultimately show "\<exists>k < length m. overlaps sv a (a + n) (reg m k)" by blast
  qed
  also have "\<dots> \<longleftrightarrow> (\<exists>e \<in> set m. overlaps sv a (a + n) (snd e))"
    by (metis in_set_conv_nth)
  also have "\<dots> \<longleftrightarrow> (\<exists>e \<in> set m. region_bytes (snd e) \<inter> {a ..< a + n} \<noteq> {} \<and>
        (sv \<longrightarrow> region_bytes (snd e) \<noteq> {a ..< a + n}))"
    using overlaps_bytes False inv by (auto simp: regions_inv_def)
  finally show ?thesis using False by (simp add: m_def AddOverflow_def)
qed

lemma Record_disjoint:
  assumes "store_inv st" "regions_disjoint (side st sv)" "\<not> CheckMemoryForRegister st sv a n"
  shows "regions_disjoint (side (snd (RecordMemory st sv a n h dev)) sv)"
proof -
  define m where "m = side st sv"
  define r where "r = \<lparr>rg_addr = a, rg_size = n, rg_is_host_mem = h, rg_register_dev_addr = dev\<rparr>"
  have inv: "regions_inv m" "regions_disjoint m" using assms by (simp_all add: m_def store_inv_side)
  have n: "n \<noteq> 0" using assms(3) by (simp add: CheckMemoryForRegister_def Let_def split: if_splits)
  have free: "\<And>e. e \<in> set m \<Longrightarrow> sv \<and> region_bytes (snd e) = {a ..< a + n} \<or>
      region_bytes (snd e) \<inter> {a ..< a + n} = {}"
    using assms(3) unfolding CheckMemoryForRegister_iff [OF assms(1,2)] m_def by blast
  have apart: "reg_end (snd e) \<le> a \<or> a + n \<le> rg_addr (snd e)" if "map_of m a = None" "e \<in> set m" for e
  proof -
    have ok: "region_ok e" and "fst e \<noteq> a"
      using inv(1) that by (auto simp: regions_inv_def map_of_eq_None_iff)
    then have "region_bytes (snd e) \<noteq> {a ..< a + n}"
      using n by (auto simp: region_bytes_def region_ok_def atLeastLessThan_eq_iff)
    with free [OF that(2)] ok n show ?thesis by (auto simp: region_bytes_def region_ok_def ivl_disj_int)
  qed
  have "regions_disjoint (map_insert a r m)" if new: "map_of m a = None"
    unfolding regions_disjoint_def map_insert_def
  proof (rule sorted_wrt_insert_at)
    show "sorted_wrt (\<lambda>e f. reg_end (snd e) \<le> rg_addr (snd f)) m" using inv by (simp add: regions_disjoint_def)
    show "\<forall>e \<in> set (take (lower_bound fst m a) m). reg_end (snd e) \<le> rg_addr (snd (a, r))"
    proof
      fix e assume e: "e \<in> set (take (lower_bound fst m a) m)"
      then have "fst e < a" "e \<in> set m" by (auto dest: takeWhile_before_lower in_set_takeD)
      then show "reg_end (snd e) \<le> rg_addr (snd (a, r))"
        using apart [OF new] inv(1) by (fastforce simp: regions_inv_def region_ok_def r_def)
    qed
    show "\<forall>e \<in> set (drop (lower_bound fst m a) m). reg_end (snd (a, r)) \<le> rg_addr (snd e)"
    proof
      fix e assume e: "e \<in> set (drop (lower_bound fst m a) m)"
      then have "a \<le> fst e" "e \<in> set m"
        using after_lower_bound [OF strict_keys_sorted e] inv(1) by (auto simp: regions_inv_def dest: in_set_dropD)
      then show "reg_end (snd (a, r)) \<le> rg_addr (snd e)"
        using apart [OF new] inv(1) by (fastforce simp: regions_inv_def region_ok_def r_def)
    qed
  qed
  then show ?thesis using inv(2)
    by (cases sv) (auto simp: RecordMemory_def side_def m_def r_def Let_def)
qed

lemma Unrecord_disjoint:
  "regions_disjoint (side st sv) \<Longrightarrow> regions_disjoint (side (snd (UnrecordMemory st sv' a)) sv)"
  by (auto simp: UnrecordMemory_def side_def regions_disjoint_def map_erase_def sorted_wrt_filter)

section \<open>Conversion of host addresses\<close>

text \<open>
  The device address of a registered byte: host memory is reached through the address its region
  is mapped to, device memory directly.
\<close>

definition device_view :: "regions \<Rightarrow> nat \<Rightarrow> nat \<Rightarrow> bool" where
  "device_view m p q \<longleftrightarrow> (\<exists>e \<in> set m. p \<in> region_bytes (snd e) \<and>
     q = (if rg_is_host_mem (snd e) then rg_register_dev_addr (snd e) + (p - rg_addr (snd e)) else p))"

definition host_mapped :: "regions \<Rightarrow> bool" where
  "host_mapped m \<longleftrightarrow> (\<forall>e \<in> set m. rg_is_host_mem (snd e) \<longrightarrow> rg_register_dev_addr (snd e) \<noteq> 0)"

definition converted_addr :: "MemoryRegion \<Rightarrow> nat \<Rightarrow> nat" where
  "converted_addr r a =
     (if rg_is_host_mem r then add64 (rg_register_dev_addr r) (sub64 a (rg_addr r)) else a)"

lemma convert_side:
  assumes "store_inv st" "regions_disjoint (side st sv)" "host_mapped (side st sv)" "a \<noteq> 0"
    "CheckMemoryForAccess st sv a n"
  obtains r where "FindMemoryRegion st sv a = Inr r" "rg_is_host_mem r \<longrightarrow> rg_register_dev_addr r \<noteq> 0"
    "\<forall>i < n. device_view (side st sv) (a + i) (converted_addr r a + i)"
proof -
  define m where "m = side st sv"
  have inv: "regions_inv m" "host_mapped m" using assms by (simp_all add: m_def store_inv_side)
  have n: "n \<noteq> 0" and "access_chain m a n"
    using CheckMemoryForAccess_sound [OF assms(1,4,5)] by (auto simp: m_def)
  then obtain i j where ch: "chain m i j" "rg_addr (reg m i) \<le> a" "a + n \<le> reg_end (reg m j)"
    by (auto simp: access_chain_def)
  then obtain k where k: "i \<le> k" "k \<le> j" "a \<in> region_bytes (reg m k)"
    using chain_cover [OF inv(1) ch(1,2)] n by fastforce
  have kl: "k < length m" "j < length m" using k chain_bounds [OF ch(1)] by auto
  note okk = regions_inv_nth [OF inv(1) kl(1)]
  have mapped: "rg_register_dev_addr (reg m q) \<noteq> 0" if "rg_is_host_mem (reg m q)" "q < length m" for q
    using inv(2) that by (auto simp: host_mapped_def)
  have conv: "converted_addr (reg m k) a =
      (if rg_is_host_mem (reg m k) then rg_register_dev_addr (reg m k) + (a - rg_addr (reg m k)) else a)"
  proof (cases "rg_is_host_mem (reg m k)")
    case True
    then have "rg_register_dev_addr (reg m k) + (a - rg_addr (reg m k)) < 2 ^ 64" "a < 2 ^ 64"
      using k(3) okk mapped [OF _ kl(1)] by (auto simp: region_bytes_def region_ok_def)
    then show ?thesis using k(3) True by (simp add: converted_addr_def sub64_id add64_id region_bytes_def)
  qed (simp add: converted_addr_def)
  have view: "device_view m (a + x) (converted_addr (reg m k) a + x)" if xn: "x < n" for x
  proof -
    obtain q where q: "k \<le> q" "q \<le> j" "a + x \<in> region_bytes (reg m q)"
      using chain_cover [OF inv(1) chain_sub [OF ch(1) k(1,2) order_refl], of "a + x"] ch(3) k(3) xn
      by (auto simp: region_bytes_def)
    have ck: "chain m k q" by (rule chain_sub [OF ch(1) k(1) q(1,2)])
    have "m ! q \<in> set m" using q kl by simp
    moreover have "converted_addr (reg m k) a + x =
      (if rg_is_host_mem (reg m q) then rg_register_dev_addr (reg m q) + (a + x - rg_addr (reg m q)) else a + x)"
      using chain_translate [OF inv(1) ck] k(3) q(3) mapped [OF _ kl(1)] unfolding conv
      by (auto simp: region_bytes_def)
    ultimately show ?thesis using q(3) unfolding device_view_def by blast
  qed
  show thesis
  proof (rule that)
    show "FindMemoryRegion st sv a = Inr (reg m k)"
      unfolding m_def using assms(1,2) kl(1) k(3) unfolding m_def by (rule FindMemoryRegion_locate)
    show "rg_is_host_mem (reg m k) \<longrightarrow> rg_register_dev_addr (reg m k) \<noteq> 0" using mapped kl(1) by blast
  qed (use view in \<open>simp add: m_def\<close>)
qed

definition converted :: "HixlMemStore \<Rightarrow> HixlOneSideOpDesc \<Rightarrow> HixlOneSideOpDesc \<Rightarrow> bool" where
  "converted st d d' \<longleftrightarrow> op_len d' = op_len d \<and>
     (\<forall>i < op_len d.
        device_view (server_regions st) (remote_buf d + i) (remote_buf d' + i) \<and>
        device_view (client_regions st) (local_buf d + i) (local_buf d' + i))"

lemma ConvertHostAddr_found:
  assumes "FindMemoryRegion st True (remote_buf d) = Inr rr" "rg_is_host_mem rr \<longrightarrow> rg_register_dev_addr rr \<noteq> 0"
    "FindMemoryRegion st False (local_buf d) = Inr lr" "rg_is_host_mem lr \<longrightarrow> rg_register_dev_addr lr \<noteq> 0"
  obtains lc' rc' where "ConvertHostAddr st d lc rc =
    (SUCCESS, d\<lparr>remote_buf := converted_addr rr (remote_buf d), local_buf := converted_addr lr (local_buf d)\<rparr>, lc', rc')"
  using assms by (cases "rg_is_host_mem rr"; cases "rg_is_host_mem lr")
    (auto simp: ConvertHostAddr_def Let_def converted_addr_def)

lemma ConvertHostAddr_correct:
  assumes "store_inv st" "regions_disjoint (server_regions st)" "regions_disjoint (client_regions st)"
    "host_mapped (server_regions st)" "host_mapped (client_regions st)"
    "remote_buf d \<noteq> 0" "local_buf d \<noteq> 0"
    "CheckMemoryForAccess st True (remote_buf d) (op_len d)"
    "CheckMemoryForAccess st False (local_buf d) (op_len d)"
  obtains d' lc' rc' where "ConvertHostAddr st d lc rc = (SUCCESS, d', lc', rc')" "converted st d d'"
proof -
  obtain rr where rr: "FindMemoryRegion st True (remote_buf d) = Inr rr"
      "rg_is_host_mem rr \<longrightarrow> rg_register_dev_addr rr \<noteq> 0"
      "\<forall>i < op_len d. device_view (server_regions st) (remote_buf d + i) (converted_addr rr (remote_buf d) + i)"
    using convert_side [of st True "remote_buf d" "op_len d"] assms by (auto simp: side_def)
  obtain lr where lr: "FindMemoryRegion st False (local_buf d) = Inr lr"
      "rg_is_host_mem lr \<longrightarrow> rg_register_dev_addr lr \<noteq> 0"
      "\<forall>i < op_len d. device_view (client_regions st) (local_buf d + i) (converted_addr lr (local_buf d) + i)"
    using convert_side [of st False "local_buf d" "op_len d"] assms by (auto simp: side_def)
  obtain lc' rc' where c: "ConvertHostAddr st d lc rc =
    (SUCCESS, d\<lparr>remote_buf := converted_addr rr (remote_buf d), local_buf := converted_addr lr (local_buf d)\<rparr>, lc', rc')"
    by (rule ConvertHostAddr_found [OF rr(1,2) lr(1,2)])
  show thesis by (rule that [OF c]) (use rr(3) lr(3) in \<open>simp add: converted_def\<close>)
qed

lemma BatchValidate_Cons:
  "BatchValidateMemoryAccess st (d # ds) True = SUCCESS \<Longrightarrow>
   remote_buf d \<noteq> 0 \<and> local_buf d \<noteq> 0 \<and> op_len d \<noteq> 0 \<and>
   CheckMemoryForAccess st True (remote_buf d) (op_len d) \<and>
   CheckMemoryForAccess st False (local_buf d) (op_len d) \<and>
   BatchValidateMemoryAccess st ds True = SUCCESS"
  by (auto split: if_splits)

lemma BatchConvert_loop_correct:
  assumes "store_inv st" "regions_disjoint (server_regions st)" "regions_disjoint (client_regions st)"
    "host_mapped (server_regions st)" "host_mapped (client_regions st)"
  shows "BatchValidateMemoryAccess st ds True = SUCCESS \<Longrightarrow>
    \<exists>ds'. BatchConvertHostAddr_loop st ds lc rc = (SUCCESS, ds') \<and> list_all2 (converted st) ds ds'"
proof (induction ds arbitrary: lc rc)
  case (Cons d ds)
  note v = BatchValidate_Cons [OF Cons.prems]
  obtain d' lc' rc' where d': "ConvertHostAddr st d lc rc = (SUCCESS, d', lc', rc')" "converted st d d'"
    using ConvertHostAddr_correct [OF assms, of d] v by blast
  obtain ds' where "BatchConvertHostAddr_loop st ds lc' rc' = (SUCCESS, ds')" "list_all2 (converted st) ds ds'"
    using Cons.IH v by blast
  with d' show ?case by simp
qed simp

section \<open>Properties\<close>

text \<open>C7: on a well-formed store with pairwise disjoint regions, \<open>CheckMemoryForAccess\<close> grants a
  non-null address exactly when the length is positive and a run of contiguous registered regions
  of the same kind and mapping contains the whole range; the search from \<open>lower_bound\<close> misses none.\<close>

theorem CheckMemoryForAccess_exact:
  assumes "store_inv st" "regions_disjoint (side st is_server)" "a \<noteq> 0"
  shows "CheckMemoryForAccess st is_server a n \<longleftrightarrow> n \<noteq> 0 \<and> access_granted (side st is_server) a n"
  unfolding access_granted_chain [OF store_inv_side [OF assms(1)]]
  using CheckMemoryForAccess_sound [OF assms(1,3)] CheckMemoryForAccess_complete [OF assms(1,2)] by blast

definition demo_store :: HixlMemStore where
  "demo_store =
     (let st0 = \<lparr>server_regions = [], client_regions = []\<rparr>;
          st1 = snd (RecordMemory st0 True 4096 256 True 8192);
          st2 = snd (RecordMemory st1 True 4352 256 True 8448);
          st3 = snd (RecordMemory st2 False 100 50 False 0)
      in st3)"

lemma demo_store_eq:
  "demo_store =
    \<lparr>server_regions =
       [(4096, \<lparr>rg_addr = 4096, rg_size = 256, rg_is_host_mem = True, rg_register_dev_addr = 8192\<rparr>),
        (4352, \<lparr>rg_addr = 4352, rg_size = 256, rg_is_host_mem = True, rg_register_dev_addr = 8448\<rparr>)],
     client_regions =
       [(100, \<lparr>rg_addr = 100, rg_size = 50, rg_is_host_mem = False, rg_register_dev_addr = 0\<rparr>)]\<rparr>"
  by (simp add: demo_store_def RecordMemory_def Let_def AddOverflow_def map_insert_def insert_at_def lower_bound_def)

lemma demo_store_inv: "store_inv demo_store"
  by (simp add: demo_store_eq store_inv_def regions_inv_def region_ok_def)

lemma demo_store_disjoint:
  "regions_disjoint (server_regions demo_store)" "regions_disjoint (client_regions demo_store)"
  by (simp_all add: demo_store_eq regions_disjoint_def)

lemma demo_store_mapped:
  "host_mapped (server_regions demo_store)" "host_mapped (client_regions demo_store)"
  by (simp_all add: demo_store_eq host_mapped_def)

lemma demo_access: "access_chain (server_regions demo_store) 4300 40" "access_chain (server_regions demo_store) 4300 100"
  unfolding access_chain_def
  by (rule exI [of _ 0], rule exI [of _ 1],
      simp add: demo_store_eq chain_def CheckRegionsContiguous_def Let_def add64_def)+

theorem CheckMemoryForAccess_exact_witness: "CheckMemoryForAccess demo_store True 4300 100"
  using CheckMemoryForAccess_exact [OF demo_store_inv, of True 4300 100] demo_store_disjoint demo_access
    access_granted_chain [OF store_inv_side [OF demo_store_inv, of True]]
  by (simp add: side_def)

text \<open>C26: whatever was registered, in whatever order and overlap, a granted access touches only
  registered bytes and does not wrap around the address space.\<close>

theorem CheckMemoryForAccess_registered:
  assumes "store_inv st" "a \<noteq> 0" "CheckMemoryForAccess st is_server a n"
  shows "a + n < 2 ^ 64 \<and> {a ..< a + n} \<subseteq> (\<Union>e \<in> set (side st is_server). region_bytes (snd e))"
proof
  let ?m = "side st is_server"
  note s = CheckMemoryForAccess_sound [OF assms]
  then show "a + n < 2 ^ 64" by simp
  obtain i j where ch: "chain ?m i j" "rg_addr (reg ?m i) \<le> a" "a + n \<le> reg_end (reg ?m j)"
    using s by (auto simp: access_chain_def)
  show "{a ..< a + n} \<subseteq> (\<Union>e \<in> set ?m. region_bytes (snd e))"
  proof
    fix p assume "p \<in> {a ..< a + n}"
    then obtain k where "k \<le> j" "p \<in> region_bytes (reg ?m k)"
      using chain_cover [OF store_inv_side [OF assms(1)] ch(1), of p] ch by auto
    moreover have "?m ! k \<in> set ?m" using \<open>k \<le> j\<close> chain_bounds [OF ch(1)] by simp
    ultimately show "p \<in> (\<Union>e \<in> set ?m. region_bytes (snd e))" by blast
  qed
qed

lemma demo_check_access: "CheckMemoryForAccess demo_store True 4300 40"
  by (rule CheckMemoryForAccess_complete [OF demo_store_inv])
     (simp_all add: side_def demo_store_disjoint demo_access)

theorem CheckMemoryForAccess_registered_witness:
  "{4300 ..< 4340} \<subseteq> (\<Union>e \<in> set (server_regions demo_store). region_bytes (snd e))"
  using CheckMemoryForAccess_registered [OF demo_store_inv _ demo_check_access]
  by (simp add: side_def)

text \<open>C27: registration guarded by \<open>CheckMemoryForRegister\<close>. The check refuses exactly the null,
  empty and overflowing ranges and those that meet a registered region (for the server side, other
  than by being equal to it); when it passes, \<open>RecordMemory\<close> keeps the store well formed and its
  regions pairwise disjoint, and a new address maps to the recorded region.\<close>

theorem guarded_RecordMemory:
  assumes "store_inv st" "regions_disjoint (side st is_server)"
  shows "(CheckMemoryForRegister st is_server a n \<longleftrightarrow>
      a = 0 \<or> n = 0 \<or> 2 ^ 64 \<le> a + n \<or>
      (\<exists>e \<in> set (side st is_server). region_bytes (snd e) \<inter> {a ..< a + n} \<noteq> {} \<and>
          (is_server \<longrightarrow> region_bytes (snd e) \<noteq> {a ..< a + n}))) \<and>
    (\<not> CheckMemoryForRegister st is_server a n \<longrightarrow>
      store_inv (snd (RecordMemory st is_server a n h dev)) \<and>
      regions_disjoint (side (snd (RecordMemory st is_server a n h dev)) is_server)) \<and>
    (fst (RecordMemory st is_server a n h dev) = SUCCESS \<and> map_of (side st is_server) a = None \<longrightarrow>
      map_of (side (snd (RecordMemory st is_server a n h dev)) is_server) =
        (map_of (side st is_server))(a \<mapsto> \<lparr>rg_addr = a, rg_size = n, rg_is_host_mem = h, rg_register_dev_addr = dev\<rparr>))"
  by (intro conjI impI, rule CheckMemoryForRegister_iff [OF assms], rule RecordMemory_inv [OF assms(1)],
      erule Record_disjoint [OF assms], elim conjE, erule (1) RecordMemory_map)

lemma demo_register: "\<not> CheckMemoryForRegister demo_store False 150 10"
  by (simp add: CheckMemoryForRegister_def demo_store_eq side_def lower_bound_def overlaps_def Let_def AddOverflow_def)

theorem guarded_RecordMemory_witness:
  "regions_disjoint (side (snd (RecordMemory demo_store False 150 10 False 0)) False)"
  using guarded_RecordMemory [OF demo_store_inv, of False 150 10 False 0] demo_store_disjoint demo_register
  by (simp add: side_def)

text \<open>C8: a batch that passed \<open>BatchValidateMemoryAccess\<close>, on a store whose regions are disjoint
  and whose host regions are mapped, is converted without error, and every byte of every converted
  descriptor is the device view of the byte the caller asked for, also where an access runs over
  several merged regions.\<close>

theorem BatchConvertHostAddr_correct:
  assumes "store_inv st" "regions_disjoint (server_regions st)" "regions_disjoint (client_regions st)"
    and "host_mapped (server_regions st)" "host_mapped (client_regions st)"
    and "BatchValidateMemoryAccess st ds True = SUCCESS"
  shows "\<exists>ds'. BatchConvertHostAddr st ds = (SUCCESS, ds') \<and> list_all2 (converted st) ds ds'"
  unfolding BatchConvertHostAddr_def by (rule BatchConvert_loop_correct [OF assms])

lemma demo_client_access: "CheckMemoryForAccess demo_store False 100 40"
  by (simp add: CheckMemoryForAccess_def demo_store_eq side_def lower_bound_def region_contains_def Let_def add64_def)

theorem BatchConvertHostAddr_correct_witness:
  "\<exists>ds'. BatchConvertHostAddr demo_store [\<lparr>remote_buf = 4300, local_buf = 100, op_len = 40\<rparr>] = (SUCCESS, ds') \<and>
     list_all2 (converted demo_store) [\<lparr>remote_buf = 4300, local_buf = 100, op_len = 40\<rparr>] ds'"
  by (rule BatchConvertHostAddr_correct [OF demo_store_inv demo_store_disjoint demo_store_mapped])
     (simp add: demo_check_access demo_client_access)

text \<open>The null check of a function with a boolean result returns a non-zero status, which reads as true.\<close>

lemma CheckMemoryForAccess_null: "CheckMemoryForAccess st is_server 0 n"
  by (simp add: CheckMemoryForAccess_def)

end
