(* ===== verification/Virtual_Memory.thy ===== *)
theory Virtual_Memory
  imports Hixl_Prelude
begin

text \<open>
  The process-wide pool of virtual addresses (\<open>VirtualMemoryManager\<close> in
  \<open>src/src/hixl/cs/ubmem/ubmem_virtual_memory_manager.cc\<close>) and the SoC category it asks for
  (\<open>SocTypeUtil\<close> in \<open>src/src/hixl/common/soc_type.cc\<close>). The pool hands out runs of 1 GB blocks by
  first fit over a bitmap. The answers of the ACL runtime during one call are a record passed to
  that call. The interface the users of the pool rely on is the locale \<open>va_reserver\<close>, which the
  pool interprets.
\<close>

section \<open>SoC category\<close>

datatype SocType = kGen1 | kGen2 | kDefault

definition StartsWith :: "string \<Rightarrow> string \<Rightarrow> bool" where
  "StartsWith v prefix \<longleftrightarrow> length v \<ge> length prefix \<and> take (length prefix) v = prefix"

definition kSocPrefixes :: "(string \<times> SocType) list" where
  "kSocPrefixes = [(''Ascend910B'', kGen1), (''Ascend910_93'', kGen2)]"

fun GetSocTypeByName_loop :: "string \<Rightarrow> (string \<times> SocType) list \<Rightarrow> SocType" where
  "GetSocTypeByName_loop soc_name [] = kDefault"
| "GetSocTypeByName_loop soc_name (entry # es) =
     (if StartsWith soc_name (fst entry) then snd entry else GetSocTypeByName_loop soc_name es)"

definition GetSocTypeByName :: "string \<Rightarrow> SocType" where
  "GetSocTypeByName soc_name = GetSocTypeByName_loop soc_name kSocPrefixes"

text \<open>\<open>aclrtGetSocName\<close> is the argument; \<open>None\<close> is the null pointer.\<close>

definition GetSocType :: "string option \<Rightarrow> status + SocType" where
  "GetSocType soc_name_cstr =
     (case soc_name_cstr of
        None \<Rightarrow> Inl FAILED
      | Some soc_name \<Rightarrow> if soc_name = [] then Inl FAILED else Inr (GetSocTypeByName soc_name))"

section \<open>State\<close>

definition kBlockSize :: nat where "kBlockSize = 1024 * 1024 * 1024"
definition kDefaultNumBlocks :: nat where "kDefaultNumBlocks = 32 * 1024"
definition kDefaultGlobalVirtualMemorySize :: nat where
  "kDefaultGlobalVirtualMemorySize = kBlockSize * kDefaultNumBlocks"
definition kGlobalVirtualMemoryStartAddr :: nat where
  "kGlobalVirtualMemoryStartAddr = kBlockSize * 1024 * 40"
definition kBytesPerTB :: nat where "kBytesPerTB = 1024 * 1024 * 1024 * 1024"
definition kMaxUbMemStartAddrTB :: nat where "kMaxUbMemStartAddrTB = 1024"

lemmas vmm_const_defs =
  kBlockSize_def kDefaultNumBlocks_def kDefaultGlobalVirtualMemorySize_def
  kGlobalVirtualMemoryStartAddr_def kBytesPerTB_def kMaxUbMemStartAddrTB_def

text \<open>\<open>allocations\<close> maps the address of a reservation to its number of blocks.\<close>

record VirtualMemoryManager =
  bitmap :: "bool list"
  allocations :: "(nat \<times> nat) list"
  initialized :: bool
  global_virtual_memory :: nat
  global_virtual_memory_addr :: nat
  vm_size :: nat
  num_blocks :: nat
  global_start_va :: "nat option"

definition VirtualMemoryManager_init :: VirtualMemoryManager where
  "VirtualMemoryManager_init =
     \<lparr>bitmap = [], allocations = [], initialized = False, global_virtual_memory = 0,
      global_virtual_memory_addr = 0, vm_size = 0, num_blocks = 0, global_start_va = None\<rparr>"

text \<open>
  What the runtime answers while an operation runs: the SoC name, the entry point without UC memory
  (\<open>None\<close> when the symbol is absent) and the common reservation call. Both return an error and the
  address they write.
\<close>

record vmm_env = acl_consts +
  aclrtGetSocName :: "string option"
  aclrtReserveMemAddressNoUCMemory :: "(nat \<Rightarrow> nat \<Rightarrow> aclError \<times> nat) option"
  aclrtReserveMemAddress :: "nat \<Rightarrow> aclError \<times> nat"

section \<open>Operations\<close>

definition SetVirtualMemoryCapacity ::
  "VirtualMemoryManager \<Rightarrow> nat \<Rightarrow> status \<times> VirtualMemoryManager" where
  "SetVirtualMemoryCapacity st capacity_in_tb =
     (let requested = mul64 capacity_in_tb kBytesPerTB in
      if initialized st then (if vm_size st \<noteq> requested then (PARAM_INVALID, st) else (SUCCESS, st))
      else (SUCCESS, st\<lparr>vm_size := requested, num_blocks := requested div kBlockSize\<rparr>))"

definition SetGlobalStartAddress ::
  "VirtualMemoryManager \<Rightarrow> nat \<Rightarrow> status \<times> VirtualMemoryManager" where
  "SetGlobalStartAddress st start_addr_in_tb =
     (if \<not> start_addr_in_tb \<le> kMaxUbMemStartAddrTB then (PARAM_INVALID, st)
      else
        let requested = mul64 start_addr_in_tb kBytesPerTB in
        if initialized st then
          (if (case global_start_va st of None \<Rightarrow> kGlobalVirtualMemoryStartAddr | Some va \<Rightarrow> va) \<noteq> requested
           then (PARAM_INVALID, st) else (SUCCESS, st))
        else (SUCCESS, st\<lparr>global_start_va := Some requested\<rparr>))"

definition ReserveMemAddress :: "'a vmm_env_scheme \<Rightarrow> VirtualMemoryManager \<Rightarrow> nat \<Rightarrow> status + nat" where
  "ReserveMemAddress env st sz =
     (let start_va = (case global_start_va st of None \<Rightarrow> kGlobalVirtualMemoryStartAddr | Some va \<Rightarrow> va);
          reserve = (case aclrtReserveMemAddress env sz of (ret, virtual_address) \<Rightarrow>
            if ret \<noteq> ACL_ERROR_NONE then Inl (acl_ret env ret) else Inr virtual_address)
      in case GetSocType (aclrtGetSocName env) of
           Inl status \<Rightarrow> Inl status
         | Inr soc_type \<Rightarrow>
             (case (if soc_type = kGen2 then aclrtReserveMemAddressNoUCMemory env else None) of
                None \<Rightarrow> reserve
              | Some no_uc \<Rightarrow>
                  (case no_uc sz start_va of (ret, virtual_address) \<Rightarrow>
                     if ret = ACL_ERROR_NONE then Inr virtual_address
                     else if ret \<noteq> ACL_ERROR_RT_FEATURE_NOT_SUPPORT env then Inl FAILED
                     else reserve)))"

definition InitProcess :: "'a vmm_env_scheme \<Rightarrow> VirtualMemoryManager \<Rightarrow> status \<times> VirtualMemoryManager" where
  "InitProcess env st =
     (let st1 = (if vm_size st = 0
                 then st\<lparr>vm_size := kDefaultGlobalVirtualMemorySize, num_blocks := kDefaultNumBlocks\<rparr>
                 else st)
      in case ReserveMemAddress env st1 (vm_size st1) of
           Inl status \<Rightarrow> (status, st1)
         | Inr va \<Rightarrow>
             (SUCCESS, st1\<lparr>global_virtual_memory := va, global_virtual_memory_addr := va,
                           bitmap := replicate (num_blocks st1) False, allocations := [],
                           initialized := True\<rparr>))"

definition VirtualMemoryManager_Initialize ::
  "'a vmm_env_scheme \<Rightarrow> VirtualMemoryManager \<Rightarrow> status \<times> VirtualMemoryManager" where
  "VirtualMemoryManager_Initialize env st = (if \<not> initialized st then InitProcess env st else (SUCCESS, st))"

definition VirtualMemoryManager_Finalize :: "VirtualMemoryManager \<Rightarrow> VirtualMemoryManager" where
  "VirtualMemoryManager_Finalize st =
     (if \<not> initialized st then st
      else
        let st1 = st\<lparr>bitmap := [], allocations := [], initialized := False\<rparr> in
        if global_virtual_memory st \<noteq> 0
        then st1\<lparr>global_virtual_memory := 0, global_virtual_memory_addr := 0\<rparr> else st1)"

text \<open>The scan for a run of free blocks: the remaining bits, the index of the first of them, and the
  two loop variables.\<close>

fun find_free :: "bool list \<Rightarrow> nat \<Rightarrow> nat \<Rightarrow> nat \<Rightarrow> nat \<Rightarrow> nat \<times> nat" where
  "find_free [] i blocks_needed start_block contiguous_free = (start_block, contiguous_free)"
| "find_free (b # bs) i blocks_needed start_block contiguous_free =
     (if \<not> b then
        let start_block' = (if contiguous_free = 0 then i else start_block);
            contiguous_free' = contiguous_free + 1
        in if contiguous_free' \<ge> blocks_needed then (start_block', contiguous_free')
           else find_free bs (i + 1) blocks_needed start_block' contiguous_free'
      else find_free bs (i + 1) blocks_needed start_block 0)"

text \<open>The two loops that write \<open>n\<close> bits from \<open>i\<close> on.\<close>

fun set_blocks :: "bool list \<Rightarrow> nat \<Rightarrow> nat \<Rightarrow> bool \<Rightarrow> bool list" where
  "set_blocks bs i 0 v = bs"
| "set_blocks bs i (Suc n) v = set_blocks (bs[i := v]) (Suc i) n v"

definition ReserveMemory_in :: "VirtualMemoryManager \<Rightarrow> nat \<Rightarrow> (status + nat) \<times> VirtualMemoryManager" where
  "ReserveMemory_in st sz =
     (let blocks_needed = sz div kBlockSize + (if sz mod kBlockSize \<noteq> 0 then 1 else 0) in
      if \<not> blocks_needed \<le> num_blocks st then (Inl RESOURCE_EXHAUSTED, st)
      else
        case find_free (take (num_blocks st) (bitmap st)) 0 blocks_needed 0 0 of
          (start_block, contiguous_free) \<Rightarrow>
            if \<not> contiguous_free \<ge> blocks_needed then (Inl RESOURCE_EXHAUSTED, st)
            else
              let mem_addr = add64 (global_virtual_memory_addr st) (mul64 start_block kBlockSize) in
              (Inr mem_addr,
               st\<lparr>bitmap := set_blocks (bitmap st) start_block blocks_needed True,
                  allocations := map_assign mem_addr blocks_needed (allocations st)\<rparr>))"

definition ReserveMemory ::
  "'a vmm_env_scheme \<Rightarrow> VirtualMemoryManager \<Rightarrow> nat \<Rightarrow> (status + nat) \<times> VirtualMemoryManager" where
  "ReserveMemory env st sz =
     (if \<not> sz > 0 then (Inl PARAM_INVALID, st)
      else
        case (if \<not> initialized st then InitProcess env st else (SUCCESS, st)) of
          (status, st1) \<Rightarrow> if status \<noteq> SUCCESS then (Inl status, st1) else ReserveMemory_in st1 sz)"

definition ReleaseMemory :: "VirtualMemoryManager \<Rightarrow> nat \<Rightarrow> status \<times> VirtualMemoryManager" where
  "ReleaseMemory st mem_addr =
     (if \<not> initialized st then (PARAM_INVALID, st)
      else if \<not> (mem_addr \<ge> global_virtual_memory_addr st \<and>
                 mem_addr < add64 (global_virtual_memory_addr st) (vm_size st)) then (PARAM_INVALID, st)
      else if sub64 mem_addr (global_virtual_memory_addr st) mod kBlockSize \<noteq> 0 then (PARAM_INVALID, st)
      else
        case map_of (allocations st) mem_addr of
          None \<Rightarrow> (PARAM_INVALID, st)
        | Some n \<Rightarrow>
            let block_index = sub64 mem_addr (global_virtual_memory_addr st) div kBlockSize in
            (SUCCESS, st\<lparr>bitmap := set_blocks (bitmap st) block_index n False,
                         allocations := map_erase mem_addr (allocations st)\<rparr>))"

section \<open>First fit\<close>

definition free_run :: "bool list \<Rightarrow> nat \<Rightarrow> nat \<Rightarrow> bool" where
  "free_run bs j n \<longleftrightarrow> j + n \<le> length bs \<and> (\<forall>k. j \<le> k \<and> k < j + n \<longrightarrow> \<not> bs ! k)"

definition first_free_run :: "bool list \<Rightarrow> nat \<Rightarrow> nat \<Rightarrow> bool" where
  "first_free_run bs j n \<longleftrightarrow> free_run bs j n \<and> (\<forall>j'. free_run bs j' n \<longrightarrow> j \<le> j')"

text \<open>The loop invariant: the \<open>c\<close> bits before \<open>i\<close> are free and no run starts before them.\<close>

lemma find_free_spec:
  assumes "bs = drop i xs" "i \<le> length xs" "c < n" "c \<le> i" "c \<noteq> 0 \<longrightarrow> s = i - c"
    "\<forall>k. i - c \<le> k \<and> k < i \<longrightarrow> \<not> xs ! k" "\<forall>j. free_run xs j n \<longrightarrow> i - c \<le> j"
  shows "case find_free bs i n s c of (s', c') \<Rightarrow>
           if n \<le> c' then first_free_run xs s' n else \<forall>j. \<not> free_run xs j n"
  using assms
proof (induction bs arbitrary: i s c)
  case Nil
  then have "\<not> free_run xs j n" for j by (fastforce simp: free_run_def)
  with Nil show ?case by simp
next
  case (Cons b bs)
  have i: "i < length xs" and b: "b = xs ! i" and bs: "bs = drop (Suc i) xs"
    using Cons.prems(1) by (metis drop_eq_Nil2 leI list.discI, metis hd_drop_conv_nth Cons.prems(2)
      drop_eq_Nil2 leI list.discI list.sel(1), metis drop_Suc list.sel(3) tl_drop)
  show ?case
  proof (cases b)
    case True
    have "Suc i - 0 \<le> j" if j: "free_run xs j n" for j
    proof (rule ccontr)
      assume "\<not> Suc i - 0 \<le> j"
      moreover have "i - c \<le> j" using Cons.prems(7) j by blast
      ultimately have "j \<le> i" "i < j + n" using Cons.prems(3) by linarith+
      then show False using j True b by (simp add: free_run_def)
    qed
    then have "case find_free bs (Suc i) n s 0 of (s', c') \<Rightarrow>
           if n \<le> c' then first_free_run xs s' n else \<forall>j. \<not> free_run xs j n"
      using Cons.prems(3) i bs by (intro Cons.IH) auto
    then show ?thesis using True by simp
  next
    case False
    define s' where "s' = (if c = 0 then i else s)"
    have s': "s' = i - c" using Cons.prems(5) by (simp add: s'_def)
    have fr: "\<forall>k. i - c \<le> k \<and> k < Suc i \<longrightarrow> \<not> xs ! k"
      using Cons.prems(6) False b by (auto simp: less_Suc_eq)
    show ?thesis
    proof (cases "n \<le> c + 1")
      case True
      then have "first_free_run xs s' n"
        using fr s' i Cons.prems(3,4,7) by (auto simp: first_free_run_def free_run_def)
      then show ?thesis using False True by (simp add: s'_def Let_def)
    next
      case c: False
      have "case find_free bs (Suc i) n s' (c + 1) of (s', c') \<Rightarrow>
           if n \<le> c' then first_free_run xs s' n else \<forall>j. \<not> free_run xs j n"
        using c Cons.prems(4,7) i bs s' fr by (intro Cons.IH) simp_all
      then show ?thesis using False c by (simp add: s'_def Let_def)
    qed
  qed
qed

lemma find_free_first:
  assumes "0 < n" "find_free bs 0 n 0 0 = (s, c)"
  shows "if n \<le> c then first_free_run bs s n else \<forall>j. \<not> free_run bs j n"
  using find_free_spec [of bs 0 bs 0 n 0] assms by simp

lemma length_set_blocks [simp]: "length (set_blocks bs i n v) = length bs"
  by (induction n arbitrary: bs i) auto

lemma nth_set_blocks:
  "k < length bs \<Longrightarrow> set_blocks bs i n v ! k = (if i \<le> k \<and> k < i + n then v else bs ! k)"
  by (induction n arbitrary: bs i) (auto simp: nth_list_update)

section \<open>Invariant\<close>

definition block_of :: "VirtualMemoryManager \<Rightarrow> nat \<Rightarrow> nat" where
  "block_of st a = (a - global_virtual_memory_addr st) div kBlockSize"

definition blocks :: "VirtualMemoryManager \<Rightarrow> nat \<times> nat \<Rightarrow> nat set" where
  "blocks st e = {block_of st (fst e) ..< block_of st (fst e) + snd e}"

definition allocation_ok :: "VirtualMemoryManager \<Rightarrow> nat \<times> nat \<Rightarrow> bool" where
  "allocation_ok st e \<longleftrightarrow>
     fst e = global_virtual_memory_addr st + block_of st (fst e) * kBlockSize \<and>
     0 < snd e \<and> block_of st (fst e) + snd e \<le> num_blocks st"

definition vmm_inv :: "VirtualMemoryManager \<Rightarrow> bool" where
  "vmm_inv st \<longleftrightarrow> num_blocks st = vm_size st div kBlockSize \<and>
     (initialized st \<longrightarrow>
        length (bitmap st) = num_blocks st \<and>
        global_virtual_memory_addr st + vm_size st < 2 ^ 64 \<and>
        strict_keys (allocations st) \<and>
        (\<forall>e \<in> set (allocations st). allocation_ok st e) \<and>
        (\<forall>e \<in> set (allocations st). \<forall>f \<in> set (allocations st). e \<noteq> f \<longrightarrow> blocks st e \<inter> blocks st f = {}) \<and>
        (\<forall>k < num_blocks st. bitmap st ! k \<longleftrightarrow> (\<exists>e \<in> set (allocations st). k \<in> blocks st e)))"

text \<open>The runtime reserves ranges that lie inside the address space.\<close>

definition vmm_env_ok :: "'a vmm_env_scheme \<Rightarrow> bool" where
  "vmm_env_ok env \<longleftrightarrow>
     (\<forall>sz va. aclrtReserveMemAddress env sz = (ACL_ERROR_NONE, va) \<longrightarrow> va + sz < 2 ^ 64) \<and>
     (\<forall>no_uc sz hint va. aclrtReserveMemAddressNoUCMemory env = Some no_uc \<longrightarrow>
        no_uc sz hint = (ACL_ERROR_NONE, va) \<longrightarrow> va + sz < 2 ^ 64)"

text \<open>The reservations in bytes, the view of the pool its users have.\<close>

definition vmm_live :: "VirtualMemoryManager \<Rightarrow> nat \<rightharpoonup> nat" where
  "vmm_live st = (if initialized st then (\<lambda>a. map_option (\<lambda>n. n * kBlockSize) (map_of (allocations st) a))
                  else Map.empty)"

lemma kBlockSize_pos [simp]: "0 < kBlockSize" by (simp add: kBlockSize_def)

lemma block_of_mult [simp]: "block_of st (global_virtual_memory_addr st + b * kBlockSize) = b"
  by (simp add: block_of_def)

lemma block_of_cong:
  "global_virtual_memory_addr st' = global_virtual_memory_addr st \<Longrightarrow> block_of st' = block_of st"
  by (simp add: block_of_def fun_eq_iff)

lemma vmm_init_inv: "vmm_inv VirtualMemoryManager_init"
  by (simp add: vmm_inv_def VirtualMemoryManager_init_def)

lemma vmm_inv_uninit: "\<not> initialized st \<Longrightarrow> vmm_inv st \<longleftrightarrow> num_blocks st = vm_size st div kBlockSize"
  by (simp add: vmm_inv_def)

lemma SetVirtualMemoryCapacity_inv [hixl_inv]:
  assumes "vmm_inv st"
  shows "vmm_inv (snd (SetVirtualMemoryCapacity st c))"
proof (cases "initialized st")
  case True
  then have "snd (SetVirtualMemoryCapacity st c) = st" by (simp add: SetVirtualMemoryCapacity_def)
  then show ?thesis using assms by simp
qed (simp add: SetVirtualMemoryCapacity_def vmm_inv_uninit Let_def)

lemma SetGlobalStartAddress_inv [hixl_inv]:
  assumes "vmm_inv st"
  shows "vmm_inv (snd (SetGlobalStartAddress st c))"
proof (cases "initialized st")
  case True
  then have "snd (SetGlobalStartAddress st c) = st" by (simp add: SetGlobalStartAddress_def Let_def)
  then show ?thesis using assms by simp
qed (use assms in \<open>simp add: SetGlobalStartAddress_def vmm_inv_uninit Let_def\<close>)

lemma Finalize_inv [hixl_inv]: "vmm_inv st \<Longrightarrow> vmm_inv (VirtualMemoryManager_Finalize st)"
  by (simp add: VirtualMemoryManager_Finalize_def vmm_inv_def Let_def)

lemma ReserveMemAddress_ok:
  assumes "vmm_env_ok env" "ReserveMemAddress env st sz = Inr va"
  shows "va + sz < 2 ^ 64"
  using assms unfolding ReserveMemAddress_def vmm_env_ok_def Let_def
  by (auto split: sum.splits option.splits prod.splits if_splits)

lemma GetSocType_error: "GetSocType n = Inl s \<Longrightarrow> s \<noteq> SUCCESS"
  by (auto simp: GetSocType_def split: option.splits if_splits)

lemma ReserveMemAddress_error: "ReserveMemAddress env st sz = Inl s \<Longrightarrow> s \<noteq> SUCCESS"
  unfolding ReserveMemAddress_def Let_def
  by (auto split: sum.splits option.splits prod.splits if_splits dest: GetSocType_error)

lemma InitProcess_cases:
  assumes "InitProcess env st = (status, st')"
  obtains (failed) "status \<noteq> SUCCESS" "initialized st' = initialized st"
      "vm_size st' = (if vm_size st = 0 then kDefaultGlobalVirtualMemorySize else vm_size st)"
      "num_blocks st' = (if vm_size st = 0 then kDefaultNumBlocks else num_blocks st)"
  | (ok) va st1 where "status = SUCCESS" "ReserveMemAddress env st1 (vm_size st') = Inr va" "initialized st'"
      "allocations st' = []" "bitmap st' = replicate (num_blocks st') False"
      "global_virtual_memory_addr st' = va"
      "vm_size st' = (if vm_size st = 0 then kDefaultGlobalVirtualMemorySize else vm_size st)"
      "num_blocks st' = (if vm_size st = 0 then kDefaultNumBlocks else num_blocks st)"
proof -
  define st1 where "st1 = (if vm_size st = 0
    then st\<lparr>vm_size := kDefaultGlobalVirtualMemorySize, num_blocks := kDefaultNumBlocks\<rparr> else st)"
  have sz: "vm_size st1 = (if vm_size st = 0 then kDefaultGlobalVirtualMemorySize else vm_size st)"
    "num_blocks st1 = (if vm_size st = 0 then kDefaultNumBlocks else num_blocks st)"
    "initialized st1 = initialized st"
    by (simp_all add: st1_def)
  show thesis
  proof (cases "ReserveMemAddress env st1 (vm_size st1)")
    case (Inl s)
    then have "status = s" "st' = st1" using assms by (simp_all add: InitProcess_def st1_def [symmetric])
    then show ?thesis using failed sz ReserveMemAddress_error [OF Inl] by simp
  next
    case (Inr va)
    then have "status = SUCCESS" "st' = st1\<lparr>global_virtual_memory := va, global_virtual_memory_addr := va,
        bitmap := replicate (num_blocks st1) False, allocations := [], initialized := True\<rparr>"
      using assms by (simp_all add: InitProcess_def st1_def [symmetric])
    then show ?thesis using ok [of st1 va] sz Inr by simp
  qed
qed

lemma default_blocks: "kDefaultNumBlocks = kDefaultGlobalVirtualMemorySize div kBlockSize"
  by (simp add: kDefaultGlobalVirtualMemorySize_def)

lemma InitProcess_inv [hixl_inv]:
  assumes "vmm_inv st" "\<not> initialized st" "vmm_env_ok env" "InitProcess env st = (status, st')"
  shows "vmm_inv st'" "vmm_live st' = vmm_live st" "status = SUCCESS \<longleftrightarrow> initialized st'"
    "status = SUCCESS \<Longrightarrow> allocations st' = []"
proof -
  have nb: "num_blocks st = vm_size st div kBlockSize" using assms(1) by (simp add: vmm_inv_def)
  from assms(4) show "vmm_inv st'"
    by (cases rule: InitProcess_cases)
       (use assms(2,3) nb ReserveMemAddress_ok in \<open>auto simp: vmm_inv_def default_blocks split: if_splits\<close>)
  from assms(4) show "vmm_live st' = vmm_live st" "status = SUCCESS \<longleftrightarrow> initialized st'"
    "status = SUCCESS \<Longrightarrow> allocations st' = []"
    by (cases rule: InitProcess_cases, use assms(2) in \<open>simp_all add: vmm_live_def fun_eq_iff\<close>)+
qed

section \<open>Reserving and releasing\<close>

definition blocks_for :: "nat \<Rightarrow> nat" where
  "blocks_for sz = sz div kBlockSize + (if sz mod kBlockSize \<noteq> 0 then 1 else 0)"

lemma blocks_for_bounds:
  assumes "0 < sz"
  shows "sz \<le> blocks_for sz * kBlockSize" "blocks_for sz * kBlockSize < sz + kBlockSize" "0 < blocks_for sz"
proof -
  define q r where "q = sz div kBlockSize" and "r = sz mod kBlockSize"
  have sz: "sz = q * kBlockSize + r" and r: "r < kBlockSize" by (simp_all add: q_def r_def)
  have n: "blocks_for sz = q + (if r \<noteq> 0 then 1 else 0)" by (simp add: blocks_for_def q_def r_def)
  show "sz \<le> blocks_for sz * kBlockSize" "blocks_for sz * kBlockSize < sz + kBlockSize"
    unfolding n using sz r by (auto simp: add_mult_distrib)
  show "0 < blocks_for sz" unfolding n using sz assms by (cases "q = 0") auto
qed

lemma block_addr_bound:
  assumes "vmm_inv st" "initialized st" "b + n \<le> num_blocks st"
  shows "global_virtual_memory_addr st + (b + n) * kBlockSize \<le> global_virtual_memory_addr st + vm_size st"
    "global_virtual_memory_addr st + vm_size st < 2 ^ 64"
proof -
  have "(b + n) * kBlockSize \<le> num_blocks st * kBlockSize" using assms(3) by (rule mult_le_mono1)
  also have "\<dots> \<le> vm_size st" using assms(1) by (simp add: vmm_inv_def)
  finally show "global_virtual_memory_addr st + (b + n) * kBlockSize \<le> global_virtual_memory_addr st + vm_size st" by simp
  show "global_virtual_memory_addr st + vm_size st < 2 ^ 64" using assms(1,2) by (simp add: vmm_inv_def)
qed

lemma block_addr_wrap:
  assumes "vmm_inv st" "initialized st" "b + n \<le> num_blocks st"
  shows "add64 (global_virtual_memory_addr st) (mul64 b kBlockSize) = global_virtual_memory_addr st + b * kBlockSize"
proof -
  note b = block_addr_bound [OF assms]
  then have "global_virtual_memory_addr st + b * kBlockSize < 2 ^ 64" by (simp add: add_mult_distrib)
  then show ?thesis by (simp add: mul64_id add64_id)
qed

lemma ReserveMemory_in_cases:
  assumes "vmm_inv st" "initialized st" "0 < sz" "ReserveMemory_in st sz = (r, st')"
  obtains (failed) "r = Inl RESOURCE_EXHAUSTED" "st' = st" "\<forall>j. \<not> free_run (bitmap st) j (blocks_for sz)"
  | (ok) b where "first_free_run (bitmap st) b (blocks_for sz)" "b + blocks_for sz \<le> num_blocks st"
      "r = Inr (global_virtual_memory_addr st + b * kBlockSize)"
      "st' = st\<lparr>bitmap := set_blocks (bitmap st) b (blocks_for sz) True,
                allocations := map_assign (global_virtual_memory_addr st + b * kBlockSize) (blocks_for sz)
                                 (allocations st)\<rparr>"
proof -
  have len: "length (bitmap st) = num_blocks st" using assms(1,2) by (simp add: vmm_inv_def)
  obtain b c where f: "find_free (bitmap st) 0 (blocks_for sz) 0 0 = (b, c)" by fastforce
  note first = find_free_first [OF blocks_for_bounds(3) [OF assms(3)] f]
  have eq: "ReserveMemory_in st sz =
    (if \<not> blocks_for sz \<le> num_blocks st \<or> \<not> blocks_for sz \<le> c then (Inl RESOURCE_EXHAUSTED, st)
     else (Inr (add64 (global_virtual_memory_addr st) (mul64 b kBlockSize)),
           st\<lparr>bitmap := set_blocks (bitmap st) b (blocks_for sz) True,
              allocations := map_assign (add64 (global_virtual_memory_addr st) (mul64 b kBlockSize)) (blocks_for sz)
                               (allocations st)\<rparr>))"
    unfolding ReserveMemory_in_def blocks_for_def [symmetric] Let_def using f len by simp
  show thesis
  proof (cases "\<not> blocks_for sz \<le> num_blocks st \<or> \<not> blocks_for sz \<le> c")
    case True
    then have "\<forall>j. \<not> free_run (bitmap st) j (blocks_for sz)"
      using first len by (auto simp: free_run_def)
    then show ?thesis using failed eq assms(4) True by simp
  next
    case False
    then have fr: "first_free_run (bitmap st) b (blocks_for sz)" using first by simp
    then have "b + blocks_for sz \<le> num_blocks st" using len by (simp add: first_free_run_def free_run_def)
    with block_addr_wrap [OF assms(1,2) this] show ?thesis using ok fr eq assms(4) False by simp
  qed
qed

text \<open>Every block a reservation covers has its bit set, so a free run meets no reservation.\<close>

lemma free_run_apart:
  assumes "vmm_inv st" "initialized st" "free_run (bitmap st) b n" "e \<in> set (allocations st)"
  shows "blocks st e \<inter> {b ..< b + n} = {}"
proof (rule ccontr)
  assume "blocks st e \<inter> {b ..< b + n} \<noteq> {}"
  then obtain k where k: "k \<in> blocks st e" "b \<le> k" "k < b + n" by auto
  then have "\<not> bitmap st ! k" "k < num_blocks st" using assms(1-3) by (auto simp: free_run_def vmm_inv_def)
  then show False using assms k(1) by (auto simp: vmm_inv_def)
qed

lemma block_of_inj:
  assumes "allocation_ok st e" "allocation_ok st f" "block_of st (fst e) = block_of st (fst f)"
  shows "fst e = fst f"
  using assms unfolding allocation_ok_def by metis

lemma vmm_invD:
  assumes "vmm_inv st" "initialized st"
  shows "length (bitmap st) = num_blocks st" "strict_keys (allocations st)"
    "e \<in> set (allocations st) \<Longrightarrow> allocation_ok st e"
    "e \<in> set (allocations st) \<Longrightarrow> f \<in> set (allocations st) \<Longrightarrow> e \<noteq> f \<Longrightarrow> blocks st e \<inter> blocks st f = {}"
    "k < num_blocks st \<Longrightarrow> bitmap st ! k \<longleftrightarrow> (\<exists>e \<in> set (allocations st). k \<in> blocks st e)"
    "num_blocks st = vm_size st div kBlockSize" "global_virtual_memory_addr st + vm_size st < 2 ^ 64"
  using assms unfolding vmm_inv_def by blast+

lemma reserve_block:
  assumes "vmm_inv st" "initialized st" "free_run (bitmap st) b n" "0 < n"
  defines "a \<equiv> global_virtual_memory_addr st + b * kBlockSize"
  defines "st' \<equiv> st\<lparr>bitmap := set_blocks (bitmap st) b n True, allocations := map_assign a n (allocations st)\<rparr>"
  shows "map_of (allocations st) a = None" "vmm_inv st'"
proof -
  note inv = vmm_invD [OF assms(1,2)]
  have ba: "block_of st a = b" by (simp add: a_def)
  have bn: "b + n \<le> num_blocks st" using assms(1-3) by (simp add: free_run_def vmm_inv_def)
  show new: "map_of (allocations st) a = None"
  proof (rule ccontr)
    assume "map_of (allocations st) a \<noteq> None"
    then obtain m where m: "(a, m) \<in> set (allocations st)" by (auto dest: map_of_SomeD)
    then have "0 < m" using inv(3) [of "(a, m)"] by (simp add: allocation_ok_def)
    then show False using free_run_apart [OF assms(1-3) m] ba assms(4) by (simp add: blocks_def)
  qed
  have bl: "block_of st' = block_of st" by (rule block_of_cong) (simp add: st'_def)
  then have bls: "blocks st' = blocks st" and aok: "allocation_ok st' = allocation_ok st"
    by (simp_all add: blocks_def allocation_ok_def fun_eq_iff st'_def)
  have al: "allocations st' = map_insert a n (allocations st)" using new by (simp add: st'_def map_assign_absent)
  have bs: "blocks st (a, n) = {b ..< b + n}" by (simp add: blocks_def ba)
  have ok: "allocation_ok st (a, n)" using bn assms(4) ba by (simp add: allocation_ok_def a_def)
  have bits: "bitmap st' ! k \<longleftrightarrow> b \<le> k \<and> k < b + n \<or> bitmap st ! k" if "k < num_blocks st" for k
    using that inv(1) by (auto simp: st'_def nth_set_blocks)
  show "vmm_inv st'"
    unfolding vmm_inv_def bls aok al
  proof (intro conjI impI)
    show "num_blocks st' = vm_size st' div kBlockSize" using inv(6) by (simp add: st'_def)
    show "length (bitmap st') = num_blocks st'" using inv(1) by (simp add: st'_def)
    show "global_virtual_memory_addr st' + vm_size st' < 2 ^ 64" using inv(7) by (simp add: st'_def)
    show "strict_keys (map_insert a n (allocations st))" using inv(2) new by (simp add: strict_keys_insert)
    show "\<forall>e \<in> set (map_insert a n (allocations st)). allocation_ok st e" using inv(3) ok by simp
    show "\<forall>e \<in> set (map_insert a n (allocations st)). \<forall>f \<in> set (map_insert a n (allocations st)).
        e \<noteq> f \<longrightarrow> blocks st e \<inter> blocks st f = {}"
      using inv(4) free_run_apart [OF assms(1-3)] bs by (simp add: Int_commute)
    show "\<forall>k < num_blocks st'. bitmap st' ! k \<longleftrightarrow> (\<exists>e \<in> set (map_insert a n (allocations st)). k \<in> blocks st e)"
    proof (intro allI impI)
      fix k assume "k < num_blocks st'"
      then have k: "k < num_blocks st" by (simp add: st'_def)
      show "bitmap st' ! k \<longleftrightarrow> (\<exists>e \<in> set (map_insert a n (allocations st)). k \<in> blocks st e)"
        unfolding bits [OF k] inv(5) [OF k] by (simp add: bs)
    qed
  qed
qed

lemma release_block:
  assumes "vmm_inv st" "initialized st" "map_of (allocations st) a = Some n"
  defines "st' \<equiv> st\<lparr>bitmap := set_blocks (bitmap st) (block_of st a) n False,
                      allocations := map_erase a (allocations st)\<rparr>"
  shows "vmm_inv st'"
proof -
  note inv = vmm_invD [OF assms(1,2)]
  have an: "(a, n) \<in> set (allocations st)" using assms(3) by (rule map_of_SomeD)
  have bl: "block_of st' = block_of st" by (rule block_of_cong) (simp add: st'_def)
  then have bls: "blocks st' = blocks st" and aok: "allocation_ok st' = allocation_ok st"
    by (simp_all add: blocks_def allocation_ok_def fun_eq_iff st'_def)
  have al: "set (allocations st') = {e \<in> set (allocations st). e \<noteq> (a, n)}"
    using strict_keys_map_of [OF inv(2)] assms(3) by (auto simp: st'_def set_map_erase)
  have bits: "bitmap st' ! k \<longleftrightarrow> k \<notin> blocks st (a, n) \<and> bitmap st ! k" if "k < num_blocks st" for k
    using that inv(1) by (auto simp: st'_def nth_set_blocks blocks_def)
  show ?thesis
    unfolding vmm_inv_def bls aok al
  proof (intro conjI impI)
    show "num_blocks st' = vm_size st' div kBlockSize" using inv(6) by (simp add: st'_def)
    show "length (bitmap st') = num_blocks st'" using inv(1) by (simp add: st'_def)
    show "global_virtual_memory_addr st' + vm_size st' < 2 ^ 64" using inv(7) by (simp add: st'_def)
    show "strict_keys (allocations st')" using inv(2) by (simp add: st'_def strict_keys_erase)
    show "\<forall>k < num_blocks st'. bitmap st' ! k \<longleftrightarrow>
        (\<exists>e \<in> {e \<in> set (allocations st). e \<noteq> (a, n)}. k \<in> blocks st e)"
    proof (intro allI impI)
      fix k assume "k < num_blocks st'"
      then have k: "k < num_blocks st" by (simp add: st'_def)
      have "k \<notin> blocks st (a, n)" if "e \<in> set (allocations st)" "e \<noteq> (a, n)" "k \<in> blocks st e" for e
        using inv(4) [OF that(1) an that(2)] that(3) by blast
      then show "bitmap st' ! k \<longleftrightarrow> (\<exists>e \<in> {e \<in> set (allocations st). e \<noteq> (a, n)}. k \<in> blocks st e)"
        unfolding bits [OF k] inv(5) [OF k] by blast
    qed
  qed (use inv(3,4) in auto)
qed

lemma allocation_range:
  assumes "vmm_inv st" "initialized st" "map_of (allocations st) a = Some n"
  shows "global_virtual_memory_addr st \<le> a" "a + n * kBlockSize \<le> global_virtual_memory_addr st + vm_size st"
    "0 < n" "global_virtual_memory_addr st + vm_size st < 2 ^ 64"
    "a - global_virtual_memory_addr st = block_of st a * kBlockSize"
proof -
  have ok: "allocation_ok st (a, n)" by (rule vmm_invD(3) [OF assms(1,2) map_of_SomeD [OF assms(3)]])
  then have a: "a = global_virtual_memory_addr st + block_of st a * kBlockSize" "0 < n"
    "block_of st a + n \<le> num_blocks st" by (simp_all add: allocation_ok_def)
  note b = block_addr_bound [OF assms(1,2) a(3)]
  show "global_virtual_memory_addr st \<le> a" "a - global_virtual_memory_addr st = block_of st a * kBlockSize"
    using a(1) by linarith+
  show "a + n * kBlockSize \<le> global_virtual_memory_addr st + vm_size st"
    using a(1) b(1) by (simp add: add_mult_distrib)
  show "0 < n" "global_virtual_memory_addr st + vm_size st < 2 ^ 64" using a b by simp_all
qed

lemma ReserveMemory_cases:
  assumes "vmm_inv st" "vmm_env_ok env" "ReserveMemory env st sz = (r, st')"
  obtains (failed) s where "r = Inl s" "s \<noteq> SUCCESS" "vmm_inv st'" "vmm_live st' = vmm_live st"
      "initialized st' \<Longrightarrow> 0 < sz \<Longrightarrow> s = RESOURCE_EXHAUSTED \<and> (\<forall>j. \<not> free_run (bitmap st') j (blocks_for sz))"
  | (ok) st1 b where "0 < sz" "vmm_inv st1" "initialized st1" "vmm_live st1 = vmm_live st"
      "initialized st \<longrightarrow> st1 = st"
      "first_free_run (bitmap st1) b (blocks_for sz)"
      "r = Inr (global_virtual_memory_addr st1 + b * kBlockSize)"
      "st' = st1\<lparr>bitmap := set_blocks (bitmap st1) b (blocks_for sz) True,
                 allocations := map_assign (global_virtual_memory_addr st1 + b * kBlockSize) (blocks_for sz)
                                  (allocations st1)\<rparr>"
proof (cases "0 < sz")
  case False
  then show ?thesis using failed [of PARAM_INVALID] assms by (simp add: ReserveMemory_def)
next
  case sz: True
  obtain status st1 where i: "(if \<not> initialized st then InitProcess env st else (SUCCESS, st)) = (status, st1)"
    by fastforce
  have st1: "vmm_inv st1" "vmm_live st1 = vmm_live st" "status = SUCCESS \<longleftrightarrow> initialized st1"
    "initialized st \<longrightarrow> st1 = st"
    using InitProcess_inv [OF assms(1) _ assms(2), of status st1] i assms(1) by (auto split: if_splits)
  have R: "ReserveMemory env st sz = (if status \<noteq> SUCCESS then (Inl status, st1) else ReserveMemory_in st1 sz)"
    using sz i by (simp add: ReserveMemory_def)
  show ?thesis
  proof (cases "status = SUCCESS")
    case False
    then show ?thesis using failed [of status] st1 R assms(3) by simp
  next
    case True
    then have "initialized st1" "ReserveMemory_in st1 sz = (r, st')" using st1 R assms(3) by simp_all
    from st1(1) this(1) sz this(2) show ?thesis
    proof (cases rule: ReserveMemory_in_cases)
      case failed
      then show ?thesis using st1 sz that(1) [of RESOURCE_EXHAUSTED] by simp
    next
      case (ok b)
      then show ?thesis using st1 sz that(2) [of st1 b] \<open>initialized st1\<close> by blast
    qed
  qed
qed

lemma ReserveMemory_live:
  assumes "vmm_inv st" "vmm_env_ok env" "ReserveMemory env st sz = (Inr a, st')"
  shows "vmm_inv st'" "vmm_live st a = None" "vmm_live st' = (vmm_live st)(a \<mapsto> blocks_for sz * kBlockSize)" "0 < sz"
proof -
  from assms have "vmm_inv st' \<and> vmm_live st a = None \<and>
      vmm_live st' = (vmm_live st)(a \<mapsto> blocks_for sz * kBlockSize) \<and> 0 < sz"
  proof (cases rule: ReserveMemory_cases)
    case (ok st1 b)
    have fr: "free_run (bitmap st1) b (blocks_for sz)" using ok(6) by (simp add: first_free_run_def)
    note rb = reserve_block [OF ok(2,3) fr blocks_for_bounds(3) [OF ok(1)]]
    have a: "a = global_virtual_memory_addr st1 + b * kBlockSize" using ok(7) by simp
    have "vmm_live st1 a = None" using rb(1) ok(3) by (simp add: vmm_live_def a)
    moreover have "vmm_live st' = (vmm_live st1)(a \<mapsto> blocks_for sz * kBlockSize)"
      using ok(3) by (simp add: vmm_live_def ok(8) a fun_eq_iff)
    moreover have "vmm_inv st'" unfolding ok(8) by (rule rb(2))
    ultimately show ?thesis using ok(1) unfolding ok(4) by blast
  qed simp
  then show "vmm_inv st'" "vmm_live st a = None" "0 < sz"
    "vmm_live st' = (vmm_live st)(a \<mapsto> blocks_for sz * kBlockSize)"
    by blast+
qed

lemma vmm_live_Some:
  "vmm_live st a = Some m \<longleftrightarrow> initialized st \<and> (\<exists>n. map_of (allocations st) a = Some n \<and> m = n * kBlockSize)"
  by (auto simp: vmm_live_def)

lemma ReleaseMemory_live:
  assumes "vmm_inv st" "vmm_live st a = Some m"
  obtains st' where "ReleaseMemory st a = (SUCCESS, st')" "vmm_inv st'" "vmm_live st' = (vmm_live st)(a := None)"
proof -
  obtain n where n: "initialized st" "map_of (allocations st) a = Some n" using assms(2) by (auto simp: vmm_live_Some)
  note r = allocation_range [OF assms(1) n]
  define st' where "st' = st\<lparr>bitmap := set_blocks (bitmap st) (block_of st a) n False,
                             allocations := map_erase a (allocations st)\<rparr>"
  have "sub64 a (global_virtual_memory_addr st) = a - global_virtual_memory_addr st"
    using r by (intro sub64_id) linarith+
  moreover have "a < add64 (global_virtual_memory_addr st) (vm_size st)"
  proof -
    have "0 < n * kBlockSize" using r(3) by simp
    then show ?thesis using r(2) unfolding add64_id [OF r(4)] by linarith
  qed
  moreover have "(a - global_virtual_memory_addr st) mod kBlockSize = 0" unfolding r(5) by simp
  moreover have "(a - global_virtual_memory_addr st) div kBlockSize = block_of st a" by (simp add: block_of_def)
  ultimately have "ReleaseMemory st a = (SUCCESS, st')"
    using n r(1) by (simp add: ReleaseMemory_def st'_def Let_def)
  moreover have "vmm_inv st'" unfolding st'_def by (rule release_block [OF assms(1) n])
  moreover have "vmm_live st' = (vmm_live st)(a := None)"
    using n(1) by (simp add: vmm_live_def st'_def map_of_map_erase fun_eq_iff)
  ultimately show thesis by (rule that)
qed

lemma ReleaseMemory_dead:
  assumes "vmm_live st a = None"
  shows "ReleaseMemory st a = (PARAM_INVALID, st)"
  using assms by (auto simp: ReleaseMemory_def vmm_live_def split: if_splits)

section \<open>The interface of the pool\<close>

text \<open>
  What the users of the pool rely on: a reservation returns a fresh address whose range is at least
  as long as asked, live ranges never overlap, releasing a live address removes exactly that range,
  and releasing anything else is refused without effect.
\<close>

locale va_reserver =
  fixes reserve :: "'e \<Rightarrow> 's \<Rightarrow> nat \<Rightarrow> (status + nat) \<times> 's"
    and release :: "'s \<Rightarrow> nat \<Rightarrow> status \<times> 's"
    and inv :: "'s \<Rightarrow> bool"
    and live :: "'s \<Rightarrow> nat \<rightharpoonup> nat"
    and env_ok :: "'e \<Rightarrow> bool"
  assumes reserve_ok: "inv st \<Longrightarrow> env_ok e \<Longrightarrow> reserve e st sz = (Inr a, st') \<Longrightarrow>
      inv st' \<and> live st a = None \<and> (\<exists>len. sz \<le> len \<and> live st' = (live st)(a \<mapsto> len))"
    and reserve_err: "inv st \<Longrightarrow> env_ok e \<Longrightarrow> reserve e st sz = (Inl s, st') \<Longrightarrow>
      s \<noteq> SUCCESS \<and> inv st' \<and> live st' = live st"
    and release_live: "inv st \<Longrightarrow> live st a = Some m \<Longrightarrow>
      \<exists>st'. release st a = (SUCCESS, st') \<and> inv st' \<and> live st' = (live st)(a := None)"
    and release_dead: "inv st \<Longrightarrow> live st a = None \<Longrightarrow> release st a = (PARAM_INVALID, st)"
    and live_disjoint: "inv st \<Longrightarrow> live st a = Some m \<Longrightarrow> live st b = Some n \<Longrightarrow> a \<noteq> b \<Longrightarrow>
      {a ..< a + m} \<inter> {b ..< b + n} = {}"
begin

lemma release_inv: "inv st \<Longrightarrow> inv (snd (release st a))"
  using release_live release_dead by (cases "live st a") fastforce+

lemma release_live_upd: "inv st \<Longrightarrow> live (snd (release st a)) = (live st)(a := None)"
  using release_live release_dead by (cases "live st a") (fastforce simp: fun_eq_iff)+

lemma reserve_inv: "inv st \<Longrightarrow> env_ok e \<Longrightarrow> inv (snd (reserve e st sz))"
  using reserve_ok reserve_err by (metis prod.exhaust_sel sum.exhaust)

lemma reserve_apart:
  assumes "inv st" "env_ok e" "reserve e st sz = (Inr a, st')" "live st b = Some n"
  shows "{a ..< a + sz} \<inter> {b ..< b + n} = {}"
proof -
  obtain len where st': "inv st'" "live st a = None" "sz \<le> len" "live st' = (live st)(a \<mapsto> len)"
    using reserve_ok [OF assms(1-3)] by blast
  then have "a \<noteq> b" using assms(4) by auto
  then have "{a ..< a + len} \<inter> {b ..< b + n} = {}"
    using live_disjoint [OF st'(1), of a len b n] st'(4) assms(4) by simp
  then show ?thesis using st'(3) by auto
qed

text \<open>A caller that gives a reservation back leaves the pool as it found it.\<close>

lemma reserve_release:
  assumes "inv st" "env_ok e" "reserve e st sz = (Inr a, st')"
  shows "fst (release st' a) = SUCCESS" "inv (snd (release st' a))" "live (snd (release st' a)) = live st"
proof -
  obtain len where st': "inv st'" "live st a = None" "live st' = (live st)(a \<mapsto> len)"
    using reserve_ok [OF assms] by blast
  obtain st'' where "release st' a = (SUCCESS, st'')" "inv st''" "live st'' = (live st')(a := None)"
    using release_live [OF st'(1), of a len] st'(3) by auto
  then show "fst (release st' a) = SUCCESS" "inv (snd (release st' a))" "live (snd (release st' a)) = live st"
    using st'(2,3) by (auto simp: fun_eq_iff)
qed

end

lemma vmm_live_disjoint:
  assumes "vmm_inv st" "vmm_live st a = Some m" "vmm_live st b = Some n" "a \<noteq> b"
  shows "{a ..< a + m} \<inter> {b ..< b + n} = {}"
proof -
  obtain ma nb where i: "initialized st" and ma: "map_of (allocations st) a = Some ma" "m = ma * kBlockSize"
    and nb: "map_of (allocations st) b = Some nb" "n = nb * kBlockSize"
    using assms(2,3) by (auto simp: vmm_live_Some)
  have d: "blocks st (a, ma) \<inter> blocks st (b, nb) = {}"
    using assms(4) by (intro vmm_invD(4) [OF assms(1) i] map_of_SomeD [OF ma(1)] map_of_SomeD [OF nb(1)]) simp
  note ra = allocation_range [OF assms(1) i ma(1)] and rb = allocation_range [OF assms(1) i nb(1)]
  have "block_of st a + ma \<le> block_of st b \<or> block_of st b + nb \<le> block_of st a"
    using d ra(3) rb(3) by (auto simp: blocks_def not_le ivl_disj_int)
  then have "(block_of st a + ma) * kBlockSize \<le> block_of st b * kBlockSize \<or>
      (block_of st b + nb) * kBlockSize \<le> block_of st a * kBlockSize"
    by (metis mult_le_mono1)
  then have "a + m \<le> b \<or> b + n \<le> a"
    using ra(1,5) rb(1,5) unfolding ma(2) nb(2) add_mult_distrib by linarith
  then show ?thesis by auto
qed

interpretation vmm: va_reserver ReserveMemory ReleaseMemory vmm_inv vmm_live vmm_env_ok
proof unfold_locales
  fix st and e :: "'a vmm_env_scheme" and sz a st'
  assume "vmm_inv st" "vmm_env_ok e" "ReserveMemory e st sz = (Inr a, st')"
  note r = ReserveMemory_live [OF this]
  then show "vmm_inv st' \<and> vmm_live st a = None \<and> (\<exists>len. sz \<le> len \<and> vmm_live st' = (vmm_live st)(a \<mapsto> len))"
    using blocks_for_bounds(1) by blast
next
  fix st and e :: "'a vmm_env_scheme" and sz s st'
  assume "vmm_inv st" "vmm_env_ok e" "ReserveMemory e st sz = (Inl s, st')"
  then show "s \<noteq> SUCCESS \<and> vmm_inv st' \<and> vmm_live st' = vmm_live st"
    by (cases rule: ReserveMemory_cases) auto
qed (blast intro: ReleaseMemory_live ReleaseMemory_dead, erule ReleaseMemory_dead, rule vmm_live_disjoint)

section \<open>Properties\<close>

text \<open>C13: a successful \<open>ReserveMemory\<close> returns a range that is 1 GB aligned in the pool, at least as
  long as asked and less than one block longer, inside the reserved global range, and disjoint from
  every live reservation; it becomes live and no other reservation changes.\<close>

theorem ReserveMemory_safe:
  assumes "vmm_inv st" "vmm_env_ok env" "ReserveMemory env st sz = (Inr a, st')"
  shows "\<exists>len. vmm_live st' = (vmm_live st)(a \<mapsto> len) \<and> vmm_inv st' \<and> vmm_live st a = None \<and>
    sz \<le> len \<and> len < sz + kBlockSize \<and>
    global_virtual_memory_addr st' \<le> a \<and> (a - global_virtual_memory_addr st') mod kBlockSize = 0 \<and>
    a + len \<le> global_virtual_memory_addr st' + vm_size st' \<and>
    global_virtual_memory_addr st' + vm_size st' < 2 ^ 64 \<and>
    (\<forall>b m. vmm_live st b = Some m \<longrightarrow> {a ..< a + sz} \<inter> {b ..< b + m} = {})"
proof -
  note r = ReserveMemory_live [OF assms]
  have "vmm_live st' a = Some (blocks_for sz * kBlockSize)" using r(3) by simp
  then obtain n where n: "initialized st'" "map_of (allocations st') a = Some n" "blocks_for sz * kBlockSize = n * kBlockSize"
    unfolding vmm_live_Some by blast
  note ar = allocation_range [OF r(1) n(1,2)]
  have "(a - global_virtual_memory_addr st') mod kBlockSize = 0" unfolding ar(5) by simp
  moreover have "\<forall>b m. vmm_live st b = Some m \<longrightarrow> {a ..< a + sz} \<inter> {b ..< b + m} = {}"
    using vmm.reserve_apart [OF assms] by blast
  ultimately show ?thesis
    using r ar blocks_for_bounds [OF r(4)] n(3) by (intro exI [of _ "blocks_for sz * kBlockSize"]) simp
qed

definition demo_vmm :: VirtualMemoryManager where
  "demo_vmm = \<lparr>bitmap = [True, False, False], allocations = [(4096, 1)], initialized = True,
     global_virtual_memory = 4096, global_virtual_memory_addr = 4096, vm_size = 3 * kBlockSize,
     num_blocks = 3, global_start_va = None\<rparr>"

definition demo_vmm_env :: vmm_env where
  "demo_vmm_env = \<lparr>ACL_ERROR_RT_STREAM_SYNC_TIMEOUT = 507046, ACL_ERROR_RT_FEATURE_NOT_SUPPORT = 207000,
     aclrtGetSocName = Some ''Ascend910_93'', aclrtReserveMemAddressNoUCMemory = None,
     aclrtReserveMemAddress = (\<lambda>sz. (1, 0))\<rparr>"

lemma demo_vmm_inv: "vmm_inv demo_vmm"
proof -
  have "[True, False, False] ! k \<longleftrightarrow> k = 0" if "k < 3" for k :: nat
    using that by (auto simp: nth_Cons numeral_3_eq_3 less_Suc_eq)
  then show ?thesis
    by (auto simp: vmm_inv_def demo_vmm_def allocation_ok_def blocks_def block_of_def kBlockSize_def)
qed

lemma demo_vmm_env_ok: "vmm_env_ok demo_vmm_env"
  by (simp add: vmm_env_ok_def demo_vmm_env_def ACL_ERROR_NONE_def)

lemma demo_reserve:
  "ReserveMemory demo_vmm_env demo_vmm 5 = (Inr (4096 + kBlockSize),
     demo_vmm\<lparr>bitmap := [True, True, False], allocations := [(4096, 1), (4096 + kBlockSize, 1)]\<rparr>)"
  by (simp add: ReserveMemory_def ReserveMemory_in_def demo_vmm_def kBlockSize_def Let_def add64_def mul64_def
      map_assign_def map_insert_def map_erase_def insert_at_def lower_bound_def)

theorem ReserveMemory_safe_witness:
  "\<exists>len \<ge> 5. vmm_live (demo_vmm\<lparr>bitmap := [True, True, False], allocations := [(4096, 1), (4096 + kBlockSize, 1)]\<rparr>)
     = (vmm_live demo_vmm)(4096 + kBlockSize \<mapsto> len)"
  using ReserveMemory_safe [OF demo_vmm_inv demo_vmm_env_ok demo_reserve] by blast

text \<open>C28: on an initialised pool \<open>ReserveMemory\<close> is first fit: it fails, without effect, exactly when
  no run of free blocks is long enough, and otherwise returns the lowest one.\<close>

theorem ReserveMemory_first_fit:
  assumes "vmm_inv st" "initialized st" "0 < sz" "vmm_env_ok env"
  shows "(\<forall>j. \<not> free_run (bitmap st) j (blocks_for sz)) \<and> ReserveMemory env st sz = (Inl RESOURCE_EXHAUSTED, st) \<or>
    (\<exists>b. first_free_run (bitmap st) b (blocks_for sz) \<and>
       fst (ReserveMemory env st sz) = Inr (global_virtual_memory_addr st + b * kBlockSize))"
proof -
  have eq: "ReserveMemory env st sz = ReserveMemory_in st sz" using assms by (simp add: ReserveMemory_def)
  obtain r st' where r: "ReserveMemory_in st sz = (r, st')" by fastforce
  from assms(1-3) r show ?thesis
    by (cases rule: ReserveMemory_in_cases) (auto simp: eq r)
qed

theorem ReserveMemory_first_fit_witness:
  "\<exists>b. first_free_run (bitmap demo_vmm) b (blocks_for 5)"
  using ReserveMemory_first_fit [OF demo_vmm_inv _ _ demo_vmm_env_ok, of 5]
  by (auto simp: demo_reserve) (auto simp: demo_vmm_def)

text \<open>C29: a reservation can be released exactly once: the release succeeds, gives back exactly the
  blocks of that reservation so that the pool is what it was before the reservation, and a second
  release of the address is refused without effect.\<close>

theorem ReleaseMemory_once:
  assumes "vmm_inv st" "vmm_env_ok env" "ReserveMemory env st sz = (Inr a, st')"
  shows "\<exists>st''. ReleaseMemory st' a = (SUCCESS, st'') \<and> vmm_inv st'' \<and> vmm_live st'' = vmm_live st \<and>
    ReleaseMemory st'' a = (PARAM_INVALID, st'')"
proof -
  note rr = vmm.reserve_release [OF assms]
  have "vmm_live (snd (ReleaseMemory st' a)) a = None" using rr(3) ReserveMemory_live(2) [OF assms] by simp
  then show ?thesis
    using rr ReleaseMemory_dead by (intro exI [of _ "snd (ReleaseMemory st' a)"]) (simp add: prod_eq_iff)
qed

theorem ReleaseMemory_once_witness:
  "\<exists>st''. ReleaseMemory (demo_vmm\<lparr>bitmap := [True, True, False], allocations := [(4096, 1), (4096 + kBlockSize, 1)]\<rparr>)
      (4096 + kBlockSize) = (SUCCESS, st'') \<and> vmm_live st'' = vmm_live demo_vmm"
  using ReleaseMemory_once [OF demo_vmm_inv demo_vmm_env_ok demo_reserve] by blast

end
