(* ===== verification/Ub_Mem.thy ===== *)
theory Ub_Mem
  imports Virtual_Memory
begin

text \<open>
  The allocator of fabric memory (\<open>UbMemAllocator\<close> in \<open>src/src/hixl/cs/ubmem/ubmem_allocator.cc\<close>):
  physical memory from the driver, an address range from the pool of \<open>Virtual_Memory\<close>, the mapping of
  one to the other, and the bookkeeping of exported share handles. The module's globals are one
  record; its field \<open>acl_trace\<close> lists the effects requested from the driver, in order, so that a
  resource acquired and not given back is visible. The driver's answers during a call are a record
  passed to the call. Scope guards are written out on each early return, in reverse order of their
  creation.
\<close>

section \<open>State\<close>

text \<open>A driver handle is a number, a fabric handle the number its bytes spell (zero when cleared).\<close>

type_synonym aclrtDrvMemHandle = nat
type_synonym aclrtMemFabricHandle = nat

record AllocationRecord =
  pa_handle :: aclrtDrvMemHandle
  share_handle :: aclrtMemFabricHandle
  exported :: bool

type_synonym ForeignShareHandleKey = "nat \<times> nat"
type_synonym ExportedRangeKey = "nat \<times> nat \<times> aclrtMemFabricHandle"

record ShareHandleInfo =
  sh_va_addr :: nat
  sh_len :: nat
  sh_share_handle :: aclrtMemFabricHandle
  sh_is_retained :: bool
  sh_mem_type :: MemType

datatype acl_event =
    MallocPhysical aclrtDrvMemHandle
  | FreePhysical aclrtDrvMemHandle
  | MapMem nat aclrtDrvMemHandle
  | UnmapMem nat
  | ExportHandle aclrtDrvMemHandle

record UbMemState =
  vmm :: VirtualMemoryManager
  g_allocations :: "(nat \<times> AllocationRecord) list"
  g_foreign_share_handles :: "ForeignShareHandleKey \<rightharpoonup> aclrtMemFabricHandle"
  g_exported_ranges :: "ExportedRangeKey \<rightharpoonup> nat"
  acl_trace :: "acl_event list"

datatype aclrtMemAttr = ACL_HBM_MEM_HUGE | ACL_MEM_P2P_HUGE | ACL_MEM_P2P_HUGE1G
datatype aclrtMemLocationType = ACL_MEM_LOCATION_TYPE_DEVICE | ACL_MEM_LOCATION_TYPE_HOST

text \<open>The fields of \<open>aclrtPhysicalMemProp\<close> that differ between requests; the handle type, the
  allocation type and the reserved field have the same value in all of them.\<close>

record aclrtPhysicalMemProp =
  memAttr :: aclrtMemAttr
  location_type :: aclrtMemLocationType
  location_id :: int

record ub_env = vmm_env +
  aclrtGetDevice :: "aclError \<times> int"
  aclsysGetVersionNum :: "(int \<times> int) option"
  aclrtGetLogicDevIdByUserDevId :: "int \<Rightarrow> aclError \<times> int"
  aclrtMallocPhysical :: "aclrtPhysicalMemProp \<Rightarrow> nat \<Rightarrow> aclError \<times> aclrtDrvMemHandle"
  aclrtMapMem :: "nat \<Rightarrow> nat \<Rightarrow> aclrtDrvMemHandle \<Rightarrow> aclError"
  aclrtMemSetAccess :: "nat \<Rightarrow> nat \<Rightarrow> nat \<Rightarrow> aclError"
  aclrtMemExportToShareableHandleV2 :: "aclrtDrvMemHandle \<Rightarrow> aclError \<times> aclrtMemFabricHandle"

section \<open>Operations\<close>

definition kRuntimeVersionSkipLogicIdConvert :: int where
  "kRuntimeVersionSkipLogicIdConvert = 90200000"

definition RuntimeSkipsUserToLogicConvert :: "'a ub_env_scheme \<Rightarrow> bool" where
  "RuntimeSkipsUserToLogicConvert env =
     (case aclsysGetVersionNum env of
        None \<Rightarrow> False
      | Some (ret, version_num) \<Rightarrow>
          if ret \<noteq> 0 then False else version_num \<ge> kRuntimeVersionSkipLogicIdConvert)"

definition MakeExportedRangeKey :: "ShareHandleInfo \<Rightarrow> ExportedRangeKey" where
  "MakeExportedRangeKey info = (sh_va_addr info, sh_len info, sh_share_handle info)"

definition AddAllocation :: "UbMemState \<Rightarrow> nat \<Rightarrow> aclrtDrvMemHandle \<Rightarrow> UbMemState" where
  "AddAllocation st va_addr h =
     st\<lparr>g_allocations := map_assign va_addr \<lparr>pa_handle = h, share_handle = 0, exported = False\<rparr> (g_allocations st)\<rparr>"

definition RemoveAllocation :: "UbMemState \<Rightarrow> nat \<Rightarrow> UbMemState" where
  "RemoveAllocation st va_addr = st\<lparr>g_allocations := map_erase va_addr (g_allocations st)\<rparr>"

definition acl_do :: "acl_event \<Rightarrow> UbMemState \<Rightarrow> UbMemState" where
  "acl_do e st = st\<lparr>acl_trace := acl_trace st @ [e]\<rparr>"

definition SetDeviceAccessForHostMappedVa :: "'a ub_env_scheme \<Rightarrow> nat \<Rightarrow> nat \<Rightarrow> int \<Rightarrow> status" where
  "SetDeviceAccessForHostMappedVa env va_ptr sz device_id =
     (let set_access = (\<lambda>access_device_id.
            let ret = aclrtMemSetAccess env va_ptr sz (nat (access_device_id mod 2 ^ 32)) in
            if ret \<noteq> ACL_ERROR_NONE then acl_ret env ret else SUCCESS)
      in if \<not> RuntimeSkipsUserToLogicConvert env then
           (case aclrtGetLogicDevIdByUserDevId env device_id of (ret, access_device_id) \<Rightarrow>
              if ret \<noteq> ACL_ERROR_NONE then acl_ret env ret else set_access access_device_id)
         else set_access device_id)"

definition AllocatePhysicalMemory ::
  "'a ub_env_scheme \<Rightarrow> MemType \<Rightarrow> nat \<Rightarrow> int \<Rightarrow> status + aclrtDrvMemHandle" where
  "AllocatePhysicalMemory env type total_size logic_device_id =
     (let request = (\<lambda>prop. case aclrtMallocPhysical env prop total_size of (ret, h) \<Rightarrow>
            if ret \<noteq> ACL_ERROR_NONE then Inl (acl_ret env ret) else Inr h)
      in if \<not> (type = MEM_HOST \<or> type = MEM_DEVICE) then Inl PARAM_INVALID
         else if type = MEM_DEVICE then
           request \<lparr>memAttr = ACL_HBM_MEM_HUGE, location_type = ACL_MEM_LOCATION_TYPE_DEVICE,
                    location_id = logic_device_id\<rparr>
         else
           case GetSocType (aclrtGetSocName env) of
             Inl status \<Rightarrow> Inl status
           | Inr soc_type \<Rightarrow>
               if soc_type = kDefault then
                 request \<lparr>memAttr = ACL_MEM_P2P_HUGE, location_type = ACL_MEM_LOCATION_TYPE_HOST, location_id = 0\<rparr>
               else
                 case aclrtMallocPhysical env
                        \<lparr>memAttr = ACL_MEM_P2P_HUGE1G, location_type = ACL_MEM_LOCATION_TYPE_HOST, location_id = 0\<rparr>
                        total_size of
                   (one_gig_ret, h) \<Rightarrow>
                     if one_gig_ret = ACL_ERROR_NONE then Inr h
                     else request \<lparr>memAttr = ACL_MEM_P2P_HUGE, location_type = ACL_MEM_LOCATION_TYPE_HOST,
                                   location_id = 0\<rparr>)"

text \<open>The guards of \<open>MallocMem\<close>: \<open>release_va_guard\<close> and the others run on the early returns.\<close>

definition release_va :: "UbMemState \<Rightarrow> nat \<Rightarrow> UbMemState" where
  "release_va st virtual_addr = st\<lparr>vmm := snd (ReleaseMemory (vmm st) virtual_addr)\<rparr>"

definition MallocMem ::
  "'a ub_env_scheme \<Rightarrow> UbMemState \<Rightarrow> MemType \<Rightarrow> nat \<Rightarrow> bool \<Rightarrow> (status + nat) \<times> UbMemState" where
  "MallocMem env st type sz ptr_is_null =
     (if \<not> (type = MEM_HOST \<or> type = MEM_DEVICE) then (Inl PARAM_INVALID, st)
      else if \<not> sz > 0 then (Inl PARAM_INVALID, st)
      else if ptr_is_null then (Inl PARAM_INVALID, st)
      else
        case aclrtGetDevice env of (ret, logic_device_id) \<Rightarrow>
        if ret \<noteq> ACL_ERROR_NONE then (Inl (acl_ret env ret), st)
        else
          case AllocatePhysicalMemory env type sz logic_device_id of
            Inl status \<Rightarrow> (Inl status, st)
          | Inr h \<Rightarrow>
              let st1 = acl_do (MallocPhysical h) st in
              case ReserveMemory env (vmm st1) sz of
                (Inl status, vmm') \<Rightarrow> (Inl status, acl_do (FreePhysical h) (st1\<lparr>vmm := vmm'\<rparr>))
              | (Inr virtual_addr, vmm') \<Rightarrow>
                  let st2 = st1\<lparr>vmm := vmm'\<rparr>; ret = aclrtMapMem env virtual_addr sz h in
                  if ret \<noteq> ACL_ERROR_NONE
                  then (Inl (acl_ret env ret), acl_do (FreePhysical h) (release_va st2 virtual_addr))
                  else
                    let st3 = acl_do (MapMem virtual_addr h) st2;
                        status = (if type = MEM_HOST
                                  then SetDeviceAccessForHostMappedVa env virtual_addr sz logic_device_id else SUCCESS)
                    in if status \<noteq> SUCCESS
                       then (Inl status, acl_do (FreePhysical h) (release_va (acl_do (UnmapMem virtual_addr) st3) virtual_addr))
                       else (Inr virtual_addr, AddAllocation st3 virtual_addr h))"

definition GetPaHandleFromVa :: "UbMemState \<Rightarrow> nat \<Rightarrow> status + aclrtDrvMemHandle" where
  "GetPaHandleFromVa st va_addr =
     (case map_of (g_allocations st) va_addr of None \<Rightarrow> Inl FAILED | Some r \<Rightarrow> Inr (pa_handle r))"

definition FreeMem :: "UbMemState \<Rightarrow> nat \<Rightarrow> status \<times> UbMemState" where
  "FreeMem st ptr =
     (if \<not> ptr \<noteq> 0 then (PARAM_INVALID, st)
      else
        case GetPaHandleFromVa st ptr of
          Inl status \<Rightarrow> (status, st)
        | Inr h \<Rightarrow>
            (SUCCESS, acl_do (FreePhysical h) (release_va (acl_do (UnmapMem ptr) (RemoveAllocation st ptr)) ptr)))"

definition IsAllocatedByMallocMem :: "UbMemState \<Rightarrow> nat \<Rightarrow> bool" where
  "IsAllocatedByMallocMem st va_addr \<longleftrightarrow> map_of (g_allocations st) va_addr \<noteq> None"

definition ExportToShareableHandle ::
  "'a ub_env_scheme \<Rightarrow> UbMemState \<Rightarrow> nat \<Rightarrow> (status + aclrtMemFabricHandle) \<times> UbMemState" where
  "ExportToShareableHandle env st va_addr =
     (case map_of (g_allocations st) va_addr of
        None \<Rightarrow> (Inl PARAM_INVALID, st)
      | Some r \<Rightarrow>
          if exported r then (Inr (share_handle r), st)
          else
            case aclrtMemExportToShareableHandleV2 env (pa_handle r) of (ret, sh) \<Rightarrow>
              if ret \<noteq> ACL_ERROR_NONE then (Inl (acl_ret env ret), st)
              else (Inr sh, (acl_do (ExportHandle (pa_handle r)) st)
                      \<lparr>g_allocations := map_assign va_addr (r\<lparr>share_handle := sh, exported := True\<rparr>) (g_allocations st)\<rparr>))"

definition GetOrExportForeignShareHandle ::
  "'a ub_env_scheme \<Rightarrow> UbMemState \<Rightarrow> nat \<Rightarrow> nat \<Rightarrow> aclrtDrvMemHandle \<Rightarrow>
   (status + aclrtMemFabricHandle) \<times> UbMemState" where
  "GetOrExportForeignShareHandle env st block_addr block_len h =
     (let key = (block_addr, block_len);
          cached = (if g_exported_ranges st (block_addr, block_len, 0) = None
                    then g_foreign_share_handles st key else None)
      in case cached of
           Some sh \<Rightarrow> (Inr sh, st)
         | None \<Rightarrow>
             (case aclrtMemExportToShareableHandleV2 env h of (ret, sh) \<Rightarrow>
                if ret \<noteq> ACL_ERROR_NONE then (Inl (acl_ret env ret), st)
                else (Inr sh, (acl_do (ExportHandle h) st)
                        \<lparr>g_foreign_share_handles :=
                           (if g_foreign_share_handles st key = None
                            then (g_foreign_share_handles st)(key \<mapsto> sh) else g_foreign_share_handles st)\<rparr>)))"

definition RecordExportedRange :: "UbMemState \<Rightarrow> ShareHandleInfo \<Rightarrow> UbMemState" where
  "RecordExportedRange st info =
     (let key = MakeExportedRangeKey info;
          n = (case g_exported_ranges st key of None \<Rightarrow> 0 | Some n \<Rightarrow> n)
      in st\<lparr>g_exported_ranges := (g_exported_ranges st)(key \<mapsto> add32 n 1)\<rparr>)"

definition ReleaseExportedRange :: "UbMemState \<Rightarrow> ShareHandleInfo \<Rightarrow> UbMemState" where
  "ReleaseExportedRange st info =
     (let key = MakeExportedRangeKey info in
      case g_exported_ranges st key of
        None \<Rightarrow> st
      | Some n \<Rightarrow>
          let n' = (if n > 0 then n - 1 else n) in
          if n' = 0
          then st\<lparr>g_exported_ranges := (g_exported_ranges st)(key := None),
                  g_foreign_share_handles := (g_foreign_share_handles st)((sh_va_addr info, sh_len info) := None)\<rparr>
          else st\<lparr>g_exported_ranges := (g_exported_ranges st)(key \<mapsto> n')\<rparr>)"

definition IsRangeExportedHere :: "UbMemState \<Rightarrow> ShareHandleInfo \<Rightarrow> bool" where
  "IsRangeExportedHere st info \<longleftrightarrow> g_exported_ranges st (MakeExportedRangeKey info) \<noteq> None"

definition ResetForeignShareHandleCacheForTest :: "UbMemState \<Rightarrow> UbMemState" where
  "ResetForeignShareHandleCacheForTest st = st\<lparr>g_foreign_share_handles := Map.empty\<rparr>"

section \<open>Resources held\<close>

fun physical_step :: "aclrtDrvMemHandle multiset \<Rightarrow> acl_event \<Rightarrow> aclrtDrvMemHandle multiset" where
  "physical_step M (MallocPhysical h) = add_mset h M"
| "physical_step M (FreePhysical h) = M - {#h#}"
| "physical_step M e = M"

fun mapping_step :: "nat multiset \<Rightarrow> acl_event \<Rightarrow> nat multiset" where
  "mapping_step M (MapMem va h) = add_mset va M"
| "mapping_step M (UnmapMem va) = M - {#va#}"
| "mapping_step M e = M"

definition outstanding :: "acl_event list \<Rightarrow> aclrtDrvMemHandle multiset" where
  "outstanding = foldl physical_step {#}"

definition mapped :: "acl_event list \<Rightarrow> nat multiset" where
  "mapped = foldl mapping_step {#}"

lemma outstanding_append [simp]: "outstanding (es @ e # fs) = foldl physical_step (outstanding es) (e # fs)"
  by (simp add: outstanding_def)

lemma mapped_append [simp]: "mapped (es @ e # fs) = foldl mapping_step (mapped es) (e # fs)"
  by (simp add: mapped_def)

lemma acl_do_simps [simp]:
  "vmm (acl_do e st) = vmm st" "g_allocations (acl_do e st) = g_allocations st"
  "acl_trace (acl_do e st) = acl_trace st @ [e]"
  by (simp_all add: acl_do_def)

lemma release_va_simps [simp]:
  "vmm (release_va st a) = snd (ReleaseMemory (vmm st) a)" "g_allocations (release_va st a) = g_allocations st"
  "acl_trace (release_va st a) = acl_trace st"
  by (simp_all add: release_va_def)

text \<open>
  The invariant: every allocation holds a live address range, and what the driver was asked for and
  not given back is exactly what the allocations record.
\<close>

definition ub_inv :: "UbMemState \<Rightarrow> bool" where
  "ub_inv st \<longleftrightarrow> vmm_inv (vmm st) \<and> strict_keys (g_allocations st) \<and>
     (\<forall>e \<in> set (g_allocations st). vmm_live (vmm st) (fst e) \<noteq> None) \<and>
     outstanding (acl_trace st) = mset (map (pa_handle \<circ> snd) (g_allocations st)) \<and>
     mapped (acl_trace st) = mset (map fst (g_allocations st))"

text \<open>Everything a caller can hold through this module.\<close>

definition resources :: "UbMemState \<Rightarrow>
    (nat \<times> AllocationRecord) list \<times> (nat \<rightharpoonup> nat) \<times> aclrtDrvMemHandle multiset \<times> nat multiset" where
  "resources st = (g_allocations st, vmm_live (vmm st), outstanding (acl_trace st), mapped (acl_trace st))"

lemma ub_inv_resources:
  "ub_inv st \<Longrightarrow> vmm_inv (vmm st') \<Longrightarrow> resources st' = resources st \<Longrightarrow> ub_inv st'"
  unfolding ub_inv_def resources_def by auto


lemma AllocatePhysicalMemory_error: "AllocatePhysicalMemory env type sz d = Inl s \<Longrightarrow> s \<noteq> SUCCESS"
  unfolding AllocatePhysicalMemory_def Let_def
  by (auto split: if_splits sum.splits prod.splits dest: GetSocType_error)

lemma MallocMem_cases:
  assumes "ub_inv st" "vmm_env_ok env" "MallocMem env st type sz ptr_is_null = (r, st')"
  obtains (failed) s where "r = Inl s" "s \<noteq> SUCCESS" "vmm_inv (vmm st')" "resources st' = resources st"
  | (ok) va h vmm' where "r = Inr va" "0 < sz" "ReserveMemory env (vmm st) sz = (Inr va, vmm')"
      "st' = AddAllocation (acl_do (MapMem va h) ((acl_do (MallocPhysical h) st)\<lparr>vmm := vmm'\<rparr>)) va h"
proof -
  have inv: "vmm_inv (vmm st)" using assms(1) by (simp add: ub_inv_def)
  note F = failed and O = ok
  have param: thesis if "r = Inl s" "s \<noteq> SUCCESS" "st' = st" for s
    using F [OF that(1,2)] that(3) inv by simp
  show thesis
  proof (cases "sz > 0 \<and> \<not> ptr_is_null \<and> fst (aclrtGetDevice env) = ACL_ERROR_NONE")
    case False
    obtain ret d where rd: "aclrtGetDevice env = (ret, d)" by fastforce
    then have "(r, st') = (Inl PARAM_INVALID, st) \<or> ret \<noteq> ACL_ERROR_NONE \<and> (r, st') = (Inl (acl_ret env ret), st)"
      using False assms(3) by (cases type) (simp_all add: MallocMem_def split: if_splits)
    then show ?thesis using param [of PARAM_INVALID] param [of "acl_ret env ret"] by auto
  next
    case True
    obtain d where d: "aclrtGetDevice env = (ACL_ERROR_NONE, d)" using True by (metis prod.collapse)
    have t: "type = MEM_HOST \<or> type = MEM_DEVICE" by (cases type) auto
    show ?thesis
    proof (cases "AllocatePhysicalMemory env type sz d")
      case (Inl s)
      then show ?thesis
        using assms(3) True d t param [of s] AllocatePhysicalMemory_error [OF Inl] by (simp add: MallocMem_def)
    next
      case (Inr h)
      note ap = Inr
      obtain r1 vmm' where rm: "ReserveMemory env (vmm st) sz = (r1, vmm')" by fastforce
      show ?thesis
      proof (cases r1)
        case (Inl s)
        note e = vmm.reserve_err [OF inv assms(2) rm [unfolded Inl]]
        have "r = Inl s" "st' = acl_do (FreePhysical h) ((acl_do (MallocPhysical h) st)\<lparr>vmm := vmm'\<rparr>)"
          using assms(3) True d t ap rm Inl by (simp_all add: MallocMem_def Let_def)
        then show ?thesis using F [of s] e by (simp add: resources_def)
      next
        case (Inr va)
        note rm = rm [unfolded Inr]
        note rr = vmm.reserve_release [OF inv assms(2) rm]
        let ?st2 = "(acl_do (MallocPhysical h) st)\<lparr>vmm := vmm'\<rparr>"
        let ?acc = "if type = MEM_HOST then SetDeviceAccessForHostMappedVa env va sz d else SUCCESS"
        have M: "(r, st') = (if aclrtMapMem env va sz h \<noteq> ACL_ERROR_NONE
            then (Inl (acl_ret env (aclrtMapMem env va sz h)), acl_do (FreePhysical h) (release_va ?st2 va))
            else if ?acc \<noteq> SUCCESS
            then (Inl ?acc, acl_do (FreePhysical h) (release_va (acl_do (UnmapMem va) (acl_do (MapMem va h) ?st2)) va))
            else (Inr va, AddAllocation (acl_do (MapMem va h) ?st2) va h))"
          using assms(3) True d t ap rm unfolding MallocMem_def Let_def by simp
        show ?thesis
        proof (cases "aclrtMapMem env va sz h = ACL_ERROR_NONE")
          case False
          then show ?thesis using M F rr by (simp add: resources_def)
        next
          case m: True
          show ?thesis
          proof (cases "?acc = SUCCESS")
            case False
            then show ?thesis using M m F [of ?acc] rr by (simp add: resources_def)
          next
            case True
            then show ?thesis using M m O [of va vmm' h] rm \<open>0 < sz \<and> _\<close> by simp
          qed
        qed
      qed
    qed
  qed
qed

lemma AddAllocation_inv:
  assumes "ub_inv st" "vmm_env_ok env" "ReserveMemory env (vmm st) sz = (Inr va, vmm')"
    "st' = AddAllocation (acl_do (MapMem va h) ((acl_do (MallocPhysical h) st)\<lparr>vmm := vmm'\<rparr>)) va h"
  shows "map_of (g_allocations st) va = None" "ub_inv st'"
    "map_of (g_allocations st') = (map_of (g_allocations st))(va \<mapsto> \<lparr>pa_handle = h, share_handle = 0, exported = False\<rparr>)"
proof -
  have "vmm_inv (vmm st)" using assms(1) by (simp add: ub_inv_def)
  from vmm.reserve_ok [OF this assms(2,3)] obtain len
    where r: "vmm_inv vmm'" "vmm_live (vmm st) va = None" "vmm_live vmm' = (vmm_live (vmm st))(va \<mapsto> len)" by blast
  show new: "map_of (g_allocations st) va = None"
    using assms(1) r(2) by (fastforce simp: ub_inv_def map_of_eq_None_iff)
  show "map_of (g_allocations st') =
      (map_of (g_allocations st))(va \<mapsto> \<lparr>pa_handle = h, share_handle = 0, exported = False\<rparr>)"
    by (simp add: assms(4) AddAllocation_def)
  show "ub_inv st'"
    using assms(1) r new by (simp add: ub_inv_def assms(4) AddAllocation_def map_assign_absent strict_keys_insert)
qed

lemma MallocMem_inv [hixl_inv]:
  assumes "ub_inv st" "vmm_env_ok env"
  shows "ub_inv (snd (MallocMem env st type sz p))"
proof -
  obtain r st' where "MallocMem env st type sz p = (r, st')" by fastforce
  from assms this show ?thesis
  proof (cases rule: MallocMem_cases)
    case (failed s)
    then show ?thesis using ub_inv_resources [OF assms(1)] \<open>MallocMem env st type sz p = (r, st')\<close> by simp
  next
    case (ok va h vmm')
    then show ?thesis using AddAllocation_inv(2) [OF assms ok(3,4)] \<open>MallocMem env st type sz p = (r, st')\<close> by simp
  qed
qed

lemma FreeMem_live:
  assumes "ub_inv st" "map_of (g_allocations st) a = Some rec" "a \<noteq> 0"
  obtains st' where "FreeMem st a = (SUCCESS, st')" "ub_inv st'" "g_allocations st' = map_erase a (g_allocations st)"
    "vmm_live (vmm st') = (vmm_live (vmm st))(a := None)"
    "acl_trace st' = acl_trace st @ [UnmapMem a, FreePhysical (pa_handle rec)]"
proof -
  define st' where "st' = acl_do (FreePhysical (pa_handle rec))
    (release_va (acl_do (UnmapMem a) (RemoveAllocation st a)) a)"
  have inv: "vmm_inv (vmm st)" "strict_keys (g_allocations st)" using assms(1) by (simp_all add: ub_inv_def)
  have f: "FreeMem st a = (SUCCESS, st')" using assms(2,3) by (simp add: FreeMem_def GetPaHandleFromVa_def st'_def)
  have al: "g_allocations st' = map_erase a (g_allocations st)" by (simp add: st'_def RemoveAllocation_def)
  have tr: "acl_trace st' = acl_trace st @ [UnmapMem a, FreePhysical (pa_handle rec)]"
    by (simp add: st'_def RemoveAllocation_def)
  have vm: "vmm st' = snd (ReleaseMemory (vmm st) a)" by (simp add: st'_def RemoveAllocation_def)
  have lv: "vmm_live (vmm st') = (vmm_live (vmm st))(a := None)" unfolding vm by (rule vmm.release_live_upd [OF inv(1)])
  have m: "mset (g_allocations st) = add_mset (a, rec) (mset (map_erase a (g_allocations st)))"
    by (rule mset_map_erase [OF inv(2) assms(2)])
  have "ub_inv st'"
    unfolding ub_inv_def
  proof (intro conjI)
    show "vmm_inv (vmm st')" unfolding vm by (rule vmm.release_inv [OF inv(1)])
    show "strict_keys (g_allocations st')" unfolding al by (rule strict_keys_erase [OF inv(2)])
    show "\<forall>e \<in> set (g_allocations st'). vmm_live (vmm st') (fst e) \<noteq> None"
      using assms(1) unfolding lv al set_map_erase ub_inv_def by auto
    show "outstanding (acl_trace st') = mset (map (pa_handle \<circ> snd) (g_allocations st'))"
      using assms(1) m unfolding tr al ub_inv_def by simp
    show "mapped (acl_trace st') = mset (map fst (g_allocations st'))"
      using assms(1) m unfolding tr al ub_inv_def by simp
  qed
  then show thesis using f al lv tr by (intro that)
qed

lemma FreeMem_dead: "map_of (g_allocations st) a = None \<Longrightarrow> a \<noteq> 0 \<Longrightarrow> FreeMem st a = (FAILED, st)"
  by (simp add: FreeMem_def GetPaHandleFromVa_def)

lemma FreeMem_inv [hixl_inv]:
  assumes "ub_inv st"
  shows "ub_inv (snd (FreeMem st a))"
proof (cases "a = 0 \<or> map_of (g_allocations st) a = None")
  case True
  then have "snd (FreeMem st a) = st" by (auto simp: FreeMem_def GetPaHandleFromVa_def)
  then show ?thesis using assms by simp
next
  case False
  then obtain r where "map_of (g_allocations st) a = Some r" by auto
  then obtain st' where "FreeMem st a = (SUCCESS, st')" "ub_inv st'"
    using FreeMem_live [OF assms] False by blast
  then show ?thesis by simp
qed

lemma ExportToShareableHandle_inv [hixl_inv]:
  assumes "ub_inv st"
  shows "ub_inv (snd (ExportToShareableHandle env st a))"
proof -
  obtain r st' where e: "ExportToShareableHandle env st a = (r, st')" by fastforce
  consider "st' = st" | rec sh where "map_of (g_allocations st) a = Some rec"
      "st' = (acl_do (ExportHandle (pa_handle rec)) st)\<lparr>g_allocations :=
         map_assign a (rec\<lparr>share_handle := sh, exported := True\<rparr>) (g_allocations st)\<rparr>"
    using e by (auto simp: ExportToShareableHandle_def split: option.splits if_splits prod.splits)
  then show ?thesis
  proof cases
    case 1
    then show ?thesis using assms e by simp
  next
    case (2 rec sh)
    have s: "strict_keys (g_allocations st)" using assms by (simp add: ub_inv_def)
    have m: "mset (g_allocations st) = add_mset (a, rec) (mset (map_erase a (g_allocations st)))"
      by (rule mset_map_erase [OF s 2(1)])
    have "(a, rec) \<in> set (g_allocations st)" using 2(1) by (rule map_of_SomeD)
    then have "\<forall>e \<in> set (g_allocations st'). vmm_live (vmm st') (fst e) \<noteq> None"
      using assms 2(2) by (auto simp: ub_inv_def map_assign_def set_map_erase)
    then show ?thesis
      using assms e 2 m strict_keys_assign [OF s] by (simp add: ub_inv_def map_assign_def)
  qed
qed

section \<open>Sequences of calls\<close>

datatype ub_call =
    CallMalloc ub_env MemType nat bool
  | CallFree nat
  | CallExport ub_env nat
  | CallExportForeign ub_env nat nat aclrtDrvMemHandle
  | CallRecordRange ShareHandleInfo
  | CallReleaseRange ShareHandleInfo

fun do_ub_call :: "UbMemState \<Rightarrow> ub_call \<Rightarrow> UbMemState" where
  "do_ub_call st (CallMalloc env type sz p) = snd (MallocMem env st type sz p)"
| "do_ub_call st (CallFree a) = snd (FreeMem st a)"
| "do_ub_call st (CallExport env a) = snd (ExportToShareableHandle env st a)"
| "do_ub_call st (CallExportForeign env a n h) = snd (GetOrExportForeignShareHandle env st a n h)"
| "do_ub_call st (CallRecordRange info) = RecordExportedRange st info"
| "do_ub_call st (CallReleaseRange info) = ReleaseExportedRange st info"

definition ub_calls_ok :: "ub_call list \<Rightarrow> bool" where
  "ub_calls_ok cs \<longleftrightarrow> (\<forall>env type sz p. CallMalloc env type sz p \<in> set cs \<longrightarrow> vmm_env_ok env)"

definition UbMem_init :: UbMemState where
  "UbMem_init = \<lparr>vmm = VirtualMemoryManager_init, g_allocations = [], g_foreign_share_handles = Map.empty,
     g_exported_ranges = Map.empty, acl_trace = []\<rparr>"

lemma UbMem_init_inv: "ub_inv UbMem_init"
  by (simp add: ub_inv_def UbMem_init_def vmm_init_inv outstanding_def mapped_def)

lemma foreign_calls_keep:
  "resources (snd (GetOrExportForeignShareHandle env st a n h)) = resources st"
  "vmm (snd (GetOrExportForeignShareHandle env st a n h)) = vmm st"
  "resources (RecordExportedRange st info) = resources st" "vmm (RecordExportedRange st info) = vmm st"
  "resources (ReleaseExportedRange st info) = resources st" "vmm (ReleaseExportedRange st info) = vmm st"
  by (simp_all add: GetOrExportForeignShareHandle_def RecordExportedRange_def ReleaseExportedRange_def
      resources_def Let_def split: option.splits prod.splits)

lemma do_ub_call_inv [hixl_inv]:
  assumes "ub_inv st" "ub_calls_ok [c]"
  shows "ub_inv (do_ub_call st c)"
proof (cases c)
  case (CallMalloc env type sz p)
  then show ?thesis using assms MallocMem_inv by (simp add: ub_calls_ok_def)
qed (use assms(1) ub_inv_resources [OF assms(1)] in
    \<open>simp_all add: FreeMem_inv ExportToShareableHandle_inv foreign_calls_keep ub_inv_def [of st]\<close>)

lemma ub_calls_inv: "ub_inv st \<Longrightarrow> ub_calls_ok cs \<Longrightarrow> ub_inv (foldl do_ub_call st cs)"
proof (induction cs arbitrary: st)
  case (Cons c cs)
  then have "ub_calls_ok [c]" "ub_calls_ok cs" by (auto simp: ub_calls_ok_def)
  with Cons do_ub_call_inv show ?case by simp
qed simp

text \<open>An allocation that was exported stays so until it is freed.\<close>

lemma do_ub_call_keeps_exported:
  assumes "ub_inv st" "ub_calls_ok [c]" "map_of (g_allocations st) a = Some r" "exported r" "c \<noteq> CallFree a"
  shows "map_of (g_allocations (do_ub_call st c)) a = Some r"
proof (cases c)
  case (CallMalloc env type sz p)
  obtain x st' where m: "MallocMem env st type sz p = (x, st')" by fastforce
  have "vmm_env_ok env" using assms(2) CallMalloc by (simp add: ub_calls_ok_def)
  from assms(1) this m have "map_of (g_allocations st') a = Some r"
  proof (cases rule: MallocMem_cases)
    case (failed s)
    then show ?thesis using assms(3) by (simp add: resources_def)
  next
    case (ok va h vmm')
    note n = AddAllocation_inv [OF assms(1) \<open>vmm_env_ok env\<close> ok(3,4)]
    then show ?thesis using assms(3) by auto
  qed
  then show ?thesis using CallMalloc m by simp
next
  case (CallFree b)
  show ?thesis
  proof (cases "b = 0 \<or> map_of (g_allocations st) b = None")
    case True
    then have "snd (FreeMem st b) = st" by (auto simp: FreeMem_def GetPaHandleFromVa_def)
    then show ?thesis using CallFree assms(3) by simp
  next
    case False
    then obtain q where "map_of (g_allocations st) b = Some q" by auto
    then obtain st' where "FreeMem st b = (SUCCESS, st')" "g_allocations st' = map_erase b (g_allocations st)"
      using FreeMem_live [OF assms(1)] False by blast
    then show ?thesis using CallFree assms(3,5) by (simp add: map_of_map_erase)
  qed
next
  case (CallExport env b)
  then show ?thesis using assms(3,4)
    by (auto simp: ExportToShareableHandle_def split: option.splits prod.splits)
qed (use assms(3) in \<open>simp_all add: foreign_calls_keep [unfolded resources_def prod.inject]\<close>)

lemma ub_calls_keep_exported:
  assumes "ub_inv st" "ub_calls_ok cs" "map_of (g_allocations st) a = Some r" "exported r" "CallFree a \<notin> set cs"
  shows "map_of (g_allocations (foldl do_ub_call st cs)) a = Some r"
  using assms
proof (induction cs arbitrary: st)
  case (Cons c cs)
  have ok: "ub_calls_ok [c]" "ub_calls_ok cs" using Cons.prems(2) by (auto simp: ub_calls_ok_def)
  have "map_of (g_allocations (do_ub_call st c)) a = Some r"
    by (rule do_ub_call_keeps_exported [OF Cons.prems(1) ok(1) Cons.prems(3,4)]) (use Cons.prems(5) in auto)
  with Cons ok do_ub_call_inv [OF Cons.prems(1) ok(1)] show ?case by simp
qed simp

section \<open>Properties\<close>

text \<open>C11: \<open>MallocMem\<close> either returns an address whose range no other live reservation touches and
  records it with its physical handle, or fails and, on every error path after any number of
  acquired resources, leaves the allocations, the address pool, the physical memory and the mappings
  as they were.\<close>

theorem MallocMem_correct:
  assumes "ub_inv st" "vmm_env_ok env" "MallocMem env st type sz ptr_is_null = (r, st')"
  shows "ub_inv st' \<and>
    (case r of
       Inl s \<Rightarrow> s \<noteq> SUCCESS \<and> resources st' = resources st
     | Inr va \<Rightarrow>
         map_of (g_allocations st) va = None \<and>
         (\<exists>h. map_of (g_allocations st') =
                (map_of (g_allocations st))(va \<mapsto> \<lparr>pa_handle = h, share_handle = 0, exported = False\<rparr>)) \<and>
         (\<forall>b m. vmm_live (vmm st) b = Some m \<longrightarrow> {va ..< va + sz} \<inter> {b ..< b + m} = {}))"
proof -
  have inv: "ub_inv st'" using MallocMem_inv [OF assms(1,2), of type sz ptr_is_null] assms(3) by simp
  from assms show ?thesis
  proof (cases rule: MallocMem_cases)
    case (failed s)
    then show ?thesis using inv by simp
  next
    case (ok va h vmm')
    have "vmm_inv (vmm st)" using assms(1) by (simp add: ub_inv_def)
    then show ?thesis
      using ok(1) inv AddAllocation_inv [OF assms(1,2) ok(3,4)] vmm.reserve_apart [OF _ assms(2) ok(3)] by auto
  qed
qed

definition demo_ub :: UbMemState where
  "demo_ub = UbMem_init\<lparr>vmm := demo_vmm\<rparr>"

definition demo_ub_env :: ub_env where
  "demo_ub_env = vmm_env.extend demo_vmm_env
     \<lparr>aclrtGetDevice = (0, 0), aclsysGetVersionNum = None, aclrtGetLogicDevIdByUserDevId = (\<lambda>d. (0, d)),
      aclrtMallocPhysical = (\<lambda>prop sz. (0, 77)), aclrtMapMem = (\<lambda>va sz h. 0),
      aclrtMemSetAccess = (\<lambda>va sz d. 5), aclrtMemExportToShareableHandleV2 = (\<lambda>h. (0, 99))\<rparr>"

lemma demo_ub_inv: "ub_inv demo_ub"
  by (simp add: ub_inv_def demo_ub_def UbMem_init_def demo_vmm_inv outstanding_def mapped_def)

lemma demo_ub_env_ok: "vmm_env_ok demo_ub_env"
  by (simp add: vmm_env_ok_def demo_ub_env_def demo_vmm_env_def vmm_env.defs ACL_ERROR_NONE_def)

definition demo_ub2 :: UbMemState where
  "demo_ub2 = demo_ub\<lparr>vmm := demo_vmm\<lparr>bitmap := [True, True, False],
                                        allocations := [(4096, 1), (4096 + kBlockSize, 1)]\<rparr>,
     g_allocations := [(4096 + kBlockSize, \<lparr>pa_handle = 77, share_handle = 0, exported = False\<rparr>)],
     acl_trace := [MallocPhysical 77, MapMem (4096 + kBlockSize) 77]\<rparr>"

lemma ReserveMemory_demo_ub:
  "ReserveMemory demo_ub_env demo_vmm 5 = (Inr (4096 + kBlockSize),
     demo_vmm\<lparr>bitmap := [True, True, False], allocations := [(4096, 1), (4096 + kBlockSize, 1)]\<rparr>)"
  using demo_reserve by (simp add: ReserveMemory_def demo_vmm_def)

lemma demo_malloc: "MallocMem demo_ub_env demo_ub MEM_DEVICE 5 False = (Inr (4096 + kBlockSize), demo_ub2)"
proof -
  have "AllocatePhysicalMemory demo_ub_env MEM_DEVICE 5 0 = Inr 77"
    by (simp add: AllocatePhysicalMemory_def demo_ub_env_def vmm_env.defs ACL_ERROR_NONE_def)
  moreover have "aclrtGetDevice demo_ub_env = (0, 0)" "aclrtMapMem demo_ub_env = (\<lambda>va sz h. 0)"
    by (simp_all add: demo_ub_env_def vmm_env.defs)
  moreover have "vmm (acl_do e demo_ub) = demo_vmm" for e by (simp add: demo_ub_def)
  ultimately show ?thesis
    using ReserveMemory_demo_ub
    by (simp add: MallocMem_def ACL_ERROR_NONE_def demo_ub2_def AddAllocation_def acl_do_def demo_ub_def
        UbMem_init_def map_assign_def map_insert_def map_erase_def insert_at_def lower_bound_def)
qed

theorem MallocMem_correct_witness: "ub_inv demo_ub2"
  using MallocMem_correct [OF demo_ub_inv demo_ub_env_ok demo_malloc] by blast

text \<open>\<open>FreeMem\<close> of a live allocation unmaps the address, gives the range back to the pool and frees
  exactly the physical handle recorded for it, and touches nothing else; a second free of the
  address is refused without effect.\<close>

lemma FreeMem_correct:
  assumes "ub_inv st" "map_of (g_allocations st) a = Some r" "a \<noteq> 0"
  shows "\<exists>st'. FreeMem st a = (SUCCESS, st') \<and> ub_inv st' \<and>
    map_of (g_allocations st') = (map_of (g_allocations st))(a := None) \<and>
    vmm_live (vmm st') = (vmm_live (vmm st))(a := None) \<and>
    acl_trace st' = acl_trace st @ [UnmapMem a, FreePhysical (pa_handle r)] \<and>
    FreeMem st' a = (FAILED, st')"
proof -
  obtain st' where f: "FreeMem st a = (SUCCESS, st')" "ub_inv st'" "g_allocations st' = map_erase a (g_allocations st)"
    "vmm_live (vmm st') = (vmm_live (vmm st))(a := None)"
    "acl_trace st' = acl_trace st @ [UnmapMem a, FreePhysical (pa_handle r)]"
    using FreeMem_live [OF assms] by blast
  then have "FreeMem st' a = (FAILED, st')" using assms(3) by (intro FreeMem_dead) (simp_all add: map_of_map_erase)
  then show ?thesis using f by (simp add: map_of_map_erase)
qed

lemma demo_ub2_inv: "ub_inv demo_ub2"
  using MallocMem_inv [OF demo_ub_inv demo_ub_env_ok, of MEM_DEVICE 5 False] demo_malloc by simp

theorem FreeMem_correct_witness:
  "\<exists>st'. FreeMem demo_ub2 (4096 + kBlockSize) = (SUCCESS, st') \<and> FreeMem st' (4096 + kBlockSize) = (FAILED, st')"
  using FreeMem_correct [OF demo_ub2_inv, of "4096 + kBlockSize"] by (auto simp: demo_ub2_def)

text \<open>C12: after any sequence of calls on a fresh module, successful or not, the physical memory and the
  mappings the driver still holds for it are exactly those of the recorded allocations; when all of
  them have been freed nothing is leaked.\<close>

theorem UbMem_no_leak:
  assumes "ub_calls_ok cs"
  defines "st \<equiv> foldl do_ub_call UbMem_init cs"
  shows "outstanding (acl_trace st) = mset (map (pa_handle \<circ> snd) (g_allocations st)) \<and>
    mapped (acl_trace st) = mset (map fst (g_allocations st)) \<and>
    (\<forall>va \<in> set (map fst (g_allocations st)). vmm_live (vmm st) va \<noteq> None)"
  using ub_calls_inv [OF UbMem_init_inv assms(1)] unfolding st_def ub_inv_def by auto

theorem UbMem_no_leak_witness:
  "outstanding (acl_trace (foldl do_ub_call UbMem_init [CallMalloc demo_ub_env MEM_HOST 5 False, CallFree 8])) =
   mset (map (pa_handle \<circ> snd) (g_allocations (foldl do_ub_call UbMem_init [CallMalloc demo_ub_env MEM_HOST 5 False, CallFree 8])))"
  using UbMem_no_leak [of "[CallMalloc demo_ub_env MEM_HOST 5 False, CallFree 8]"] demo_ub_env_ok
  by (simp add: ub_calls_ok_def)

text \<open>C30: an allocation is exported at most once. After a successful export, whatever else happens
  short of freeing the address, exporting it again returns the same handle and asks the driver for
  nothing.\<close>

theorem ExportToShareableHandle_once:
  assumes "ub_inv st" "ExportToShareableHandle env st a = (Inr sh, st')"
    and "ub_calls_ok cs" "CallFree a \<notin> set cs"
  shows "ExportToShareableHandle env' (foldl do_ub_call st' cs) a = (Inr sh, foldl do_ub_call st' cs)"
proof -
  obtain r where r: "map_of (g_allocations st') a = Some r" "exported r" "share_handle r = sh"
    using assms(2) by (auto simp: ExportToShareableHandle_def split: option.splits if_splits prod.splits)
  have "ub_inv st'" using ExportToShareableHandle_inv [OF assms(1), of env a] assms(2) by simp
  from ub_calls_keep_exported [OF this assms(3) r(1,2) assms(4)] show ?thesis
    using r by (simp add: ExportToShareableHandle_def)
qed

lemma demo_export:
  "ExportToShareableHandle demo_ub_env demo_ub2 (4096 + kBlockSize) =
     (Inr 99, snd (ExportToShareableHandle demo_ub_env demo_ub2 (4096 + kBlockSize)))"
proof -
  have "aclrtMemExportToShareableHandleV2 demo_ub_env 77 = (0, 99)" by (simp add: demo_ub_env_def vmm_env.defs)
  then show ?thesis by (simp add: ExportToShareableHandle_def demo_ub2_def ACL_ERROR_NONE_def)
qed

theorem ExportToShareableHandle_once_witness:
  "fst (ExportToShareableHandle demo_ub_env (do_ub_call (snd (ExportToShareableHandle demo_ub_env demo_ub2 (4096 + kBlockSize)))
      (CallFree 4096)) (4096 + kBlockSize)) = Inr 99"
  using ExportToShareableHandle_once [OF demo_ub2_inv demo_export, of "[CallFree 4096]" demo_ub_env]
  by (simp add: ub_calls_ok_def)

lemma record_iter:
  assumes "g_exported_ranges st (MakeExportedRangeKey info) = None" "k < 2 ^ 32"
  shows "g_exported_ranges (((\<lambda>s. RecordExportedRange s info) ^^ k) st) (MakeExportedRangeKey info) =
    (if k = 0 then None else Some k)"
  using assms(2)
proof (induction k)
  case (Suc k)
  then have "Suc k < 2 ^ 32" by simp
  with Suc.IH show ?case by (simp add: RecordExportedRange_def Let_def add32_def)
qed (simp add: assms(1))

lemma release_iter:
  assumes "g_exported_ranges st (MakeExportedRangeKey info) = (if k = 0 then None else Some k)"
  shows "g_exported_ranges (((\<lambda>s. ReleaseExportedRange s info) ^^ j) st) (MakeExportedRangeKey info) =
    (if k \<le> j then None else Some (k - j))"
proof (induction j)
  case (Suc j)
  then show ?case by (auto simp: ReleaseExportedRange_def Let_def)
qed (use assms in auto)

text \<open>the ledger of exported ranges counts registrations: after \<open>k\<close> registrations and \<open>j\<close> releases
  of a range it counts as exported exactly when \<open>j < k\<close>.\<close>

lemma ExportedRange_refcount:
  assumes "g_exported_ranges st (MakeExportedRangeKey info) = None" "k < 2 ^ 32"
  shows "IsRangeExportedHere (((\<lambda>s. ReleaseExportedRange s info) ^^ j) (((\<lambda>s. RecordExportedRange s info) ^^ k) st)) info
    \<longleftrightarrow> j < k"
  unfolding IsRangeExportedHere_def release_iter [OF record_iter [OF assms]] by auto

definition demo_share :: ShareHandleInfo where
  "demo_share = \<lparr>sh_va_addr = 1, sh_len = 2, sh_share_handle = 3, sh_is_retained = False, sh_mem_type = MEM_DEVICE\<rparr>"

theorem ExportedRange_refcount_witness:
  "IsRangeExportedHere (((\<lambda>s. ReleaseExportedRange s demo_share) ^^ 1)
     (((\<lambda>s. RecordExportedRange s demo_share) ^^ 2) UbMem_init)) demo_share"
  using ExportedRange_refcount [of UbMem_init demo_share 2 1] by (simp add: UbMem_init_def)

end
