(* ===== verification/Slot_Pool.thy ===== *)
theory Slot_Pool
  imports Hixl_Prelude
begin

text \<open>
  The pool of transfer slots (\<open>TransferSlotPool\<close> in \<open>src/src/llm_datadist/adxl/transfer_slot_pool.cc\<close>).
  A slot owns a runtime context and that context's default stream. Every public operation runs under
  the pool's mutex and is one step. The field \<open>slot_trace\<close> lists what was asked of the runtime and
  succeeded (for creations) or was requested (for destructions), so that leaks are visible;
  \<open>host_mem\<close> is the value of the 64-bit completion flag at each host address; the runtime's answers during a call are a record passed to the call. What the users of a pool rely on
  is the locale \<open>exclusive_pool\<close>.
\<close>

section \<open>State\<close>

record Slot =
  in_use :: bool
  ctx :: nat
  stream :: nat
  host_flag_free_list :: "nat list"

record SlotHandle =
  h_device_id :: int
  slot_index :: nat
  h_ctx :: nat
  h_stream :: nat
  h_dev_const_one :: nat

datatype slot_event =
    CreateContext nat
  | DestroyContext nat
  | StreamAbort nat
  | MallocHost nat
  | FreeHost nat
  | MallocDevice nat
  | FreeDevice nat
  | CopyConstOne nat

record TransferSlotPool =
  device_id :: int
  max_slot_num :: nat
  inited :: bool
  slots :: "Slot list"
  free_list :: "nat list"
  dev_const_one :: nat
  host_mem :: "nat \<Rightarrow> nat"
  slot_trace :: "slot_event list"

definition new_slot :: Slot where
  "new_slot = \<lparr>in_use = False, ctx = 0, stream = 0, host_flag_free_list = []\<rparr>"

definition new_pool :: "int \<Rightarrow> nat \<Rightarrow> TransferSlotPool" where
  "new_pool dev max_num = \<lparr>device_id = dev, max_slot_num = max_num, inited = False, slots = [],
     free_list = [], dev_const_one = 0, host_mem = (\<lambda>p. 0), slot_trace = []\<rparr>"

record slot_env = acl_consts +
  aclrtCreateContext :: "aclError \<times> nat"
  aclrtCtxGetCurrentDefaultStream :: "aclError \<times> nat"
  aclrtSetStreamFailureMode :: "nat \<Rightarrow> aclError"
  aclrtMallocHost :: "aclError \<times> nat"
  aclrtMalloc :: "aclError \<times> nat"
  aclrtMemcpy :: aclError

section \<open>Operations\<close>

definition AclError2AdxlStatus :: "'a acl_consts_scheme \<Rightarrow> aclError \<Rightarrow> status" where
  "AclError2AdxlStatus c ret =
     (if ret = ACL_ERROR_NONE then SUCCESS
      else if ret = ACL_ERROR_RT_STREAM_SYNC_TIMEOUT c then TIMEOUT
      else ret)"

definition slot_do :: "slot_event list \<Rightarrow> TransferSlotPool \<Rightarrow> TransferSlotPool" where
  "slot_do es st = st\<lparr>slot_trace := slot_trace st @ es\<rparr>"

text \<open>Operations on one slot return the new slot and the events.\<close>

definition DestroySlotHostFlagsLocked :: "Slot \<Rightarrow> Slot \<times> slot_event list" where
  "DestroySlotHostFlagsLocked slot =
     (slot\<lparr>host_flag_free_list := []\<rparr>,
      map FreeHost (filter (\<lambda>host_flag. host_flag \<noteq> 0) (host_flag_free_list slot)))"

definition InitSlotLocked :: "'a slot_env_scheme \<Rightarrow> Slot \<Rightarrow> status \<times> Slot \<times> slot_event list" where
  "InitSlotLocked env slot =
     (case aclrtCreateContext env of (ret, c) \<Rightarrow>
        if ret \<noteq> ACL_ERROR_NONE then (AclError2AdxlStatus env ret, slot, [])
        else
          case aclrtCtxGetCurrentDefaultStream env of (acl_ret0, s) \<Rightarrow>
            let acl_ret = (if acl_ret0 = ACL_ERROR_NONE then aclrtSetStreamFailureMode env s else acl_ret0)
            in if acl_ret \<noteq> ACL_ERROR_NONE
               then (AclError2AdxlStatus env acl_ret, slot, [CreateContext c, DestroyContext c])
               else (SUCCESS, slot\<lparr>ctx := c, stream := s\<rparr>, [CreateContext c]))"

definition DestroySlotLocked :: "Slot \<Rightarrow> Slot \<times> slot_event list" where
  "DestroySlotLocked slot =
     (case DestroySlotHostFlagsLocked slot of (slot1, es) \<Rightarrow>
        if ctx slot1 \<noteq> 0 then (slot1\<lparr>ctx := 0, stream := 0\<rparr>, es @ [DestroyContext (ctx slot1)])
        else (slot1\<lparr>stream := 0\<rparr>, es))"

definition EnsureDevConstOneLocked :: "'a slot_env_scheme \<Rightarrow> TransferSlotPool \<Rightarrow> status \<times> TransferSlotPool" where
  "EnsureDevConstOneLocked env st =
     (if dev_const_one st \<noteq> 0 then (SUCCESS, st)
      else
        case aclrtMalloc env of (ret, p) \<Rightarrow>
          if ret \<noteq> ACL_ERROR_NONE then (AclError2AdxlStatus env ret, st)
          else
            let st1 = slot_do [MallocDevice p] (st\<lparr>dev_const_one := p\<rparr>) in
            if aclrtMemcpy env \<noteq> ACL_ERROR_NONE then (AclError2AdxlStatus env (aclrtMemcpy env), st1)
            else (SUCCESS, slot_do [CopyConstOne p] st1))"

definition TransferSlotPool_Initialize :: "'a slot_env_scheme \<Rightarrow> TransferSlotPool \<Rightarrow> status \<times> TransferSlotPool" where
  "TransferSlotPool_Initialize env st =
     (if inited st then (SUCCESS, st)
      else
        case EnsureDevConstOneLocked env st of (ret, st1) \<Rightarrow>
          if ret \<noteq> SUCCESS then (ret, st1)
          else (SUCCESS, st1\<lparr>slots := [], free_list := [], inited := True\<rparr>))"

definition finalize_slot :: "Slot \<Rightarrow> slot_event list" where
  "finalize_slot slot =
     (if in_use slot \<and> stream slot \<noteq> 0 then [StreamAbort (stream slot)] else []) @ snd (DestroySlotLocked slot)"

definition TransferSlotPool_Finalize :: "TransferSlotPool \<Rightarrow> TransferSlotPool" where
  "TransferSlotPool_Finalize st =
     (let st1 = slot_do (concat (map finalize_slot (slots st))) (st\<lparr>slots := [], free_list := []\<rparr>);
          st2 = (if dev_const_one st1 \<noteq> 0
                 then slot_do [FreeDevice (dev_const_one st1)] (st1\<lparr>dev_const_one := 0\<rparr>) else st1)
      in st2\<lparr>inited := False\<rparr>)"

definition FillHandleLocked :: "TransferSlotPool \<Rightarrow> nat \<Rightarrow> Slot \<Rightarrow> SlotHandle" where
  "FillHandleLocked st index slot =
     \<lparr>h_device_id = device_id st, slot_index = index, h_ctx = ctx slot, h_stream = stream slot,
      h_dev_const_one = dev_const_one st\<rparr>"

definition Acquire ::
  "'a slot_env_scheme \<Rightarrow> TransferSlotPool \<Rightarrow> bool \<Rightarrow> (status + SlotHandle) \<times> TransferSlotPool" where
  "Acquire env st handle_is_null =
     (if handle_is_null then (Inl PARAM_INVALID, st)
      else if \<not> inited st then (Inl FAILED, st)
      else if free_list st = [] \<and> \<not> length (slots st) < max_slot_num st then (Inl RESOURCE_EXHAUSTED, st)
      else
        let (index, st1) =
              (if free_list st \<noteq> [] then (hd (free_list st), st\<lparr>free_list := tl (free_list st)\<rparr>)
               else (u32 (length (slots st)), st\<lparr>slots := slots st @ [new_slot]\<rparr>));
            slot = slots st1 ! index;
            (ret, slot1, es) = (if ctx slot = 0 \<or> stream slot = 0 then InitSlotLocked env slot else (SUCCESS, slot, []));
            st2 = slot_do es (st1\<lparr>slots := (slots st1)[index := slot1]\<rparr>)
        in if ret \<noteq> SUCCESS then (Inl ret, st2\<lparr>free_list := free_list st2 @ [index]\<rparr>)
           else
             let slot2 = slot1\<lparr>in_use := True\<rparr> in
             (Inr (FillHandleLocked st2 index slot2), st2\<lparr>slots := (slots st2)[index := slot2]\<rparr>))"

definition Release :: "TransferSlotPool \<Rightarrow> SlotHandle \<Rightarrow> TransferSlotPool" where
  "Release st handle =
     (if slot_index handle \<ge> length (slots st) then st
      else if \<not> in_use (slots st ! slot_index handle) then st
      else st\<lparr>slots := (slots st)[slot_index handle := (slots st ! slot_index handle)\<lparr>in_use := False\<rparr>],
              free_list := free_list st @ [slot_index handle]\<rparr>)"

definition Abort :: "'a slot_env_scheme \<Rightarrow> TransferSlotPool \<Rightarrow> SlotHandle \<Rightarrow> TransferSlotPool" where
  "Abort env st handle =
     (if slot_index handle \<ge> length (slots st) then st
      else
        let i = slot_index handle;
            slot = slots st ! i;
            aborts = (if stream slot \<noteq> 0 then [StreamAbort (stream slot)] else []);
            (slot1, es1) = DestroySlotLocked slot;
            (init_ret, slot2, es2) = InitSlotLocked env slot1
        in slot_do (aborts @ es1 @ es2)
             (st\<lparr>slots := (slots st)[i := slot2\<lparr>in_use := False\<rparr>], free_list := free_list st @ [i]\<rparr>))"

definition kHostFlagInitValue :: nat where "kHostFlagInitValue = 0"

definition AcquireHostFlag ::
  "'a slot_env_scheme \<Rightarrow> TransferSlotPool \<Rightarrow> SlotHandle \<Rightarrow> (status + nat) \<times> TransferSlotPool" where
  "AcquireHostFlag env st handle =
     (if \<not> inited st then (Inl FAILED, st)
      else if \<not> slot_index handle < length (slots st) then (Inl FAILED, st)
      else
        let i = slot_index handle; slot = slots st ! i;
            set_flag = (\<lambda>p st. st\<lparr>host_mem := (host_mem st)(p := kHostFlagInitValue)\<rparr>)
        in if host_flag_free_list slot \<noteq> [] then
             let p = last (host_flag_free_list slot) in
             (Inr p, set_flag p
                (st\<lparr>slots := (slots st)[i := slot\<lparr>host_flag_free_list := butlast (host_flag_free_list slot)\<rparr>]\<rparr>))
           else
             case aclrtMallocHost env of (ret, p) \<Rightarrow>
               if ret \<noteq> ACL_ERROR_NONE then (Inl (AclError2AdxlStatus env ret), st)
               else (Inr p, set_flag p (slot_do [MallocHost p] st)))"

definition ReleaseHostFlag :: "TransferSlotPool \<Rightarrow> SlotHandle \<Rightarrow> nat \<Rightarrow> TransferSlotPool" where
  "ReleaseHostFlag st handle host_flag =
     (if host_flag = 0 then st
      else if \<not> inited st \<or> slot_index handle \<ge> length (slots st) then slot_do [FreeHost host_flag] st
      else
        let i = slot_index handle; slot = slots st ! i in
        st\<lparr>host_mem := (host_mem st)(host_flag := kHostFlagInitValue),
           slots := (slots st)[i := slot\<lparr>host_flag_free_list := host_flag_free_list slot @ [host_flag]\<rparr>]\<rparr>)"

section \<open>Invariant\<close>

fun context_step :: "nat multiset \<Rightarrow> slot_event \<Rightarrow> nat multiset" where
  "context_step M (CreateContext c) = add_mset c M"
| "context_step M (DestroyContext c) = M - {#c#}"
| "context_step M e = M"

definition contexts :: "slot_event list \<Rightarrow> nat multiset" where
  "contexts = foldl context_step {#}"

lemma contexts_append: "contexts (es @ fs) = foldl context_step (contexts es) fs"
  by (simp add: contexts_def)

definition opt_ctx :: "Slot \<Rightarrow> nat multiset" where
  "opt_ctx s = (if ctx s = 0 then {#} else {#ctx s#})"

definition slot_ctxs :: "Slot list \<Rightarrow> nat multiset" where
  "slot_ctxs ss = \<Sum>\<^sub># (image_mset opt_ctx (mset ss))"

definition free_idx :: "Slot list \<Rightarrow> nat set" where
  "free_idx ss = {i. i < length ss \<and> \<not> in_use (ss ! i)}"

definition wf_slot :: "Slot \<Rightarrow> bool" where
  "wf_slot s \<longleftrightarrow> (ctx s = 0 \<longleftrightarrow> stream s = 0) \<and> (in_use s \<longrightarrow> ctx s \<noteq> 0)"

text \<open>
  Every slot index is either handed out or in the free list, exactly once; a slot that is handed out
  has a context and a stream; the contexts that exist are those of the slots.
\<close>

definition pool_inv :: "TransferSlotPool \<Rightarrow> bool" where
  "pool_inv st \<longleftrightarrow>
     (\<forall>s \<in> set (slots st). wf_slot s) \<and>
     distinct (free_list st) \<and> set (free_list st) = free_idx (slots st) \<and>
     length (slots st) \<le> max_slot_num st \<and> max_slot_num st \<le> 2 ^ 32 \<and>
     contexts (slot_trace st) = slot_ctxs (slots st)"

definition held :: "TransferSlotPool \<Rightarrow> nat set" where
  "held st = {i. i < length (slots st) \<and> in_use (slots st ! i)}"

definition slot_env_ok :: "'a slot_env_scheme \<Rightarrow> bool" where
  "slot_env_ok env \<longleftrightarrow>
     (fst (aclrtCreateContext env) = ACL_ERROR_NONE \<longrightarrow> snd (aclrtCreateContext env) \<noteq> 0) \<and>
     (fst (aclrtCtxGetCurrentDefaultStream env) = ACL_ERROR_NONE \<longrightarrow> snd (aclrtCtxGetCurrentDefaultStream env) \<noteq> 0)"

lemma slot_ctxs_update:
  assumes "i < length ss"
  shows "slot_ctxs (ss[i := s]) + opt_ctx (ss ! i) = slot_ctxs ss + opt_ctx s"
proof -
  have "mset ss = add_mset (ss ! i) (mset ss - {#ss ! i#})" using assms by simp
  then have "slot_ctxs ss = opt_ctx (ss ! i) + \<Sum>\<^sub># (image_mset opt_ctx (mset ss - {#ss ! i#}))"
    unfolding slot_ctxs_def by (metis image_mset_add_mset sum_mset.add_mset)
  moreover have "slot_ctxs (ss[i := s]) = opt_ctx s + \<Sum>\<^sub># (image_mset opt_ctx (mset ss - {#ss ! i#}))"
    using assms by (simp add: slot_ctxs_def mset_update)
  ultimately show ?thesis by simp
qed

lemma slot_ctxs_snoc [simp]: "slot_ctxs (ss @ [s]) = slot_ctxs ss + opt_ctx s"
  by (simp add: slot_ctxs_def)

lemma free_idx_update:
  "i < length ss \<Longrightarrow> free_idx (ss[i := s]) = (if in_use s then free_idx ss - {i} else insert i (free_idx ss))"
  by (auto simp: free_idx_def nth_list_update)

lemma free_idx_snoc:
  "free_idx (ss @ [s]) = (if in_use s then free_idx ss else insert (length ss) (free_idx ss))"
  by (auto simp: free_idx_def nth_append less_Suc_eq)

lemma held_free: "held st = {..< length (slots st)} - free_idx (slots st)"
  by (auto simp: held_def free_idx_def)

lemma opt_ctx_cong [simp]: "opt_ctx (s\<lparr>in_use := b\<rparr>) = opt_ctx s" "opt_ctx (s\<lparr>host_flag_free_list := l\<rparr>) = opt_ctx s"
  "opt_ctx new_slot = {#}"
  by (simp_all add: opt_ctx_def new_slot_def)

lemma InitSlot_cases:
  assumes "slot_env_ok env" "InitSlotLocked env slot = (ret, slot1, es)"
  obtains (failed) "ret \<noteq> SUCCESS" "slot1 = slot" "\<And>M. foldl context_step M es = M"
  | (ok) c s where "ret = SUCCESS" "c \<noteq> 0" "s \<noteq> 0" "slot1 = slot\<lparr>ctx := c, stream := s\<rparr>" "es = [CreateContext c]"
proof -
  have err: "AclError2AdxlStatus env r \<noteq> SUCCESS" if "r \<noteq> ACL_ERROR_NONE" for r
    using that by (auto simp: AclError2AdxlStatus_def ACL_ERROR_NONE_def SUCCESS_def TIMEOUT_def)
  show thesis
    using assms failed ok err unfolding InitSlotLocked_def slot_env_ok_def Let_def
    by (auto split: prod.splits if_splits)
qed

lemma DestroySlot_facts:
  assumes "DestroySlotLocked slot = (slot1, es)"
  shows "ctx slot1 = 0" "stream slot1 = 0" "in_use slot1 = in_use slot"
    "foldl context_step M es = M - opt_ctx slot" "host_flag_free_list slot1 = []"
proof -
  have hf: "foldl context_step M (map FreeHost xs) = M" for M xs by (induction xs arbitrary: M) simp_all
  show "ctx slot1 = 0" "stream slot1 = 0" "in_use slot1 = in_use slot"
    "foldl context_step M es = M - opt_ctx slot" "host_flag_free_list slot1 = []"
    using assms by (auto simp: DestroySlotLocked_def DestroySlotHostFlagsLocked_def opt_ctx_def hf split: if_splits)
qed

section \<open>Preservation\<close>

text \<open>Writing one slot, with the events that account for its context.\<close>

lemma slot_write_inv:
  assumes "pool_inv st" "i < length (slots st)" "wf_slot s" "distinct fl" "set fl = free_idx ((slots st)[i := s])"
    "foldl context_step (slot_ctxs (slots st)) es + opt_ctx (slots st ! i) = slot_ctxs (slots st) + opt_ctx s"
  shows "pool_inv (slot_do es (st\<lparr>slots := (slots st)[i := s], free_list := fl\<rparr>))"
proof -
  have "foldl context_step (slot_ctxs (slots st)) es = slot_ctxs ((slots st)[i := s])"
    using slot_ctxs_update [OF assms(2), of s] assms(6) by (metis add_right_cancel)
  moreover have "\<forall>x \<in> set ((slots st)[i := s]). wf_slot x"
    using assms(1,3) by (auto simp: pool_inv_def dest: set_update_subset_insert [THEN subsetD])
  ultimately show ?thesis
    using assms(1,4,5) by (simp add: pool_inv_def slot_do_def contexts_append)
qed

text \<open>The slot \<open>Acquire\<close> works on: taken from the free list, or appended.\<close>

definition acquire_pick :: "TransferSlotPool \<Rightarrow> nat \<times> TransferSlotPool" where
  "acquire_pick st =
     (if free_list st \<noteq> [] then (hd (free_list st), st\<lparr>free_list := tl (free_list st)\<rparr>)
      else (u32 (length (slots st)), st\<lparr>slots := slots st @ [new_slot]\<rparr>))"

lemma acquire_pick_facts:
  assumes "pool_inv st" "free_list st \<noteq> [] \<or> length (slots st) < max_slot_num st" "acquire_pick st = (i, st1)"
  shows "i < length (slots st1)" "\<not> in_use (slots st1 ! i)" "held st1 = held st" "i \<notin> set (free_list st1)"
    "pool_inv (st1\<lparr>free_list := free_list st1 @ [i]\<rparr>)" "inited st1 = inited st"
    "max_slot_num st1 = max_slot_num st"
proof -
  have "i < length (slots st1) \<and> \<not> in_use (slots st1 ! i) \<and> held st1 = held st \<and> i \<notin> set (free_list st1) \<and>
    pool_inv (st1\<lparr>free_list := free_list st1 @ [i]\<rparr>) \<and> inited st1 = inited st \<and> max_slot_num st1 = max_slot_num st"
  proof (cases "free_list st")
    case Nil
    then have len: "length (slots st) < max_slot_num st" using assms(2) by simp
    then have "length (slots st) < 2 ^ 32" using assms(1) by (simp add: pool_inv_def)
    then have i: "i = length (slots st)" "st1 = st\<lparr>slots := slots st @ [new_slot]\<rparr>"
      using assms(3) Nil by (simp_all add: acquire_pick_def)
    have "free_idx (slots st) = {}" using assms(1) Nil by (simp add: pool_inv_def)
    then show ?thesis
      using assms(1) len Nil unfolding i
      by (auto simp: pool_inv_def held_def free_idx_snoc new_slot_def nth_append less_Suc_eq wf_slot_def opt_ctx_def)
  next
    case (Cons j fl)
    then have i: "i = j" "st1 = st\<lparr>free_list := fl\<rparr>" using assms(3) by (simp_all add: acquire_pick_def)
    show ?thesis using assms(1) Cons unfolding i by (auto simp: pool_inv_def held_def free_idx_def)
  qed
  then show "i < length (slots st1)" "\<not> in_use (slots st1 ! i)" "held st1 = held st" "i \<notin> set (free_list st1)"
    "pool_inv (st1\<lparr>free_list := free_list st1 @ [i]\<rparr>)" "inited st1 = inited st"
    "max_slot_num st1 = max_slot_num st"
    by blast+
qed

lemma Acquire_eq:
  assumes "inited st" "free_list st \<noteq> [] \<or> length (slots st) < max_slot_num st" "acquire_pick st = (i, st1)"
    "(if ctx (slots st1 ! i) = 0 \<or> stream (slots st1 ! i) = 0 then InitSlotLocked env (slots st1 ! i)
      else (SUCCESS, slots st1 ! i, [])) = (ret, slot1, es)"
  shows "Acquire env st False =
    (let st2 = slot_do es (st1\<lparr>slots := (slots st1)[i := slot1]\<rparr>) in
     if ret \<noteq> SUCCESS then (Inl ret, st2\<lparr>free_list := free_list st2 @ [i]\<rparr>)
     else (Inr (FillHandleLocked st2 i (slot1\<lparr>in_use := True\<rparr>)),
           st2\<lparr>slots := (slots st2)[i := slot1\<lparr>in_use := True\<rparr>]\<rparr>))"
proof -
  have "\<not> (free_list st = [] \<and> \<not> length (slots st) < max_slot_num st)" using assms(2) by auto
  then show ?thesis
    using assms(1,3,4) unfolding Acquire_def acquire_pick_def [symmetric] by (auto simp: Let_def)
qed

lemma slot_do_simps [simp]:
  "slots (slot_do es st) = slots st" "free_list (slot_do es st) = free_list st" "inited (slot_do es st) = inited st"
  "max_slot_num (slot_do es st) = max_slot_num st" "slot_trace (slot_do es st) = slot_trace st @ es"
  "host_mem (slot_do es st) = host_mem st" "dev_const_one (slot_do es st) = dev_const_one st"
  by (simp_all add: slot_do_def)

lemma held_update:
  "i < length (slots st) \<Longrightarrow>
   held (st\<lparr>slots := (slots st)[i := s]\<rparr>) = (if in_use s then insert i (held st) else held st - {i})"
  by (auto simp: held_def nth_list_update)

lemma held_cong: "slots st' = slots st \<Longrightarrow> held st' = held st" by (simp add: held_def)

lemma held_slot_do [simp]: "held (slot_do es st) = held st" by (simp add: held_def)

lemma Acquire_cases:
  assumes "pool_inv st" "slot_env_ok env" "Acquire env st p = (r, st')"
  obtains (failed) s where "r = Inl s" "s \<noteq> SUCCESS" "pool_inv st'" "held st' = held st"
  | (ok) h where "r = Inr h" "slot_index h \<notin> held st" "held st' = insert (slot_index h) (held st)" "pool_inv st'"
      "slot_index h < length (slots st')" "h_ctx h = ctx (slots st' ! slot_index h)" "h_ctx h \<noteq> 0" "h_stream h \<noteq> 0"
proof (cases "\<not> p \<and> inited st \<and> (free_list st \<noteq> [] \<or> length (slots st) < max_slot_num st)")
  case False
  then have "(r, st') \<in> {(Inl PARAM_INVALID, st), (Inl FAILED, st), (Inl RESOURCE_EXHAUSTED, st)}"
    using assms(3) unfolding Acquire_def by (cases p; cases "inited st") simp_all
  then obtain s where "r = Inl s" "st' = st" "s \<noteq> SUCCESS"
    using status_neq(1,3,5) by blast
  then show ?thesis using failed [of s] assms(1) by simp
next
  case True
  obtain i st1 where pk: "acquire_pick st = (i, st1)" by fastforce
  obtain ret slot1 es where ini: "(if ctx (slots st1 ! i) = 0 \<or> stream (slots st1 ! i) = 0
      then InitSlotLocked env (slots st1 ! i) else (SUCCESS, slots st1 ! i, [])) = (ret, slot1, es)"
    by (metis prod_cases3)
  let ?S = "slots st1" and ?st0 = "st1\<lparr>free_list := free_list st1 @ [i]\<rparr>"
  have "free_list st \<noteq> [] \<or> length (slots st) < max_slot_num st" using True by blast
  note pf = acquire_pick_facts [OF assms(1) this pk] and ae = Acquire_eq [OF _ this pk ini]
  define st2 where "st2 = slot_do es (st1\<lparr>slots := ?S[i := slot1]\<rparr>)"
  have A: "(r, st') = (if ret \<noteq> SUCCESS then (Inl ret, st2\<lparr>free_list := free_list st2 @ [i]\<rparr>)
     else (Inr (FillHandleLocked st2 i (slot1\<lparr>in_use := True\<rparr>)), st2\<lparr>slots := (slots st2)[i := slot1\<lparr>in_use := True\<rparr>]\<rparr>))"
  proof -
    have "inited st" "(r, st') = Acquire env st False" using True assms(3) by simp_all
    then show ?thesis using ae unfolding st2_def Let_def by metis
  qed
  have wf: "wf_slot (?S ! i)" using pf(1,5) by (simp add: pool_inv_def)
  have free: "free_idx ?S = insert i (set (free_list st1))" and dist: "distinct (free_list st1)"
    using pf(5) by (auto simp: pool_inv_def)
  have facts: "(ret = SUCCESS \<longrightarrow> ctx slot1 \<noteq> 0 \<and> stream slot1 \<noteq> 0) \<and> (ret \<noteq> SUCCESS \<longrightarrow> slot1 = ?S ! i) \<and>
      foldl context_step M es + opt_ctx (?S ! i) = M + opt_ctx slot1" for M
  proof (cases "ctx (?S ! i) = 0 \<or> stream (?S ! i) = 0")
    case True
    then have c0: "ctx (?S ! i) = 0" using wf by (auto simp: wf_slot_def)
    from assms(2) have "InitSlotLocked env (?S ! i) = (ret, slot1, es) \<Longrightarrow> ?thesis"
      by (cases rule: InitSlot_cases) (use c0 in \<open>auto simp: opt_ctx_def\<close>)
    then show ?thesis using ini True by simp
  next
    case False
    then show ?thesis using ini by auto
  qed
  show ?thesis
  proof (cases "ret = SUCCESS")
    case False
    then have st': "r = Inl ret" "st' = slot_do es ?st0"
      using A facts pf(1) by (simp_all add: st2_def slot_do_def)
    have "foldl context_step M es = M" for M using facts [of M] False by auto
    then have "pool_inv st'" using pf(5) by (simp add: st'(2) pool_inv_def contexts_append)
    moreover have "held st' = held st" using pf(3) held_cong [of st' st1] st'(2) by simp
    ultimately show ?thesis using failed st'(1) False by blast
  next
    case True
    let ?s = "slot1\<lparr>in_use := True\<rparr>"
    have st': "r = Inr (FillHandleLocked st2 i ?s)"
      "st' = slot_do es (?st0\<lparr>slots := (slots ?st0)[i := ?s], free_list := free_list st1\<rparr>)"
      using A True by (simp_all add: st2_def slot_do_def)
    have "pool_inv st'" unfolding st'(2)
      by (rule slot_write_inv [OF pf(5)])
         (use facts True pf(1,4) free dist in \<open>auto simp: wf_slot_def free_idx_update\<close>)
    moreover have "held st' = insert i (held st)"
      using held_update [of i st1 ?s] pf(1,3) held_cong [of st' "st1\<lparr>slots := ?S[i := ?s]\<rparr>"] st'(2) by simp
    moreover have "i \<notin> held st1" using pf(2) by (simp add: held_def)
    moreover have "ctx slot1 \<noteq> 0" "stream slot1 \<noteq> 0" using facts True by auto
    ultimately show ?thesis
      using ok [OF st'(1)] pf(1,3) st'(2) by (simp add: FillHandleLocked_def)
  qed
qed

lemma Release_facts [hixl_inv]:
  assumes "pool_inv st"
  shows "pool_inv (Release st h)" "held (Release st h) = held st - {slot_index h}"
proof -
  let ?i = "slot_index h"
  have "pool_inv (Release st h) \<and> held (Release st h) = held st - {?i}"
  proof (cases "?i < length (slots st) \<and> in_use (slots st ! ?i)")
    case False
    then have "Release st h = st" by (simp add: Release_def)
    then show ?thesis using assms False by (auto simp: held_def)
  next
    case True
    let ?s = "(slots st ! ?i)\<lparr>in_use := False\<rparr>"
    have R: "Release st h = slot_do [] (st\<lparr>slots := (slots st)[?i := ?s], free_list := free_list st @ [?i]\<rparr>)"
      using True by (simp add: Release_def slot_do_def)
    have wf: "wf_slot (slots st ! ?i)" using assms True by (simp add: pool_inv_def)
    have nf: "?i \<notin> set (free_list st)" using assms True by (simp add: pool_inv_def free_idx_def)
    have "pool_inv (Release st h)" unfolding R
      by (rule slot_write_inv [OF assms])
         (use True wf nf assms in \<open>auto simp: wf_slot_def free_idx_update pool_inv_def\<close>)
    moreover have "held (Release st h) = held st - {?i}"
      using held_update [of ?i st ?s] True held_cong [of "Release st h" "st\<lparr>slots := (slots st)[?i := ?s]\<rparr>"] R by simp
    ultimately show ?thesis by blast
  qed
  then show "pool_inv (Release st h)" "held (Release st h) = held st - {?i}" by blast+
qed

lemma Abort_eq:
  assumes "slot_index h < length (slots st)" "DestroySlotLocked (slots st ! slot_index h) = (slot1, es1)"
    "InitSlotLocked env slot1 = (ret, slot2, es2)"
  shows "Abort env st h = slot_do
    ((if stream (slots st ! slot_index h) \<noteq> 0 then [StreamAbort (stream (slots st ! slot_index h))] else []) @ es1 @ es2)
    (st\<lparr>slots := (slots st)[slot_index h := slot2\<lparr>in_use := False\<rparr>], free_list := free_list st @ [slot_index h]\<rparr>)"
  using assms by (simp add: Abort_def Let_def)

lemma Abort_facts [hixl_inv]:
  assumes "pool_inv st" "slot_env_ok env" "slot_index h \<in> held st"
  shows "pool_inv (Abort env st h)" "held (Abort env st h) = held st - {slot_index h}"
proof -
  let ?i = "slot_index h" and ?old = "slots st ! slot_index h"
  have i: "?i < length (slots st)" "in_use ?old" using assms(3) by (simp_all add: held_def)
  obtain slot1 es1 where D: "DestroySlotLocked ?old = (slot1, es1)" by fastforce
  obtain ret slot2 es2 where I: "InitSlotLocked env slot1 = (ret, slot2, es2)" by (metis prod_cases3)
  note d = DestroySlot_facts [OF D]
  let ?s = "slot2\<lparr>in_use := False\<rparr>"
  have f: "foldl context_step M es2 = M + opt_ctx slot2" "wf_slot ?s" for M
    using assms(2) I by (cases rule: InitSlot_cases; use d in \<open>simp add: opt_ctx_def wf_slot_def\<close>)+
  have ctx0: "opt_ctx ?old \<subseteq># slot_ctxs (slots st)"
  proof -
    have "slot_ctxs ((slots st)[?i := new_slot]) + opt_ctx ?old = slot_ctxs (slots st)"
      using slot_ctxs_update [OF i(1), of new_slot] by simp
    then show ?thesis by (metis mset_subset_eq_add_right)
  qed
  define ab where "ab = (if stream ?old \<noteq> 0 then [StreamAbort (stream ?old)] else [])"
  have A: "Abort env st h = slot_do (ab @ es1 @ es2)
      (st\<lparr>slots := (slots st)[?i := ?s], free_list := free_list st @ [?i]\<rparr>)"
    using Abort_eq [OF i(1) D I] by (simp add: ab_def)
  have nf: "?i \<notin> set (free_list st)" using assms(1) i by (simp add: pool_inv_def free_idx_def)
  have abM: "foldl context_step M ab = M" for M by (simp add: ab_def)
  have "slot_ctxs (slots st) - opt_ctx ?old + opt_ctx ?old = slot_ctxs (slots st)"
    using ctx0 by (rule subset_mset.diff_add)
  then have "foldl context_step (slot_ctxs (slots st)) (ab @ es1 @ es2) + opt_ctx ?old = slot_ctxs (slots st) + opt_ctx ?s"
    unfolding foldl_append abM d(4) f(1) opt_ctx_cong by (metis add.commute add.left_commute)
  then show "pool_inv (Abort env st h)" unfolding A
    by (intro slot_write_inv [OF assms(1) i(1) f(2)])
       (use nf assms(1) i(1) in \<open>simp_all add: free_idx_update pool_inv_def\<close>)
  show "held (Abort env st h) = held st - {?i}"
    using held_update [OF i(1), of ?s] held_cong [of "Abort env st h" "st\<lparr>slots := (slots st)[?i := ?s]\<rparr>"] A by simp
qed

lemma slot_ctxs_flags:
  assumes "i < length ss" "opt_ctx s = opt_ctx (ss ! i)"
  shows "slot_ctxs (ss[i := s]) = slot_ctxs ss"
  using slot_ctxs_update [OF assms(1), of s] assms(2) by simp

lemma flag_write_inv:
  assumes "pool_inv st" "i < length (slots st)" "slots st' = (slots st)[i := (slots st ! i)\<lparr>host_flag_free_list := l\<rparr>]"
    "free_list st' = free_list st" "slot_trace st' = slot_trace st" "max_slot_num st' = max_slot_num st"
  shows "pool_inv st'" "held st' = held st"
proof -
  have wf: "wf_slot (slots st ! i)" using assms(1,2) by (simp add: pool_inv_def)
  have "free_idx (slots st') = free_idx (slots st)"
    using assms(2) by (auto simp: assms(3) free_idx_update) (auto simp: free_idx_def)
  moreover have "slot_ctxs (slots st') = slot_ctxs (slots st)"
    unfolding assms(3) by (rule slot_ctxs_flags [OF assms(2)]) simp
  moreover have "\<forall>x \<in> set (slots st'). wf_slot x"
    using assms(1) wf by (auto simp: assms(3) pool_inv_def wf_slot_def dest!: set_update_subset_insert [THEN subsetD])
  ultimately show "pool_inv st'" using assms by (simp add: pool_inv_def)
  show "held st' = held st" using assms(2,3) by (auto simp: held_def nth_list_update)
qed

lemma AcquireHostFlag_facts [hixl_inv]:
  assumes "pool_inv st"
  shows "pool_inv (snd (AcquireHostFlag env st h))" "held (snd (AcquireHostFlag env st h)) = held st"
proof -
  let ?i = "slot_index h" and ?st' = "snd (AcquireHostFlag env st h)"
  let ?l = "host_flag_free_list (slots st ! ?i)"
  have "pool_inv ?st' \<and> held ?st' = held st"
  proof (cases "inited st \<and> ?i < length (slots st)")
    case False
    then have "?st' = st" by (auto simp: AcquireHostFlag_def)
    then show ?thesis using assms by simp
  next
    case i: True
    show ?thesis
    proof (cases "?l = []")
      case False
      then show ?thesis
        using flag_write_inv [OF assms, of ?i ?st' "butlast ?l"] i by (simp add: AcquireHostFlag_def Let_def)
    next
      case True
      obtain ret p where "aclrtMallocHost env = (ret, p)" by fastforce
      then have "?st' = st \<or> ?st' = (slot_do [MallocHost p] st)\<lparr>host_mem := (host_mem st)(p := kHostFlagInitValue)\<rparr>"
        using i True by (simp add: AcquireHostFlag_def Let_def)
      then show ?thesis using assms by (auto simp: pool_inv_def contexts_append held_def)
    qed
  qed
  then show "pool_inv ?st'" "held ?st' = held st" by blast+
qed

lemma ReleaseHostFlag_facts [hixl_inv]:
  assumes "pool_inv st"
  shows "pool_inv (ReleaseHostFlag st h p)" "held (ReleaseHostFlag st h p) = held st"
proof -
  let ?i = "slot_index h" and ?st' = "ReleaseHostFlag st h p"
  have "pool_inv ?st' \<and> held ?st' = held st"
  proof (cases "p = 0 \<or> \<not> inited st \<or> ?i \<ge> length (slots st)")
    case True
    then show ?thesis
      using assms by (auto simp: ReleaseHostFlag_def pool_inv_def contexts_append)
  next
    case False
    then have "?i < length (slots st)" by simp
    then show ?thesis
      using flag_write_inv [OF assms, of ?i ?st' "host_flag_free_list (slots st ! ?i) @ [p]"] False
      by (simp add: ReleaseHostFlag_def Let_def)
  qed
  then show "pool_inv ?st'" "held ?st' = held st" by blast+
qed

section \<open>The interface of the pool\<close>

text \<open>
  A pool of indices for exclusive use: an index that is handed out is not held by anyone, and giving
  back a held index frees exactly that one. Two ways of giving back (\<open>Release\<close> and \<open>Abort\<close>) are two
  interpretations. The client keeps a map from indices to their owners.
\<close>

locale exclusive_pool =
  fixes acquire :: "'e \<Rightarrow> 's \<Rightarrow> (status + nat) \<times> 's"
    and give_back :: "'e \<Rightarrow> 's \<Rightarrow> nat \<Rightarrow> 's"
    and inv :: "'s \<Rightarrow> bool"
    and in_hand :: "'s \<Rightarrow> nat set"
    and env_ok :: "'e \<Rightarrow> bool"
  assumes acquire_ok: "inv st \<Longrightarrow> env_ok e \<Longrightarrow> acquire e st = (Inr i, st') \<Longrightarrow>
      inv st' \<and> i \<notin> in_hand st \<and> in_hand st' = insert i (in_hand st)"
    and acquire_err: "inv st \<Longrightarrow> env_ok e \<Longrightarrow> acquire e st = (Inl s, st') \<Longrightarrow>
      s \<noteq> SUCCESS \<and> inv st' \<and> in_hand st' = in_hand st"
    and give_back_held: "inv st \<Longrightarrow> env_ok e \<Longrightarrow> i \<in> in_hand st \<Longrightarrow>
      inv (give_back e st i) \<and> in_hand (give_back e st i) = in_hand st - {i}"
begin

lemma acquire_owner:
  assumes "inv st" "env_ok e" "acquire e st = (Inr i, st')" "dom owner = in_hand st"
  shows "owner i = None" "inv st'" "dom (owner(i \<mapsto> c)) = in_hand st'"
  using acquire_ok [OF assms(1-3)] assms(4) by auto

lemma give_back_owner:
  assumes "inv st" "env_ok e" "owner i = Some c" "dom owner = in_hand st"
  shows "inv (give_back e st i)" "dom (owner(i := None)) = in_hand (give_back e st i)"
proof -
  have "i \<in> in_hand st" using assms(3,4) by blast
  from give_back_held [OF assms(1,2) this] show "inv (give_back e st i)"
    "dom (owner(i := None)) = in_hand (give_back e st i)" using assms(4) by auto
qed

end

definition handle_of :: "nat \<Rightarrow> SlotHandle" where
  "handle_of i = \<lparr>h_device_id = 0, slot_index = i, h_ctx = 0, h_stream = 0, h_dev_const_one = 0\<rparr>"

definition acquire_index :: "'a slot_env_scheme \<Rightarrow> TransferSlotPool \<Rightarrow> (status + nat) \<times> TransferSlotPool" where
  "acquire_index env st = map_prod (map_sum id slot_index) id (Acquire env st False)"

lemma acquire_index_cases:
  assumes "pool_inv st" "slot_env_ok env" "acquire_index env st = (r, st')"
  shows "case r of Inl s \<Rightarrow> s \<noteq> SUCCESS \<and> pool_inv st' \<and> held st' = held st
    | Inr i \<Rightarrow> pool_inv st' \<and> i \<notin> held st \<and> held st' = insert i (held st)"
proof -
  obtain q where q: "Acquire env st False = (q, st')" "r = map_sum id slot_index q"
    using assms(3) by (cases "Acquire env st False") (auto simp: acquire_index_def)
  from assms(1,2) q(1) show ?thesis
    by (cases rule: Acquire_cases) (simp_all add: q(2))
qed

lemma acquire_index_ok:
  "pool_inv st \<Longrightarrow> slot_env_ok env \<Longrightarrow> acquire_index env st = (Inr i, st') \<Longrightarrow>
   pool_inv st' \<and> i \<notin> held st \<and> held st' = insert i (held st)"
  using acquire_index_cases [of st env "Inr i" st'] by simp

lemma acquire_index_err:
  "pool_inv st \<Longrightarrow> slot_env_ok env \<Longrightarrow> acquire_index env st = (Inl s, st') \<Longrightarrow>
   s \<noteq> SUCCESS \<and> pool_inv st' \<and> held st' = held st"
  using acquire_index_cases [of st env "Inl s" st'] by simp

interpretation rel: exclusive_pool acquire_index "\<lambda>env st i. Release st (handle_of i)" pool_inv held slot_env_ok
  by unfold_locales (erule (2) acquire_index_ok, erule (2) acquire_index_err,
      simp add: Release_facts handle_of_def)

interpretation abo: exclusive_pool acquire_index "\<lambda>env st i. Abort env st (handle_of i)" pool_inv held slot_env_ok
  by unfold_locales (erule (2) acquire_index_ok, erule (2) acquire_index_err,
      simp add: Abort_facts handle_of_def)

section \<open>Users of the pool\<close>

text \<open>
  Users named by \<open>'c\<close> take slots, give back slots they own by \<open>Release\<close> or \<open>Abort\<close>, and borrow and
  return completion flags. The run stops with \<open>None\<close> if a slot that has an owner is handed out.
\<close>

datatype 'c slot_call =
    Take slot_env 'c
  | GiveBack slot_env 'c nat
  | TearDown slot_env 'c nat
  | BorrowFlag slot_env nat
  | ReturnFlag nat nat

fun do_slot_call ::
  "TransferSlotPool \<times> (nat \<rightharpoonup> 'c) \<Rightarrow> 'c slot_call \<Rightarrow> (TransferSlotPool \<times> (nat \<rightharpoonup> 'c)) option" where
  "do_slot_call (st, owner) (Take env c) =
     (case acquire_index env st of
        (Inl s, st') \<Rightarrow> Some (st', owner)
      | (Inr i, st') \<Rightarrow> if owner i \<noteq> None then None else Some (st', owner(i \<mapsto> c)))"
| "do_slot_call (st, owner) (GiveBack env c i) =
     (if owner i = Some c then Some (Release st (handle_of i), owner(i := None)) else Some (st, owner))"
| "do_slot_call (st, owner) (TearDown env c i) =
     (if owner i = Some c then Some (Abort env st (handle_of i), owner(i := None)) else Some (st, owner))"
| "do_slot_call (st, owner) (BorrowFlag env i) = Some (snd (AcquireHostFlag env st (handle_of i)), owner)"
| "do_slot_call (st, owner) (ReturnFlag i p) = Some (ReleaseHostFlag st (handle_of i) p, owner)"

fun run_slot_calls ::
  "TransferSlotPool \<times> (nat \<rightharpoonup> 'c) \<Rightarrow> 'c slot_call list \<Rightarrow> (TransferSlotPool \<times> (nat \<rightharpoonup> 'c)) option" where
  "run_slot_calls s [] = Some s"
| "run_slot_calls s (c # cs) = (case do_slot_call s c of None \<Rightarrow> None | Some s' \<Rightarrow> run_slot_calls s' cs)"

fun slot_call_ok :: "'c slot_call \<Rightarrow> bool" where
  "slot_call_ok (Take env c) = slot_env_ok env"
| "slot_call_ok (GiveBack env c i) = slot_env_ok env"
| "slot_call_ok (TearDown env c i) = slot_env_ok env"
| "slot_call_ok (BorrowFlag env i) = True"
| "slot_call_ok (ReturnFlag i p) = True"

lemma do_slot_call_owner:
  assumes "pool_inv st" "dom owner = held st" "slot_call_ok c"
  shows "\<exists>st' owner'. do_slot_call (st, owner) c = Some (st', owner') \<and> pool_inv st' \<and> dom owner' = held st'"
proof (cases c)
  case (Take env d)
  obtain r st' where a: "acquire_index env st = (r, st')" by fastforce
  have ok: "slot_env_ok env" using assms(3) Take by simp
  show ?thesis
  proof (cases r)
    case (Inl s)
    then show ?thesis using acquire_index_err [OF assms(1) ok a [unfolded Inl]] assms(2) Take a by simp
  next
    case (Inr i)
    from rel.acquire_owner [OF assms(1) ok a [unfolded Inr] assms(2)] show ?thesis using Take a Inr by simp
  qed
next
  case (GiveBack env d i)
  then show ?thesis
    using rel.give_back_owner [OF assms(1), of env owner i d] assms by (cases "owner i = Some d") simp_all
next
  case (TearDown env d i)
  then show ?thesis
    using abo.give_back_owner [OF assms(1), of env owner i d] assms by (cases "owner i = Some d") simp_all
qed (use assms in \<open>simp_all add: AcquireHostFlag_facts ReleaseHostFlag_facts\<close>)

lemma run_slot_calls_owner:
  assumes "pool_inv st" "dom owner = held st" "\<forall>c \<in> set cs. slot_call_ok c"
  shows "\<exists>st' owner'. run_slot_calls (st, owner) cs = Some (st', owner') \<and> pool_inv st' \<and> dom owner' = held st'"
  using assms
proof (induction cs arbitrary: st owner)
  case (Cons c cs)
  have "slot_call_ok c" using Cons.prems(3) by simp
  from do_slot_call_owner [OF Cons.prems(1,2) this] obtain st1 owner1
    where s1: "do_slot_call (st, owner) c = Some (st1, owner1)" "pool_inv st1" "dom owner1 = held st1" by blast
  have "\<forall>c \<in> set cs. slot_call_ok c" using Cons.prems(3) by simp
  from Cons.IH [OF s1(2,3) this] s1(1) show ?case by simp
qed simp

lemma max_slot_num_calls:
  "max_slot_num (snd (acquire_index env st)) = max_slot_num st"
  "max_slot_num (Release st h) = max_slot_num st"
  "max_slot_num (Abort env st h) = max_slot_num st"
  "max_slot_num (snd (AcquireHostFlag env st h)) = max_slot_num st"
  "max_slot_num (ReleaseHostFlag st h p) = max_slot_num st"
  by (simp_all add: acquire_index_def Acquire_def Release_def Abort_def AcquireHostFlag_def ReleaseHostFlag_def
      Let_def split: prod.splits)

lemma run_slot_calls_max:
  "run_slot_calls (st, owner) cs = Some (st', owner') \<Longrightarrow> max_slot_num st' = max_slot_num st"
proof (induction cs arbitrary: st owner)
  case (Cons c cs)
  then obtain st1 owner1 where s: "do_slot_call (st, owner) c = Some (st1, owner1)"
    "run_slot_calls (st1, owner1) cs = Some (st', owner')" by (auto split: option.splits)
  have "max_slot_num st1 = max_slot_num st"
  proof (cases c)
    case (Take env d)
    then show ?thesis using s(1) max_slot_num_calls(1) [of env st]
      by (auto split: prod.splits sum.splits if_splits)
  qed (use s(1) max_slot_num_calls in \<open>auto split: if_splits\<close>)
  then show ?case using Cons.IH [OF s(2)] by simp
qed simp

lemma Initialize_inv:
  assumes "TransferSlotPool_Initialize env (new_pool d n) = (SUCCESS, st)" "n \<le> 2 ^ 32"
  shows "pool_inv st" "held st = {}" "max_slot_num st = n"
proof -
  obtain ret p where m: "aclrtMalloc env = (ret, p)" by fastforce
  have "pool_inv st \<and> held st = {} \<and> max_slot_num st = n"
    using assms m
    by (auto simp: TransferSlotPool_Initialize_def new_pool_def EnsureDevConstOneLocked_def Let_def slot_do_def
        pool_inv_def held_def free_idx_def slot_ctxs_def contexts_def split: if_splits)
  then show "pool_inv st" "held st = {}" "max_slot_num st = n" by blast+
qed

lemma finalize_slots_contexts:
  "foldl context_step (slot_ctxs ss + M) (concat (map finalize_slot ss)) = M"
proof (induction ss arbitrary: M)
  case (Cons s ss)
  obtain s1 es where D: "DestroySlotLocked s = (s1, es)" by fastforce
  have "foldl context_step X (finalize_slot s) = X - opt_ctx s" for X
    using DestroySlot_facts(4) [OF D] by (simp add: finalize_slot_def D)
  moreover have "slot_ctxs (s # ss) + M - opt_ctx s = slot_ctxs ss + M" by (simp add: slot_ctxs_def)
  ultimately show ?case using Cons.IH by simp
qed (simp add: slot_ctxs_def)

section \<open>Properties\<close>

text \<open>C9: whatever the users do, in any interleaving of taking, releasing, aborting (each only slots it
  owns) and using completion flags, and whatever the runtime answers, a slot is never handed out
  while it has an owner; at most the configured number of slots is out, each with a live context and
  stream, and no context is leaked on any error path.\<close>

theorem SlotPool_exclusive:
  assumes "TransferSlotPool_Initialize env (new_pool d n) = (SUCCESS, st0)" "n \<le> 2 ^ 32"
    and "\<forall>c \<in> set cs. slot_call_ok c"
  shows "\<exists>st owner. run_slot_calls (st0, Map.empty) cs = Some (st, owner) \<and> dom owner = held st \<and>
    card (dom owner) \<le> n \<and> (\<forall>i \<in> dom owner. ctx (slots st ! i) \<noteq> 0 \<and> stream (slots st ! i) \<noteq> 0) \<and>
    contexts (slot_trace st) = slot_ctxs (slots st)"
proof -
  note i0 = Initialize_inv [OF assms(1,2)]
  obtain st owner where r: "run_slot_calls (st0, Map.empty) cs = Some (st, owner)" "pool_inv st" "dom owner = held st"
    using run_slot_calls_owner [OF i0(1) _ assms(3), of Map.empty] i0(2) by auto
  have len: "length (slots st) \<le> n"
    using r(2) run_slot_calls_max [OF r(1)] i0(3) by (simp add: pool_inv_def)
  have "held st \<subseteq> {..< length (slots st)}" by (auto simp: held_def)
  then have "card (held st) \<le> length (slots st)" using card_mono [OF finite_lessThan] by fastforce
  moreover have "ctx (slots st ! i) \<noteq> 0 \<and> stream (slots st ! i) \<noteq> 0" if "i \<in> held st" for i
    using that r(2) nth_mem [of i "slots st"] by (auto simp: held_def pool_inv_def wf_slot_def)
  ultimately show ?thesis using r len by (auto simp: pool_inv_def)
qed

definition demo_slot_env :: slot_env where
  "demo_slot_env = \<lparr>ACL_ERROR_RT_STREAM_SYNC_TIMEOUT = 507046, ACL_ERROR_RT_FEATURE_NOT_SUPPORT = 207000,
     aclrtCreateContext = (0, 10), aclrtCtxGetCurrentDefaultStream = (0, 20),
     aclrtSetStreamFailureMode = (\<lambda>s. 0), aclrtMallocHost = (0, 30), aclrtMalloc = (0, 40), aclrtMemcpy = 0\<rparr>"

definition demo_pool :: TransferSlotPool where
  "demo_pool = \<lparr>device_id = 0, max_slot_num = 2, inited = True, slots = [], free_list = [],
     dev_const_one = 40, host_mem = (\<lambda>p. 0), slot_trace = [MallocDevice 40, CopyConstOne 40]\<rparr>"

lemma demo_initialize: "TransferSlotPool_Initialize demo_slot_env (new_pool 0 2) = (SUCCESS, demo_pool)"
  by (simp add: TransferSlotPool_Initialize_def EnsureDevConstOneLocked_def new_pool_def demo_slot_env_def
      ACL_ERROR_NONE_def slot_do_def demo_pool_def Let_def)

theorem SlotPool_exclusive_witness:
  "\<exists>st owner. run_slot_calls (demo_pool, Map.empty) [Take demo_slot_env ''a'', TearDown demo_slot_env ''a'' 0] =
     Some (st, owner) \<and> card (dom owner) \<le> 2"
  using SlotPool_exclusive [OF demo_initialize, of "[Take demo_slot_env ''a'', TearDown demo_slot_env ''a'' 0]"]
  by (auto simp: slot_env_ok_def demo_slot_env_def)

text \<open>\<open>Finalize\<close> destroys every context that the pool created and not yet destroyed, frees the device
  constant, and leaves an empty pool that can be initialised again.\<close>

lemma SlotPool_Finalize_releases:
  assumes "pool_inv st"
  shows "contexts (slot_trace (TransferSlotPool_Finalize st)) = {#} \<and>
    slots (TransferSlotPool_Finalize st) = [] \<and> \<not> inited (TransferSlotPool_Finalize st) \<and>
    dev_const_one (TransferSlotPool_Finalize st) = 0 \<and> pool_inv (TransferSlotPool_Finalize st)"
proof -
  let ?es = "concat (map finalize_slot (slots st))"
  have c: "contexts (slot_trace st @ ?es) = {#}"
    using finalize_slots_contexts [of "slots st" "{#}"] assms by (simp add: contexts_append pool_inv_def)
  obtain fs where fs: "slot_trace (TransferSlotPool_Finalize st) = (slot_trace st @ ?es) @ fs" "fs = [] \<or> (\<exists>p. fs = [FreeDevice p])"
    by (cases "dev_const_one st = 0") (auto simp: TransferSlotPool_Finalize_def Let_def)
  then have ct: "contexts (slot_trace (TransferSlotPool_Finalize st)) = {#}"
    using c by (auto simp: contexts_append [of _ fs] simp del: append_assoc)
  have "slots (TransferSlotPool_Finalize st) = []" "free_list (TransferSlotPool_Finalize st) = []"
    "\<not> inited (TransferSlotPool_Finalize st)" "dev_const_one (TransferSlotPool_Finalize st) = 0"
    "max_slot_num (TransferSlotPool_Finalize st) = max_slot_num st"
    by (simp_all add: TransferSlotPool_Finalize_def Let_def)
  then show ?thesis using ct assms by (simp add: pool_inv_def free_idx_def slot_ctxs_def)
qed

definition demo_pool1 :: TransferSlotPool where
  "demo_pool1 = demo_pool\<lparr>slots := [\<lparr>in_use = True, ctx = 10, stream = 20, host_flag_free_list = []\<rparr>],
     slot_trace := [MallocDevice 40, CopyConstOne 40, CreateContext 10]\<rparr>"

lemma demo_pool1_inv: "pool_inv demo_pool1"
  by (auto intro!: gr0I simp: pool_inv_def demo_pool1_def demo_pool_def wf_slot_def free_idx_def contexts_def slot_ctxs_def opt_ctx_def)

theorem SlotPool_Finalize_releases_witness: "contexts (slot_trace (TransferSlotPool_Finalize demo_pool1)) = {#}"
  using SlotPool_Finalize_releases [OF demo_pool1_inv] by blast

text \<open>Calls of \<open>Acquire\<close> in a row, with nothing given back in between: the handles, and whether all calls
  succeeded.\<close>

fun acquires :: "'a slot_env_scheme \<Rightarrow> nat \<Rightarrow> TransferSlotPool \<Rightarrow> SlotHandle list option" where
  "acquires env 0 st = Some []"
| "acquires env (Suc n) st =
     (case Acquire env st False of
        (Inl s, st1) \<Rightarrow> None
      | (Inr h, st1) \<Rightarrow> map_option (Cons h) (acquires env n st1))"

text \<open>The device creates a context and gives its stream.\<close>

definition slots_can_init :: "'a slot_env_scheme \<Rightarrow> bool" where
  "slots_can_init env \<longleftrightarrow>
     fst (aclrtCreateContext env) = ACL_ERROR_NONE \<and> fst (aclrtCtxGetCurrentDefaultStream env) = ACL_ERROR_NONE \<and>
     (\<forall>s. aclrtSetStreamFailureMode env s = ACL_ERROR_NONE)"

lemma slots_can_init_Init:
  assumes "slot_env_ok env" "slots_can_init env"
  obtains c s where "c \<noteq> 0" "s \<noteq> 0" "\<And>slot. InitSlotLocked env slot = (SUCCESS, slot\<lparr>ctx := c, stream := s\<rparr>, [CreateContext c])"
proof -
  obtain c s where "aclrtCreateContext env = (ACL_ERROR_NONE, c)" "aclrtCtxGetCurrentDefaultStream env = (ACL_ERROR_NONE, s)"
    "c \<noteq> 0" "s \<noteq> 0"
    using assms by (cases "aclrtCreateContext env"; cases "aclrtCtxGetCurrentDefaultStream env")
      (auto simp: slot_env_ok_def slots_can_init_def)
  with assms(2) that show thesis by (simp add: InitSlotLocked_def slots_can_init_def)
qed

text \<open>A call that finds a free slot takes the first of the list; a slot with a context keeps it.\<close>

lemma Acquire_free:
  assumes "slot_env_ok env" "slots_can_init env" "inited st" "free_list st = j # fl" "j < length (slots st)"
  obtains h st1 where "Acquire env st False = (Inr h, st1)" "slot_index h = j" "inited st1" "free_list st1 = fl"
    "length (slots st1) = length (slots st)"
    "\<And>i. i < length (slots st) \<Longrightarrow> ctx (slots st ! i) \<noteq> 0 \<Longrightarrow> stream (slots st ! i) \<noteq> 0 \<Longrightarrow>
       ctx (slots st1 ! i) = ctx (slots st ! i) \<and> stream (slots st1 ! i) \<noteq> 0 \<and> (i = j \<longrightarrow> h_ctx h = ctx (slots st ! i))"
proof -
  obtain c s where "c \<noteq> 0" "s \<noteq> 0" and I: "\<And>slot. InitSlotLocked env slot = (SUCCESS, slot\<lparr>ctx := c, stream := s\<rparr>, [CreateContext c])"
    using slots_can_init_Init [OF assms(1,2)] by blast
  have p: "acquire_pick st = (j, st\<lparr>free_list := fl\<rparr>)" using assms(4) by (simp add: acquire_pick_def)
  have free: "free_list st \<noteq> [] \<or> length (slots st) < max_slot_num st" using assms(4) by simp
  obtain slot1 es where init: "(if ctx (slots st ! j) = 0 \<or> stream (slots st ! j) = 0 then InitSlotLocked env (slots st ! j)
      else (SUCCESS, slots st ! j, [])) = (SUCCESS, slot1, es)"
    by (cases "ctx (slots st ! j) = 0 \<or> stream (slots st ! j) = 0") (simp_all add: I)
  have keep: "ctx (slots st ! j) \<noteq> 0 \<Longrightarrow> stream (slots st ! j) \<noteq> 0 \<Longrightarrow> slot1 = slots st ! j"
    using init by simp
  have A: "Acquire env st False = (Inr (FillHandleLocked (slot_do es (st\<lparr>free_list := fl, slots := (slots st)[j := slot1]\<rparr>)) j (slot1\<lparr>in_use := True\<rparr>)),
      slot_do es (st\<lparr>free_list := fl, slots := (slots st)[j := slot1\<lparr>in_use := True\<rparr>]\<rparr>))"
  proof -
    have sl: "slots (st\<lparr>free_list := fl\<rparr>) = slots st" by simp
    have "(if ctx (slots (st\<lparr>free_list := fl\<rparr>) ! j) = 0 \<or> stream (slots (st\<lparr>free_list := fl\<rparr>) ! j) = 0
        then InitSlotLocked env (slots (st\<lparr>free_list := fl\<rparr>) ! j) else (SUCCESS, slots (st\<lparr>free_list := fl\<rparr>) ! j, []))
        = (SUCCESS, slot1, es)" unfolding sl by (rule init)
    from Acquire_eq [OF assms(3) free p this] show ?thesis by (simp add: Let_def slot_do_def)
  qed
  show thesis
  proof (rule that [OF A])
    fix i
    assume "i < length (slots st)" "ctx (slots st ! i) \<noteq> 0" "stream (slots st ! i) \<noteq> 0"
    with keep show "ctx (slots (slot_do es (st\<lparr>free_list := fl, slots := (slots st)[j := slot1\<lparr>in_use := True\<rparr>]\<rparr>)) ! i) = ctx (slots st ! i) \<and>
        stream (slots (slot_do es (st\<lparr>free_list := fl, slots := (slots st)[j := slot1\<lparr>in_use := True\<rparr>]\<rparr>)) ! i) \<noteq> 0 \<and>
        (i = j \<longrightarrow> h_ctx (FillHandleLocked (slot_do es (st\<lparr>free_list := fl, slots := (slots st)[j := slot1]\<rparr>)) j (slot1\<lparr>in_use := True\<rparr>)) = ctx (slots st ! i))"
      by (cases "i = j") (simp_all add: slot_do_def FillHandleLocked_def)
  qed (simp_all add: slot_do_def FillHandleLocked_def assms(3))
qed

lemma acquires_free_list:
  assumes "slot_env_ok env" "slots_can_init env" "inited st" "\<forall>j \<in> set (free_list st). j < length (slots st)"
    and "i < length (slots st)" "ctx (slots st ! i) = c" "c \<noteq> 0" "stream (slots st ! i) \<noteq> 0"
  shows "\<exists>hs. acquires env (length (free_list st)) st = Some hs \<and> map slot_index hs = free_list st \<and>
    (\<forall>h \<in> set hs. slot_index h = i \<longrightarrow> h_ctx h = c)"
  using assms(3-8)
proof (induction "free_list st" arbitrary: st)
  case Nil
  from Nil(1) [symmetric] show ?case by simp
next
  case (Cons j fl)
  have j: "j < length (slots st)" using Cons.prems(2) Cons.hyps(2) [symmetric] by simp
  show ?case
  proof (rule Acquire_free [OF assms(1,2) Cons.prems(1) Cons.hyps(2) [symmetric] j])
    fix h st1
    assume A: "Acquire env st False = (Inr h, st1)" "slot_index h = j" "inited st1" "free_list st1 = fl"
      "length (slots st1) = length (slots st)"
      "\<And>i. i < length (slots st) \<Longrightarrow> ctx (slots st ! i) \<noteq> 0 \<Longrightarrow> stream (slots st ! i) \<noteq> 0 \<Longrightarrow>
         ctx (slots st1 ! i) = ctx (slots st ! i) \<and> stream (slots st1 ! i) \<noteq> 0 \<and> (i = j \<longrightarrow> h_ctx h = ctx (slots st ! i))"
    note B = A(6) [OF Cons.prems(3)]
    have "\<exists>hs. acquires env (length (free_list st1)) st1 = Some hs \<and> map slot_index hs = free_list st1 \<and>
        (\<forall>h \<in> set hs. slot_index h = i \<longrightarrow> h_ctx h = c)"
      by (rule Cons.hyps(1)) (use A B Cons.prems Cons.hyps(2) [symmetric] in simp_all)
    then obtain hs where "acquires env (length fl) st1 = Some hs" "map slot_index hs = fl"
        "\<forall>h \<in> set hs. slot_index h = i \<longrightarrow> h_ctx h = c" using A(4) by auto
    with A B Cons.prems Cons.hyps(2) [symmetric] show ?thesis by auto
  qed
qed

text \<open>C31: \<open>Release\<close> ignores a slot that is not in use, \<open>Abort\<close> does not. In any pool that keeps its
  invariant, aborting a slot that was already given back puts its index into the free list a second
  time. When the free slots, the listed ones and the additional entry, are then acquired one after the
  other and the device creates every context asked for, two of the calls hand out the aborted slot with
  the same context, without a release in between.\<close>

theorem Abort_of_free_slot_shares_slot:
  assumes "pool_inv st" "inited st" "slot_index h < length (slots st)" "\<not> in_use (slots st ! slot_index h)"
    and "slot_env_ok env" "slots_can_init env"
  shows "\<exists>hs k l. acquires env (Suc (length (free_list st))) (Abort env st h) = Some hs \<and> k < l \<and> l < length hs \<and>
    slot_index (hs ! k) = slot_index h \<and> slot_index (hs ! l) = slot_index h \<and> h_ctx (hs ! k) = h_ctx (hs ! l)"
proof -
  let ?i = "slot_index h" and ?st = "Abort env st h"
  obtain c s where cs: "c \<noteq> 0" "s \<noteq> 0" and I: "\<And>slot. InitSlotLocked env slot = (SUCCESS, slot\<lparr>ctx := c, stream := s\<rparr>, [CreateContext c])"
    using slots_can_init_Init [OF assms(5,6)] by blast
  obtain slot1 es1 where D: "DestroySlotLocked (slots st ! ?i) = (slot1, es1)" by fastforce
  have st: "slots ?st = (slots st)[?i := slot1\<lparr>ctx := c, stream := s, in_use := False\<rparr>]"
    "free_list ?st = free_list st @ [?i]" "inited ?st"
    using Abort_eq [OF assms(3) D I] assms(2) by (simp_all add: slot_do_def)
  have fl: "set (free_list st) = {i. i < length (slots st) \<and> \<not> in_use (slots st ! i)}"
    using assms(1) by (simp add: pool_inv_def free_idx_def)
  then have "?i \<in> set (free_list st)" using assms(3,4) by simp
  then obtain k where k: "k < length (free_list st)" "free_list st ! k = ?i" by (auto simp: in_set_conv_nth)
  have "\<exists>hs. acquires env (length (free_list ?st)) ?st = Some hs \<and> map slot_index hs = free_list ?st \<and>
      (\<forall>h' \<in> set hs. slot_index h' = ?i \<longrightarrow> h_ctx h' = c)"
    by (rule acquires_free_list [OF assms(5,6)]) (use st fl assms(3) cs in auto)
  then obtain hs where hs: "acquires env (Suc (length (free_list st))) ?st = Some hs"
    "map slot_index hs = free_list st @ [?i]" "\<forall>h' \<in> set hs. slot_index h' = ?i \<longrightarrow> h_ctx h' = c"
    by (auto simp: st)
  let ?l = "length (free_list st)"
  have len: "length hs = Suc ?l" using arg_cong [OF hs(2), of length] by simp
  have idx: "slot_index (hs ! x) = (free_list st @ [?i]) ! x" if "x < Suc ?l" for x
    using that len by (simp flip: hs(2))
  have "slot_index (hs ! k) = ?i" "slot_index (hs ! ?l) = ?i" using idx [of k] idx [of ?l] k by (simp_all add: nth_append)
  with hs(1,3) k(1) len show ?thesis by (intro exI [of _ hs] exI [of _ k] exI [of _ ?l]) simp
qed

definition demo_pool2 :: TransferSlotPool where
  "demo_pool2 = Release demo_pool1 (handle_of 0)"

lemma demo_pool2_inv: "pool_inv demo_pool2"
  by (auto intro!: gr0I simp: pool_inv_def demo_pool2_def Release_def handle_of_def demo_pool1_def demo_pool_def wf_slot_def free_idx_def
      contexts_def slot_ctxs_def opt_ctx_def)

theorem Abort_of_free_slot_shares_slot_witness:
  "\<exists>hs k l. acquires demo_slot_env 2 (Abort demo_slot_env demo_pool2 (handle_of 0)) = Some hs \<and> k < l \<and> l < length hs \<and>
     slot_index (hs ! k) = 0 \<and> slot_index (hs ! l) = 0 \<and> h_ctx (hs ! k) = h_ctx (hs ! l)"
proof -
  have "inited demo_pool2" "slot_index (handle_of 0) = 0" "length (slots demo_pool2) = 1" "\<not> in_use (slots demo_pool2 ! 0)"
    "free_list demo_pool2 = [0]"
    by (simp_all add: demo_pool2_def Release_def demo_pool1_def demo_pool_def handle_of_def)
  moreover have "slot_env_ok demo_slot_env" "slots_can_init demo_slot_env"
    by (simp_all add: demo_slot_env_def slot_env_ok_def slots_can_init_def ACL_ERROR_NONE_def)
  ultimately show ?thesis
    using Abort_of_free_slot_shares_slot [OF demo_pool2_inv, of "handle_of 0" demo_slot_env]
    by (simp add: numeral_2_eq_2 del: acquires.simps)
qed

text \<open>when the device constant is allocated but the copy of its value fails, \<open>Initialize\<close> fails; but a
  second call finds the pointer set, skips the copy and reports success, so the pool runs with a
  constant that was never written.\<close>

lemma Initialize_retry_skips_copy:
  assumes "aclrtMalloc env = (ACL_ERROR_NONE, p)" "p \<noteq> 0" "aclrtMemcpy env \<noteq> ACL_ERROR_NONE"
  shows "\<exists>s st1 st2. TransferSlotPool_Initialize env (new_pool d n) = (s, st1) \<and> s \<noteq> SUCCESS \<and>
    TransferSlotPool_Initialize env' st1 = (SUCCESS, st2) \<and> inited st2 \<and> dev_const_one st2 = p \<and>
    CopyConstOne p \<notin> set (slot_trace st2)"
proof -
  have "AclError2AdxlStatus env (aclrtMemcpy env) \<noteq> SUCCESS"
    using assms(3) by (auto simp: AclError2AdxlStatus_def ACL_ERROR_NONE_def SUCCESS_def TIMEOUT_def)
  then show ?thesis
    using assms by (simp add: TransferSlotPool_Initialize_def EnsureDevConstOneLocked_def new_pool_def slot_do_def Let_def)
qed

theorem Initialize_retry_skips_copy_witness:
  "\<exists>s st1 st2. TransferSlotPool_Initialize (demo_slot_env\<lparr>aclrtMemcpy := 7\<rparr>) (new_pool 0 2) = (s, st1) \<and> s \<noteq> SUCCESS \<and>
     TransferSlotPool_Initialize demo_slot_env st1 = (SUCCESS, st2) \<and> CopyConstOne 40 \<notin> set (slot_trace st2)"
  using Initialize_retry_skips_copy [of "demo_slot_env\<lparr>aclrtMemcpy := 7\<rparr>" 40 0 2 demo_slot_env]
  by (auto simp: demo_slot_env_def ACL_ERROR_NONE_def)

end
