(* ===== verification/Cache_Manager.thy ===== *)
theory Cache_Manager
  imports Hixl_Prelude
begin

text \<open>
  The cache manager of a data-dist node (\<open>src/src/llm_datadist/cache_mgr/cache_manager.cc\<close>): caches
  by id, and the indices that let a peer find a cache, and its batch inside the cache, by request or
  prefix id. Modelled are registration, allocation, deallocation, the removal of keys and the
  lookups. Copying (\<open>CopyCache\<close> and its helpers) is not. Keyed maps are HOL maps; a map whose
  emptiness decides a branch is a list sorted by key. The memory pool's answers and the status of
  the device table update are arguments.
\<close>

section \<open>Data\<close>

text \<open>The enum has a fixed underlying type, so that a value read from memory may be none of the three.\<close>

datatype CacheMemType = CACHE | BLOCKS | MIX | CacheMemType_other nat

text \<open>\<open>CachePlacement\<close> is a \<open>uint32_t\<close> that requests carry as a number.\<close>

definition CachePlacement_HOST :: nat where "CachePlacement_HOST = 0"
definition CachePlacement_DEVICE :: nat where "CachePlacement_DEVICE = 1"

record CacheKey =
  key_prompt_cluster_id :: nat
  key_prompt_cache_id :: int
  key_prompt_batch_index :: nat
  key_req_id :: nat
  key_prefix_id :: nat
  key_model_id :: nat
  key_is_allocate_blocks :: bool

text \<open>\<open>DataCacheKey\<close>: request or prefix id, and model id.\<close>

type_synonym DataCacheKey = "nat \<times> nat"

record CacheDesc =
  desc_num_tensors :: nat
  desc_data_type :: int
  desc_seq_len_dim_index :: int
  desc_batch_dim_index :: int
  desc_shape :: "int list"
  desc_placement :: nat
  desc_cache_mem_type :: CacheMemType
  desc_remote_accessible :: bool

record CacheEntry =
  num_blocks :: nat
  batch_size :: nat
  seq_len_dim_index :: int
  tensor_size :: nat
  stride :: nat
  ext_ref_count :: int
  placement :: nat
  cache_addrs :: "nat list"
  id_to_batch_index_and_size :: "(nat \<times> nat \<times> nat) list"
  is_owned :: bool
  remote_accessible :: bool
  cache_mem_type :: CacheMemType

record CacheManager =
  cache_id_to_entry :: "int \<rightharpoonup> CacheEntry"
  cache_id_to_tensor_indices :: "int \<rightharpoonup> nat set"
  cache_key_to_id :: "DataCacheKey \<rightharpoonup> int"
  prefix_key_to_id :: "DataCacheKey \<rightharpoonup> int"
  cache_id_and_batch_id_to_cache_key :: "(int \<times> nat) \<rightharpoonup> DataCacheKey"
  enable_remote_cache_accessible :: bool

definition CacheManager_init :: "bool \<Rightarrow> CacheManager" where
  "CacheManager_init access_remote_cache =
     \<lparr>cache_id_to_entry = Map.empty, cache_id_to_tensor_indices = Map.empty, cache_key_to_id = Map.empty,
      prefix_key_to_id = Map.empty, cache_id_and_batch_id_to_cache_key = Map.empty,
      enable_remote_cache_accessible = access_remote_cache\<rparr>"

section \<open>Operations\<close>

definition GetCacheBatchSize :: "CacheDesc \<Rightarrow> status + nat" where
  "GetCacheBatchSize desc =
     (if desc_shape desc = [] then Inr 1
      else if \<not> (desc_batch_dim_index desc \<ge> 0 \<and> nat (desc_batch_dim_index desc) < length (desc_shape desc))
      then Inl LLM_PARAM_INVALID
      else Inr (nat ((desc_shape desc ! nat (desc_batch_dim_index desc)) mod 2 ^ 32)))"

definition RemoveTensorIndices :: "nat set \<Rightarrow> nat set \<Rightarrow> nat set" where
  "RemoveTensorIndices tensor_indices cache_tensor_indices = {i \<in> cache_tensor_indices. i \<notin> tensor_indices}"

definition DoGetCacheEntry :: "CacheManager \<Rightarrow> int \<Rightarrow> CacheEntry option" where
  "DoGetCacheEntry m cache_id = cache_id_to_entry m cache_id"

text \<open>The map is keyed by a 32-bit batch index: the 64-bit index of the argument is converted.\<close>

definition GetCacheKey :: "CacheManager \<Rightarrow> int \<times> nat \<Rightarrow> DataCacheKey option" where
  "GetCacheKey m ib = cache_id_and_batch_id_to_cache_key m (fst ib, u32 (snd ib))"

definition GetCacheEntry_by_id :: "CacheManager \<Rightarrow> int \<Rightarrow> CacheEntry option" where
  "GetCacheEntry_by_id m cache_id = DoGetCacheEntry m cache_id"

definition GetCacheEntry_by_key :: "CacheManager \<Rightarrow> DataCacheKey \<Rightarrow> bool \<Rightarrow> CacheEntry option" where
  "GetCacheEntry_by_key m cache_key is_prefix =
     (case (if is_prefix then prefix_key_to_id m else cache_key_to_id m) cache_key of
        None \<Rightarrow> None
      | Some cache_id \<Rightarrow> DoGetCacheEntry m cache_id)"

definition CreateDataCacheKey :: "CacheKey \<Rightarrow> DataCacheKey \<times> bool" where
  "CreateDataCacheKey key =
     (let is_prefix = (key_prefix_id key \<noteq> UINT64_MAX) in
      ((if is_prefix then key_prefix_id key else key_req_id key, key_model_id key), is_prefix))"

definition CreateCacheEntry :: "CacheDesc \<Rightarrow> nat list \<Rightarrow> int \<Rightarrow> CacheEntry outcome" where
  "CreateCacheEntry desc addrs ts =
     (let tsize = nat (ts mod 2 ^ 64);
          entry = (\<lambda>nb bs sd. Ok \<lparr>num_blocks = nb, batch_size = bs, seq_len_dim_index = desc_seq_len_dim_index desc,
             tensor_size = tsize, stride = sd, ext_ref_count = 0, placement = desc_placement desc,
             cache_addrs = addrs, id_to_batch_index_and_size = [], is_owned = False,
             remote_accessible = desc_remote_accessible desc, cache_mem_type = desc_cache_mem_type desc\<rparr>)
      in case desc_cache_mem_type desc of
           BLOCKS \<Rightarrow>
             (if desc_shape desc = [] then Err LLM_PARAM_INVALID
              else
                let nb = nat (hd (desc_shape desc) mod 2 ^ 64) in
                if nb = 0 then Crash else entry nb 1 (tsize div nb))
         | CACHE \<Rightarrow>
             (case GetCacheBatchSize desc of
                Inl s \<Rightarrow> Err s
              | Inr bs \<Rightarrow> if bs = 0 then Crash else entry 0 bs (tsize div bs))
         | _ \<Rightarrow>
             (case GetCacheBatchSize desc of
                Inl s \<Rightarrow> Err s
              | Inr bs \<Rightarrow> if bs = 0 then Crash else entry bs bs (tsize div bs)))"

text \<open>The loop of \<open>CheckCacheKeys\<close> with the set of keys seen so far.\<close>

fun CheckCacheKeys_loop :: "CacheManager \<Rightarrow> DataCacheKey set \<Rightarrow> CacheKey list \<Rightarrow> status" where
  "CheckCacheKeys_loop m seen [] = SUCCESS"
| "CheckCacheKeys_loop m seen (key # keys) =
     (case CreateDataCacheKey key of (dk, is_prefix) \<Rightarrow>
        if (if is_prefix then prefix_key_to_id m else cache_key_to_id m) dk \<noteq> None then LLM_PARAM_INVALID
        else if dk \<in> seen then LLM_PARAM_INVALID
        else CheckCacheKeys_loop m (insert dk seen) keys)"

definition CheckCacheKeys :: "CacheManager \<Rightarrow> CacheDesc \<Rightarrow> CacheKey list \<Rightarrow> status" where
  "CheckCacheKeys m desc keys =
     (case GetCacheBatchSize desc of
        Inl s \<Rightarrow> s
      | Inr bs \<Rightarrow> if \<not> length keys \<le> bs then LLM_PARAM_INVALID else CheckCacheKeys_loop m {} keys)"

definition emplace :: "'k \<Rightarrow> 'v \<Rightarrow> ('k \<rightharpoonup> 'v) \<Rightarrow> 'k \<rightharpoonup> 'v" where
  "emplace k v m = (if m k = None then m(k \<mapsto> v) else m)"

text \<open>One key of \<open>AddCacheIndices\<close>, then the loop with its counter.\<close>

definition AddCacheIndex ::
  "CacheManager \<Rightarrow> CacheEntry \<Rightarrow> int \<Rightarrow> nat \<Rightarrow> CacheKey \<Rightarrow> CacheManager \<times> CacheEntry" where
  "AddCacheIndex m e cache_id batch_index key =
     (case CreateDataCacheKey key of (dk, is_prefix) \<Rightarrow>
        if num_blocks e > 0 then (m\<lparr>cache_key_to_id := (cache_key_to_id m)(dk \<mapsto> cache_id)\<rparr>, e)
        else if fst dk \<noteq> UINT64_MAX then
          let m1 = (if is_prefix then m\<lparr>prefix_key_to_id := emplace dk cache_id (prefix_key_to_id m)\<rparr>
                    else m\<lparr>cache_key_to_id := emplace dk cache_id (cache_key_to_id m)\<rparr>)
          in (m1\<lparr>cache_id_and_batch_id_to_cache_key :=
                   (cache_id_and_batch_id_to_cache_key m1)((cache_id, batch_index) \<mapsto> dk),
                 cache_id_to_tensor_indices :=
                   (cache_id_to_tensor_indices m1)(cache_id \<mapsto> {0 ..< length (cache_addrs e)})\<rparr>,
              e\<lparr>id_to_batch_index_and_size :=
                  map_assign (fst dk) (batch_index, stride e) (id_to_batch_index_and_size e)\<rparr>)
        else (m, e))"

fun AddCacheIndices_from ::
  "CacheManager \<Rightarrow> CacheEntry \<Rightarrow> int \<Rightarrow> nat \<Rightarrow> CacheKey list \<Rightarrow> CacheManager \<times> CacheEntry" where
  "AddCacheIndices_from m e cache_id batch_index [] = (m, e)"
| "AddCacheIndices_from m e cache_id batch_index (key # keys) =
     (case AddCacheIndex m e cache_id batch_index key of (m1, e1) \<Rightarrow>
        AddCacheIndices_from m1 e1 cache_id (add32 batch_index 1) keys)"

definition AddCacheIndices :: "CacheManager \<Rightarrow> CacheEntry \<Rightarrow> int \<Rightarrow> CacheKey list \<Rightarrow> CacheManager \<times> CacheEntry" where
  "AddCacheIndices m e cache_id keys = AddCacheIndices_from m e cache_id 0 keys"

definition RemoveCacheIndices :: "CacheManager \<Rightarrow> int \<Rightarrow> CacheManager" where
  "RemoveCacheIndices m cache_id =
     m\<lparr>cache_key_to_id := (\<lambda>k. if cache_key_to_id m k = Some cache_id then None else cache_key_to_id m k),
       prefix_key_to_id := (\<lambda>k. if prefix_key_to_id m k = Some cache_id then None else prefix_key_to_id m k),
       cache_id_and_batch_id_to_cache_key :=
         (\<lambda>k. if fst k = cache_id then None else cache_id_and_batch_id_to_cache_key m k),
       cache_id_to_tensor_indices := (cache_id_to_tensor_indices m)(cache_id := None)\<rparr>"

definition RemoveBatchIndex :: "CacheManager \<Rightarrow> CacheEntry \<Rightarrow> int \<Rightarrow> nat \<Rightarrow> CacheManager \<times> CacheEntry" where
  "RemoveBatchIndex m e cache_id batch_id =
     (case map_of (id_to_batch_index_and_size e) batch_id of
        None \<Rightarrow> (m, e)
      | Some (batch_index, sz) \<Rightarrow>
          (m\<lparr>cache_id_and_batch_id_to_cache_key :=
               (cache_id_and_batch_id_to_cache_key m)((cache_id, batch_index) := None)\<rparr>,
           e\<lparr>id_to_batch_index_and_size := map_erase batch_id (id_to_batch_index_and_size e)\<rparr>))"

text \<open>\<open>table_ret\<close> is what the update of the device table returned.\<close>

definition ConvertAclError2Ge :: "'a acl_consts_scheme \<Rightarrow> aclError \<Rightarrow> status" where
  "ConvertAclError2Ge c ret = (if ret = ACL_ERROR_RT_STREAM_SYNC_TIMEOUT c then LLM_TIMEOUT else ret)"

definition UpdateCacheTable :: "'a acl_consts_scheme \<Rightarrow> aclError \<Rightarrow> CacheManager \<Rightarrow> status" where
  "UpdateCacheTable c table_ret m =
     (if \<not> enable_remote_cache_accessible m then SUCCESS
      else if table_ret \<noteq> ACL_ERROR_NONE then ConvertAclError2Ge c table_ret
      else SUCCESS)"

definition RegisterCacheEntry ::
  "'a acl_consts_scheme \<Rightarrow> aclError \<Rightarrow> CacheManager \<Rightarrow> int \<Rightarrow> CacheKey list \<Rightarrow> CacheDesc \<Rightarrow> nat list \<Rightarrow> int \<Rightarrow>
   (status \<times> CacheManager) outcome" where
  "RegisterCacheEntry c table_ret m cache_id keys desc addrs ts =
     (case CreateCacheEntry desc addrs ts of
        Crash \<Rightarrow> Crash
      | Err s \<Rightarrow> Ok (s, m)
      | Ok e \<Rightarrow>
          (case AddCacheIndices m e cache_id keys of (m1, e1) \<Rightarrow>
             let m2 = m1\<lparr>cache_id_to_entry := (cache_id_to_entry m1)(cache_id \<mapsto> e1)\<rparr>
             in Ok (UpdateCacheTable c table_ret m2, m2)))"

definition UnregisterCacheEntry ::
  "'a acl_consts_scheme \<Rightarrow> aclError \<Rightarrow> CacheManager \<Rightarrow> int \<Rightarrow> status \<times> CacheManager" where
  "UnregisterCacheEntry c table_ret m cache_id =
     (if cache_id_to_entry m cache_id = None then (SUCCESS, m)
      else
        let m1 = RemoveCacheIndices m cache_id;
            m2 = m1\<lparr>cache_id_to_entry := (cache_id_to_entry m1)(cache_id := None)\<rparr>
        in (UpdateCacheTable c table_ret m2, m2))"

text \<open>
  Allocation asks the pool of the placement for one block per tensor; \<open>pool\<close> gives the answers
  (\<open>None\<close> the pool is absent, an inner \<open>None\<close> is a failed allocation), \<open>tensor_mem_size\<close> is the result
  of \<open>CalcTensorMemSize\<close>.
\<close>

fun alloc_tensors :: "(nat \<Rightarrow> nat option) \<Rightarrow> nat \<Rightarrow> nat \<Rightarrow> nat list option" where
  "alloc_tensors alloc i 0 = Some []"
| "alloc_tensors alloc i (Suc n) =
     (case alloc i of
        None \<Rightarrow> None
      | Some a \<Rightarrow> (case alloc_tensors alloc (Suc i) n of None \<Rightarrow> None | Some as \<Rightarrow> Some (a # as)))"

definition Allocate ::
  "'a acl_consts_scheme \<Rightarrow> aclError \<Rightarrow> (nat \<Rightarrow> (nat \<Rightarrow> nat option) option) \<Rightarrow> (status + int) \<Rightarrow> CacheManager \<Rightarrow>
   int \<Rightarrow> CacheDesc \<Rightarrow> CacheKey list \<Rightarrow> (status \<times> CacheManager) outcome" where
  "Allocate c table_ret pool tensor_mem_size m cache_id desc keys =
     (case pool (if desc_placement desc = CachePlacement_HOST then CachePlacement_HOST else CachePlacement_DEVICE) of
        None \<Rightarrow> Ok (LLM_FEATURE_NOT_ENABLED, m)
      | Some alloc \<Rightarrow>
          (case tensor_mem_size of
             Inl s \<Rightarrow> Ok (s, m)
           | Inr ts \<Rightarrow>
               (case alloc_tensors alloc 0 (desc_num_tensors desc) of
                  None \<Rightarrow> Ok (LLM_OUT_OF_MEMORY, m)
                | Some addrs \<Rightarrow>
                    (case CreateCacheEntry desc addrs ts of
                       Crash \<Rightarrow> Crash
                     | Err s \<Rightarrow> Ok (s, m)
                     | Ok e0 \<Rightarrow>
                         let e = e0\<lparr>is_owned := True, ext_ref_count := 1\<rparr>; s = CheckCacheKeys m desc keys in
                         if s \<noteq> SUCCESS then Ok (s, m)
                         else if cache_id_to_entry m cache_id \<noteq> None then Ok (LLM_PARAM_INVALID, m)
                         else
                           case AddCacheIndices m e cache_id keys of (m1, e1) \<Rightarrow>
                             let m2 = m1\<lparr>cache_id_to_entry := (cache_id_to_entry m1)(cache_id \<mapsto> e1)\<rparr>
                             in Ok (UpdateCacheTable c table_ret m2, m2)))))"

definition Deallocate ::
  "'a acl_consts_scheme \<Rightarrow> aclError \<Rightarrow> CacheManager \<Rightarrow> int \<Rightarrow> status \<times> CacheManager" where
  "Deallocate c table_ret m cache_id =
     (case cache_id_to_entry m cache_id of
        None \<Rightarrow> (SUCCESS, m)
      | Some e \<Rightarrow>
          if \<not> is_owned e then (SUCCESS, m)
          else if num_blocks e > 0 then
            let m1 = RemoveCacheIndices m cache_id;
                m2 = m1\<lparr>cache_id_to_entry := (cache_id_to_entry m1)(cache_id := None)\<rparr>
            in (UpdateCacheTable c table_ret m2, m2)
          else if id_to_batch_index_and_size e = [] then
            let m1 = m\<lparr>cache_id_to_entry := (cache_id_to_entry m)(cache_id := None)\<rparr>
            in (UpdateCacheTable c table_ret m1, m1)
          else (SUCCESS, m\<lparr>cache_id_to_entry := (cache_id_to_entry m)(cache_id \<mapsto> e\<lparr>ext_ref_count := 0\<rparr>)\<rparr>))"

definition erase_key :: "bool \<Rightarrow> DataCacheKey \<Rightarrow> CacheManager \<Rightarrow> CacheManager" where
  "erase_key is_prefix dk m =
     (if is_prefix then m\<lparr>prefix_key_to_id := (prefix_key_to_id m)(dk := None)\<rparr>
      else m\<lparr>cache_key_to_id := (cache_key_to_id m)(dk := None)\<rparr>)"

definition RemoveCacheKey_data ::
  "'a acl_consts_scheme \<Rightarrow> aclError \<Rightarrow> CacheManager \<Rightarrow> DataCacheKey \<Rightarrow> bool \<Rightarrow> nat set \<Rightarrow> status \<times> CacheManager" where
  "RemoveCacheKey_data c table_ret m dk is_prefix tensor_indices =
     (case (if is_prefix then prefix_key_to_id m else cache_key_to_id m) dk of
        None \<Rightarrow> (SUCCESS, m)
      | Some cache_id \<Rightarrow>
          (case cache_id_to_entry m cache_id of
             None \<Rightarrow> (SUCCESS, erase_key is_prefix dk m)
           | Some e \<Rightarrow>
               if \<not> is_owned e then (SUCCESS, m)
               else
                 let old = (case cache_id_to_tensor_indices m cache_id of None \<Rightarrow> {} | Some s \<Rightarrow> s);
                     left = (if tensor_indices = {} then {} else RemoveTensorIndices tensor_indices old);
                     m1 = m\<lparr>cache_id_to_tensor_indices := (cache_id_to_tensor_indices m)(cache_id \<mapsto> left)\<rparr>
                 in if left \<noteq> {} then (SUCCESS, m1)
                    else
                      case RemoveBatchIndex m1 e cache_id (fst dk) of (m2, e2) \<Rightarrow>
                        let m3 = erase_key is_prefix dk m2;
                            m4 = m3\<lparr>cache_id_to_entry :=
                                   (if ext_ref_count e2 = 0 \<and> id_to_batch_index_and_size e2 = []
                                    then (cache_id_to_entry m3)(cache_id := None)
                                    else (cache_id_to_entry m3)(cache_id \<mapsto> e2))\<rparr>
                        in (UpdateCacheTable c table_ret m4, m4)))"

definition RemoveCacheKey ::
  "'a acl_consts_scheme \<Rightarrow> aclError \<Rightarrow> CacheManager \<Rightarrow> CacheKey \<Rightarrow> status \<times> CacheManager" where
  "RemoveCacheKey c table_ret m key =
     (case CreateDataCacheKey key of (dk, is_prefix) \<Rightarrow> RemoveCacheKey_data c table_ret m dk is_prefix {})"

section \<open>Adding indices\<close>

lemma AddCacheIndex_keeps:
  assumes "AddCacheIndex m e ci b key = (m', e')"
  shows "is_owned e' = is_owned e" "ext_ref_count e' = ext_ref_count e" "num_blocks e' = num_blocks e"
    "stride e' = stride e" "cache_addrs e' = cache_addrs e" "batch_size e' = batch_size e" "tensor_size e' = tensor_size e"
    "cache_id_to_entry m' = cache_id_to_entry m"
    "enable_remote_cache_accessible m' = enable_remote_cache_accessible m"
  using assms by (auto simp: AddCacheIndex_def Let_def split: prod.splits if_splits)

lemma AddCacheIndices_keeps:
  assumes "AddCacheIndices_from m e ci b keys = (m', e')"
  shows "is_owned e' = is_owned e" "ext_ref_count e' = ext_ref_count e" "num_blocks e' = num_blocks e"
    "stride e' = stride e" "cache_addrs e' = cache_addrs e" "batch_size e' = batch_size e" "tensor_size e' = tensor_size e"
    "cache_id_to_entry m' = cache_id_to_entry m"
    "enable_remote_cache_accessible m' = enable_remote_cache_accessible m"
proof -
  have "is_owned e' = is_owned e \<and> ext_ref_count e' = ext_ref_count e \<and> num_blocks e' = num_blocks e \<and>
    stride e' = stride e \<and> cache_addrs e' = cache_addrs e \<and> batch_size e' = batch_size e \<and> tensor_size e' = tensor_size e \<and>
    cache_id_to_entry m' = cache_id_to_entry m \<and> enable_remote_cache_accessible m' = enable_remote_cache_accessible m"
    using assms
  proof (induction keys arbitrary: m e b)
    case (Cons key keys)
    obtain m1 e1 where a: "AddCacheIndex m e ci b key = (m1, e1)" by fastforce
    with Cons.prems have "AddCacheIndices_from m1 e1 ci (add32 b 1) keys = (m', e')" by simp
    from Cons.IH [OF this] AddCacheIndex_keeps [OF a] show ?case by simp
  qed simp
  then show "is_owned e' = is_owned e" "ext_ref_count e' = ext_ref_count e" "num_blocks e' = num_blocks e"
    "stride e' = stride e" "cache_addrs e' = cache_addrs e" "batch_size e' = batch_size e" "tensor_size e' = tensor_size e"
    "cache_id_to_entry m' = cache_id_to_entry m"
    "enable_remote_cache_accessible m' = enable_remote_cache_accessible m"
    by blast+
qed

abbreviation data_key :: "CacheKey \<Rightarrow> DataCacheKey" where "data_key k \<equiv> fst (CreateDataCacheKey k)"
abbreviation prefix_key :: "CacheKey \<Rightarrow> bool" where "prefix_key k \<equiv> snd (CreateDataCacheKey k)"

definition key_map :: "CacheManager \<Rightarrow> bool \<Rightarrow> DataCacheKey \<rightharpoonup> int" where
  "key_map m is_prefix = (if is_prefix then prefix_key_to_id m else cache_key_to_id m)"

text \<open>What one key leaves behind in a cache that is not a block cache.\<close>

lemma AddCacheIndex_indexed:
  assumes "AddCacheIndex m e ci b key = (m', e')" "num_blocks e = 0" "fst (data_key key) \<noteq> UINT64_MAX"
  shows "key_map m' p k = (if p = prefix_key key \<and> k = data_key key \<and> key_map m p k = None then Some ci else key_map m p k)"
    "cache_id_and_batch_id_to_cache_key m' = (cache_id_and_batch_id_to_cache_key m)((ci, b) \<mapsto> data_key key)"
    "map_of (id_to_batch_index_and_size e') =
       (map_of (id_to_batch_index_and_size e))(fst (data_key key) \<mapsto> (b, stride e))"
  using assms by (auto simp: AddCacheIndex_def key_map_def emplace_def Let_def split: prod.splits if_splits)

lemma AddCacheIndex_skipped:
  "num_blocks e = 0 \<Longrightarrow> fst (data_key key) = UINT64_MAX \<Longrightarrow> AddCacheIndex m e ci b key = (m, e)"
  by (auto simp: AddCacheIndex_def split: prod.splits)

text \<open>Later keys do not disturb what an earlier one recorded, unless they have the same first
  component.\<close>

lemma AddCacheIndices_other:
  assumes "AddCacheIndices_from m e ci b keys = (m', e')" "num_blocks e = 0" "b + length keys \<le> 2 ^ 32"
  shows "key_map m p k = Some j \<Longrightarrow> key_map m' p k = Some j"
    "b' < b \<Longrightarrow> cache_id_and_batch_id_to_cache_key m' (ci, b') = cache_id_and_batch_id_to_cache_key m (ci, b')"
    "x \<notin> (\<lambda>key. fst (data_key key)) ` set keys \<Longrightarrow>
       map_of (id_to_batch_index_and_size e') x = map_of (id_to_batch_index_and_size e) x"
proof -
  have "(key_map m p k = Some j \<longrightarrow> key_map m' p k = Some j) \<and>
    (b' < b \<longrightarrow> cache_id_and_batch_id_to_cache_key m' (ci, b') = cache_id_and_batch_id_to_cache_key m (ci, b')) \<and>
    (x \<notin> (\<lambda>key. fst (data_key key)) ` set keys \<longrightarrow>
       map_of (id_to_batch_index_and_size e') x = map_of (id_to_batch_index_and_size e) x)"
    using assms
  proof (induction keys arbitrary: m e b)
    case (Cons key keys)
    obtain m1 e1 where a: "AddCacheIndex m e ci b key = (m1, e1)" by fastforce
    have b1: "add32 b 1 = b + 1 \<or> keys = []" using Cons.prems(3) by (cases keys) (simp_all add: add32_def)
    have r: "AddCacheIndices_from m1 e1 ci (add32 b 1) keys = (m', e')" using a Cons.prems(1) by simp
    have nb: "num_blocks e1 = 0" using AddCacheIndex_keeps(3) [OF a] Cons.prems(2) by simp
    have st: "(key_map m p k = Some j \<longrightarrow> key_map m1 p k = Some j) \<and>
      (b' < b \<longrightarrow> cache_id_and_batch_id_to_cache_key m1 (ci, b') = cache_id_and_batch_id_to_cache_key m (ci, b')) \<and>
      (x \<noteq> fst (data_key key) \<longrightarrow> map_of (id_to_batch_index_and_size e1) x = map_of (id_to_batch_index_and_size e) x)"
    proof (cases "fst (data_key key) = UINT64_MAX")
      case True
      then show ?thesis using AddCacheIndex_skipped [OF Cons.prems(2) True, of m ci b] a by simp
    next
      case False
      show ?thesis using AddCacheIndex_indexed [OF a Cons.prems(2) False] by auto
    qed
    show ?case
    proof (cases "keys = []")
      case True
      then show ?thesis using r st by auto
    next
      case False
      with b1 have b1: "add32 b 1 = b + 1" by simp
      from Cons.IH [OF r [unfolded b1] nb] st Cons.prems(3) show ?thesis by auto
    qed
  qed simp
  then show "key_map m p k = Some j \<Longrightarrow> key_map m' p k = Some j"
    "b' < b \<Longrightarrow> cache_id_and_batch_id_to_cache_key m' (ci, b') = cache_id_and_batch_id_to_cache_key m (ci, b')"
    "x \<notin> (\<lambda>key. fst (data_key key)) ` set keys \<Longrightarrow>
       map_of (id_to_batch_index_and_size e') x = map_of (id_to_batch_index_and_size e) x"
    by blast+
qed

lemma AddCacheIndices_nth:
  assumes "AddCacheIndices_from m e ci b keys = (m', e')" "num_blocks e = 0" "b + length keys \<le> 2 ^ 32"
    "i < length keys" "fst (data_key (keys ! i)) \<noteq> UINT64_MAX"
    "key_map m (prefix_key (keys ! i)) (data_key (keys ! i)) \<in> {None, Some ci}"
  shows "key_map m' (prefix_key (keys ! i)) (data_key (keys ! i)) = Some ci \<and>
    cache_id_and_batch_id_to_cache_key m' (ci, b + i) = Some (data_key (keys ! i)) \<and>
    (fst (data_key (keys ! i)) \<notin> (\<lambda>key. fst (data_key key)) ` set (drop (Suc i) keys) \<longrightarrow>
      map_of (id_to_batch_index_and_size e') (fst (data_key (keys ! i))) = Some (b + i, stride e))"
  using assms
proof (induction keys arbitrary: m e b i)
  case (Cons key keys)
  obtain m1 e1 where a: "AddCacheIndex m e ci b key = (m1, e1)" by fastforce
  have r: "AddCacheIndices_from m1 e1 ci (add32 b 1) keys = (m', e')" using a Cons.prems(1) by simp
  note keep = AddCacheIndex_keeps [OF a]
  have nb: "num_blocks e1 = 0" using keep(3) Cons.prems(2) by simp
  show ?case
  proof (cases "keys = []")
    case True
    then show ?thesis
      using r Cons.prems(4-6) AddCacheIndex_indexed [OF a Cons.prems(2)] by auto
  next
    case False
    then have b1: "add32 b 1 = b + 1" using Cons.prems(3) by (cases keys) (simp_all add: add32_def)
    have len: "b + 1 + length keys \<le> 2 ^ 32" using Cons.prems(3) by simp
    note r = r [unfolded b1]
    show ?thesis
    proof (cases i)
      case 0
      note idx = AddCacheIndex_indexed [OF a Cons.prems(2)]
      have f: "fst (data_key key) \<noteq> UINT64_MAX" using Cons.prems(5) 0 by simp
      have k1: "key_map m1 (prefix_key key) (data_key key) = Some ci" using idx(1) [OF f, of "prefix_key key" "data_key key"] Cons.prems(6) 0 by auto
      have b2: "cache_id_and_batch_id_to_cache_key m1 (ci, b) = Some (data_key key)" using idx(2) [OF f] by simp
      have i1: "map_of (id_to_batch_index_and_size e1) (fst (data_key key)) = Some (b, stride e)" using idx(3) [OF f] by simp
      show ?thesis
        using AddCacheIndices_other [OF r nb len] k1 b2 i1 0 by simp
    next
      case (Suc n)
      have "key_map m1 (prefix_key (keys ! n)) (data_key (keys ! n)) \<in> {None, Some ci}"
      proof (cases "fst (data_key key) = UINT64_MAX")
        case True
        then show ?thesis
          using AddCacheIndex_skipped [OF Cons.prems(2) True, of m ci b] a Cons.prems(6) Suc by simp
      next
        case False
        then show ?thesis
          using AddCacheIndex_indexed(1) [OF a Cons.prems(2) False] Cons.prems(6) Suc by simp
      qed
      from Cons.IH [OF r nb len _ _ this] Cons.prems(4,5) Suc keep(4) show ?thesis by simp
    qed
  qed
qed simp

section \<open>Allocation\<close>

lemma CheckCacheKeys_loop_ok:
  "CheckCacheKeys_loop m seen keys = SUCCESS \<Longrightarrow> key \<in> set keys \<Longrightarrow> key_map m (prefix_key key) (data_key key) = None"
  by (induction keys arbitrary: seen) (auto simp: key_map_def split: prod.splits if_splits)

lemma CheckCacheKeys_ok:
  assumes "CheckCacheKeys m desc keys = SUCCESS" "GetCacheBatchSize desc = Inr bs"
  shows "length keys \<le> bs" "key \<in> set keys \<Longrightarrow> key_map m (prefix_key key) (data_key key) = None"
  using assms CheckCacheKeys_loop_ok [of m "{}" keys key] by (simp_all add: CheckCacheKeys_def split: if_splits)

lemma GetCacheBatchSize_bound: "GetCacheBatchSize desc = Inr bs \<Longrightarrow> bs < 2 ^ 32"
proof -
  assume "GetCacheBatchSize desc = Inr bs"
  then have "bs = 1 \<or> (\<exists>x. bs = nat (x mod 2 ^ 32))" by (auto simp: GetCacheBatchSize_def split: if_splits)
  moreover have "nat (x mod 2 ^ 32) < 2 ^ 32" for x :: int by (simp add: nat_less_iff)
  ultimately show ?thesis by auto
qed

lemma CreateCacheEntry_CACHE:
  assumes "CreateCacheEntry desc addrs ts = Ok e" "desc_cache_mem_type desc = CACHE"
  obtains bs where "GetCacheBatchSize desc = Inr bs" "0 < bs" "num_blocks e = 0" "batch_size e = bs"
    "stride e = tensor_size e div bs" "id_to_batch_index_and_size e = []" "is_owned e = False" "cache_addrs e = addrs"
  using assms by (auto simp: CreateCacheEntry_def Let_def split: sum.splits if_splits)

lemma CreateCacheEntry_err: "CreateCacheEntry desc addrs ts = Err s \<Longrightarrow> s \<noteq> SUCCESS"
  by (auto simp: CreateCacheEntry_def GetCacheBatchSize_def Let_def split: CacheMemType.splits sum.splits if_splits)

lemma key_map_entries [simp]: "key_map (m\<lparr>cache_id_to_entry := x\<rparr>) = key_map m"
  by (simp add: key_map_def fun_eq_iff)

lemma Allocate_ok:
  assumes "Allocate c t pool (Inr ts) m ci desc keys = Ok (SUCCESS, m')"
  obtains e0 addrs m1 e1 where "CreateCacheEntry desc addrs ts = Ok e0" "CheckCacheKeys m desc keys = SUCCESS"
    "cache_id_to_entry m ci = None"
    "AddCacheIndices_from m (e0\<lparr>is_owned := True, ext_ref_count := 1\<rparr>) ci 0 keys = (m1, e1)"
    "m' = m1\<lparr>cache_id_to_entry := (cache_id_to_entry m1)(ci \<mapsto> e1)\<rparr>"
  using assms unfolding Allocate_def AddCacheIndices_def Let_def
  by (auto split: option.splits outcome.splits prod.splits if_splits dest: CreateCacheEntry_err)

lemma Allocate_indexed:
  assumes "Allocate c t pool (Inr ts) m ci desc keys = Ok (SUCCESS, m')" "desc_cache_mem_type desc = CACHE"
  obtains e where "cache_id_to_entry m' ci = Some e" "is_owned e" "ext_ref_count e = 1" "num_blocks e = 0"
    "length keys \<le> batch_size e" "stride e = tensor_size e div batch_size e"
    "\<And>i. i < length keys \<Longrightarrow> fst (data_key (keys ! i)) \<noteq> UINT64_MAX \<Longrightarrow>
       key_map m' (prefix_key (keys ! i)) (data_key (keys ! i)) = Some ci \<and>
       GetCacheKey m' (ci, i) = Some (data_key (keys ! i)) \<and>
       (fst (data_key (keys ! i)) \<notin> (\<lambda>key. fst (data_key key)) ` set (drop (Suc i) keys) \<longrightarrow>
         map_of (id_to_batch_index_and_size e) (fst (data_key (keys ! i))) = Some (i, stride e))"
proof -
  obtain e0 addrs m1 e1 where A: "CreateCacheEntry desc addrs ts = Ok e0" "CheckCacheKeys m desc keys = SUCCESS"
    "AddCacheIndices_from m (e0\<lparr>is_owned := True, ext_ref_count := 1\<rparr>) ci 0 keys = (m1, e1)"
    "m' = m1\<lparr>cache_id_to_entry := (cache_id_to_entry m1)(ci \<mapsto> e1)\<rparr>"
    using Allocate_ok [OF assms(1)] by metis
  obtain bs where C: "GetCacheBatchSize desc = Inr bs" "0 < bs" "num_blocks e0 = 0" "batch_size e0 = bs"
    "stride e0 = tensor_size e0 div bs"
    using CreateCacheEntry_CACHE [OF A(1) assms(2)] by metis
  note K = CheckCacheKeys_ok [OF A(2) C(1)] and keep = AddCacheIndices_keeps [OF A(3)]
  have len: "0 + length keys \<le> 2 ^ 32" using K(1) GetCacheBatchSize_bound [OF C(1)] by simp
  show thesis
  proof (rule that [of e1])
    show "cache_id_to_entry m' ci = Some e1" by (simp add: A(4))
    show "is_owned e1" "ext_ref_count e1 = 1" "num_blocks e1 = 0" "length keys \<le> batch_size e1"
      "stride e1 = tensor_size e1 div batch_size e1"
      using keep C K(1) by simp_all
    fix i assume i: "i < length keys" "fst (data_key (keys ! i)) \<noteq> UINT64_MAX"
    have u: "u32 i = i" using i(1) len by (intro u32_id) simp
    have "key_map m (prefix_key (keys ! i)) (data_key (keys ! i)) = None" using K(2) i(1) by simp
    with AddCacheIndices_nth [OF A(3) _ len i] C(3) keep(4) u
    show "key_map m' (prefix_key (keys ! i)) (data_key (keys ! i)) = Some ci \<and>
       GetCacheKey m' (ci, i) = Some (data_key (keys ! i)) \<and>
       (fst (data_key (keys ! i)) \<notin> (\<lambda>key. fst (data_key key)) ` set (drop (Suc i) keys) \<longrightarrow>
         map_of (id_to_batch_index_and_size e1) (fst (data_key (keys ! i))) = Some (i, stride e1))"
      by (simp add: A(4) GetCacheKey_def)
  qed
qed

lemma GetCacheEntry_by_key_key_map:
  "GetCacheEntry_by_key m k p = (case key_map m p k of None \<Rightarrow> None | Some ci \<Rightarrow> cache_id_to_entry m ci)"
  by (simp add: GetCacheEntry_by_key_def DoGetCacheEntry_def key_map_def split: option.split)

text \<open>A batch of a cache that is divided evenly lies inside the tensor.\<close>

lemma batch_in_tensor:
  assumes "stride e = tensor_size e div batch_size e" "i < batch_size e"
  shows "i * stride e + stride e \<le> tensor_size e"
proof -
  have "i * stride e + stride e = Suc i * stride e" by simp
  also have "\<dots> \<le> batch_size e * (tensor_size e div batch_size e)"
    unfolding assms(1) using assms(2) by (intro mult_le_mono1) simp
  also have "\<dots> \<le> tensor_size e" by simp
  finally show ?thesis .
qed

text \<open>Allocation leaves what is already in the indices alone.\<close>

lemma Allocate_frame:
  assumes "Allocate c t pool (Inr ts) m ci desc keys = Ok (SUCCESS, m')" "desc_cache_mem_type desc = CACHE"
    and "GetCacheEntry_by_key m k p = Some e"
  shows "GetCacheEntry_by_key m' k p = Some e"
proof (rule Allocate_ok [OF assms(1)])
  fix e0 addrs m1 e1
  assume A: "CreateCacheEntry desc addrs ts = Ok e0" "CheckCacheKeys m desc keys = SUCCESS" "cache_id_to_entry m ci = None"
    "AddCacheIndices_from m (e0\<lparr>is_owned := True, ext_ref_count := 1\<rparr>) ci 0 keys = (m1, e1)"
    "m' = m1\<lparr>cache_id_to_entry := (cache_id_to_entry m1)(ci \<mapsto> e1)\<rparr>"
  obtain bs where C: "GetCacheBatchSize desc = Inr bs" "num_blocks e0 = 0"
    using CreateCacheEntry_CACHE [OF A(1) assms(2)] by metis
  obtain j where j: "key_map m p k = Some j" "cache_id_to_entry m j = Some e"
    using assms(3) by (auto simp: GetCacheEntry_by_key_key_map split: option.splits)
  have "0 + length keys \<le> 2 ^ 32" using CheckCacheKeys_ok(1) [OF A(2) C(1)] GetCacheBatchSize_bound [OF C(1)] by simp
  from AddCacheIndices_other(1) [OF A(4) _ this j(1)] C(2) have "key_map m1 p k = Some j" by simp
  moreover have "j \<noteq> ci" using A(3) j(2) by auto
  ultimately show ?thesis
    using j(2) AddCacheIndices_keeps(8) [OF A(4)] by (simp add: A(5) GetCacheEntry_by_key_key_map)
qed

section \<open>Lifetime\<close>

definition entry_alive :: "CacheEntry \<Rightarrow> bool" where
  "entry_alive e \<longleftrightarrow> (is_owned e \<longrightarrow> ext_ref_count e \<in> {0, 1}) \<and>
     (is_owned e \<and> num_blocks e = 0 \<longrightarrow> ext_ref_count e = 1 \<or> id_to_batch_index_and_size e \<noteq> [])"

definition cm_inv :: "CacheManager \<Rightarrow> bool" where
  "cm_inv m \<longleftrightarrow> (\<forall>ci e. cache_id_to_entry m ci = Some e \<longrightarrow> entry_alive e)"

lemma cm_inv_entries: "cm_inv m \<Longrightarrow> cache_id_to_entry m' = cache_id_to_entry m \<Longrightarrow> cm_inv m'"
  by (simp add: cm_inv_def)

lemma cm_inv_upd: "cm_inv m \<Longrightarrow> entry_alive e \<Longrightarrow> cache_id_to_entry m' = (cache_id_to_entry m)(ci \<mapsto> e) \<Longrightarrow> cm_inv m'"
  by (simp add: cm_inv_def)

lemma cm_inv_erase: "cm_inv m \<Longrightarrow> cache_id_to_entry m' = (cache_id_to_entry m)(ci := None) \<Longrightarrow> cm_inv m'"
  by (simp add: cm_inv_def)

lemma CreateCacheEntry_not_owned: "CreateCacheEntry desc addrs ts = Ok e \<Longrightarrow> \<not> is_owned e"
  by (auto simp: CreateCacheEntry_def Let_def split: CacheMemType.splits sum.splits if_splits)

lemma RegisterCacheEntry_inv [hixl_inv]:
  assumes "cm_inv m" "RegisterCacheEntry c t m ci keys desc addrs ts = Ok (s, m')"
  shows "cm_inv m'"
proof (cases "CreateCacheEntry desc addrs ts")
  case (Ok e)
  obtain m1 e1 where a: "AddCacheIndices_from m e ci 0 keys = (m1, e1)" by fastforce
  then have "m' = m1\<lparr>cache_id_to_entry := (cache_id_to_entry m1)(ci \<mapsto> e1)\<rparr>"
    using assms(2) Ok by (simp add: RegisterCacheEntry_def AddCacheIndices_def Let_def)
  moreover have "entry_alive e1"
    using CreateCacheEntry_not_owned [OF Ok] AddCacheIndices_keeps(1) [OF a] by (simp add: entry_alive_def)
  ultimately show ?thesis using cm_inv_upd [OF assms(1)] AddCacheIndices_keeps(8) [OF a] by simp
qed (use assms in \<open>simp_all add: RegisterCacheEntry_def\<close>)

lemma Allocate_inv [hixl_inv]:
  assumes "cm_inv m" "Allocate c t pool tms m ci desc keys = Ok (s, m')"
  shows "cm_inv m'"
proof -
  have "m' = m \<or> (\<exists>e e1 m1. AddCacheIndices_from m (e\<lparr>is_owned := True, ext_ref_count := 1\<rparr>) ci 0 keys = (m1, e1) \<and>
      m' = m1\<lparr>cache_id_to_entry := (cache_id_to_entry m1)(ci \<mapsto> e1)\<rparr>)"
    using assms(2) unfolding Allocate_def AddCacheIndices_def Let_def
    by (auto split: option.splits outcome.splits sum.splits prod.splits if_splits)
  then show ?thesis
  proof (elim disjE exE conjE)
    fix e e1 m1
    assume a: "AddCacheIndices_from m (e\<lparr>is_owned := True, ext_ref_count := 1\<rparr>) ci 0 keys = (m1, e1)"
      "m' = m1\<lparr>cache_id_to_entry := (cache_id_to_entry m1)(ci \<mapsto> e1)\<rparr>"
    then have "entry_alive e1" using AddCacheIndices_keeps [OF a(1)] by (simp add: entry_alive_def)
    then show ?thesis using cm_inv_upd [OF assms(1)] AddCacheIndices_keeps(8) [OF a(1)] a(2) by simp
  qed (use assms in simp)
qed

lemma UnregisterCacheEntry_inv [hixl_inv]:
  "cm_inv m \<Longrightarrow> cm_inv (snd (UnregisterCacheEntry c t m ci))"
  by (simp add: UnregisterCacheEntry_def RemoveCacheIndices_def cm_inv_def Let_def)

lemma Deallocate_inv [hixl_inv]: "cm_inv m \<Longrightarrow> cm_inv (snd (Deallocate c t m ci))"
  by (auto simp: Deallocate_def RemoveCacheIndices_def cm_inv_def entry_alive_def Let_def split: option.splits)

lemma RemoveBatchIndex_keeps:
  assumes "RemoveBatchIndex m e ci b = (m', e')"
  shows "is_owned e' = is_owned e" "ext_ref_count e' = ext_ref_count e" "num_blocks e' = num_blocks e"
    "cache_id_to_entry m' = cache_id_to_entry m" "cache_key_to_id m' = cache_key_to_id m"
    "prefix_key_to_id m' = prefix_key_to_id m"
  using assms by (auto simp: RemoveBatchIndex_def split: option.splits prod.splits)

lemma RemoveCacheKey_data_inv [hixl_inv]:
  assumes "cm_inv m"
  shows "cm_inv (snd (RemoveCacheKey_data c t m dk p ti))"
proof -
  have er: "cache_id_to_entry (erase_key p dk m') = cache_id_to_entry m'" for m' by (simp add: erase_key_def)
  show ?thesis
  proof (cases "(if p then prefix_key_to_id m else cache_key_to_id m) dk")
    case (Some ci)
    note ci = Some
    show ?thesis
    proof (cases "cache_id_to_entry m ci")
      case None
      then show ?thesis using assms ci er cm_inv_entries by (simp add: RemoveCacheKey_data_def)
    next
      case (Some e)
      have al: "entry_alive e" using assms Some by (simp add: cm_inv_def)
      obtain m2 e2 where rb: "RemoveBatchIndex (m\<lparr>cache_id_to_tensor_indices := (cache_id_to_tensor_indices m)(ci \<mapsto> {})\<rparr>)
          e ci (fst dk) = (m2, e2)" by fastforce
      note k = RemoveBatchIndex_keeps [OF rb]
      have "entry_alive e2 \<or> ext_ref_count e2 = 0 \<and> id_to_batch_index_and_size e2 = []"
        using al k by (auto simp: entry_alive_def)
      then show ?thesis
        using assms ci Some rb k er cm_inv_entries [OF assms]
        by (auto simp: RemoveCacheKey_data_def Let_def cm_inv_def)
    qed
  qed (use assms in \<open>simp add: RemoveCacheKey_data_def\<close>)
qed

section \<open>Sequences of calls\<close>

datatype cm_call =
    CmRegister aclError int "CacheKey list" CacheDesc "nat list" int
  | CmUnregister aclError int
  | CmAllocate aclError "nat \<Rightarrow> (nat \<Rightarrow> nat option) option" "status + int" int CacheDesc "CacheKey list"
  | CmDeallocate aclError int
  | CmRemoveKey aclError CacheKey
  | CmRemoveData aclError DataCacheKey bool "nat set"

fun do_cm_call :: "'a acl_consts_scheme \<Rightarrow> CacheManager \<Rightarrow> cm_call \<Rightarrow> CacheManager option" where
  "do_cm_call c m (CmRegister t ci keys desc addrs ts) =
     (case RegisterCacheEntry c t m ci keys desc addrs ts of Ok (s, m') \<Rightarrow> Some m' | _ \<Rightarrow> None)"
| "do_cm_call c m (CmUnregister t ci) = Some (snd (UnregisterCacheEntry c t m ci))"
| "do_cm_call c m (CmAllocate t pool tms ci desc keys) =
     (case Allocate c t pool tms m ci desc keys of Ok (s, m') \<Rightarrow> Some m' | _ \<Rightarrow> None)"
| "do_cm_call c m (CmDeallocate t ci) = Some (snd (Deallocate c t m ci))"
| "do_cm_call c m (CmRemoveKey t key) = Some (snd (RemoveCacheKey c t m key))"
| "do_cm_call c m (CmRemoveData t dk p ti) = Some (snd (RemoveCacheKey_data c t m dk p ti))"

fun run_cm_calls :: "'a acl_consts_scheme \<Rightarrow> CacheManager \<Rightarrow> cm_call list \<Rightarrow> CacheManager option" where
  "run_cm_calls c m [] = Some m"
| "run_cm_calls c m (x # xs) = (case do_cm_call c m x of None \<Rightarrow> None | Some m' \<Rightarrow> run_cm_calls c m' xs)"

lemma RemoveCacheKey_inv [hixl_inv]: "cm_inv m \<Longrightarrow> cm_inv (snd (RemoveCacheKey c t m key))"
  by (simp add: RemoveCacheKey_def RemoveCacheKey_data_inv split: prod.splits)

lemma do_cm_call_inv: "cm_inv m \<Longrightarrow> do_cm_call c m x = Some m' \<Longrightarrow> cm_inv m'"
  by (cases x) (auto split: outcome.splits prod.splits
      intro: RegisterCacheEntry_inv Allocate_inv UnregisterCacheEntry_inv Deallocate_inv RemoveCacheKey_inv
        RemoveCacheKey_data_inv)

lemma run_cm_calls_inv: "cm_inv m \<Longrightarrow> run_cm_calls c m xs = Some m' \<Longrightarrow> cm_inv m'"
  by (induction xs arbitrary: m) (auto split: option.splits dest: do_cm_call_inv)

text \<open>The calls that may take a continuous owned cache out of the table.\<close>

definition removes_last_batch :: "CacheManager \<Rightarrow> int \<Rightarrow> CacheEntry \<Rightarrow> DataCacheKey \<Rightarrow> bool \<Rightarrow> bool" where
  "removes_last_batch m ci e dk is_prefix \<longleftrightarrow>
     key_map m is_prefix dk = Some ci \<and> ext_ref_count e = 0 \<and>
     map_erase (fst dk) (id_to_batch_index_and_size e) = []"

fun may_drop :: "CacheManager \<Rightarrow> int \<Rightarrow> CacheEntry \<Rightarrow> cm_call \<Rightarrow> bool" where
  "may_drop m ci e (CmUnregister t ci') \<longleftrightarrow> ci' = ci"
| "may_drop m ci e (CmDeallocate t ci') \<longleftrightarrow> ci' = ci \<and> id_to_batch_index_and_size e = []"
| "may_drop m ci e (CmRemoveKey t key) \<longleftrightarrow> removes_last_batch m ci e (data_key key) (prefix_key key)"
| "may_drop m ci e (CmRemoveData t dk p ti) \<longleftrightarrow> removes_last_batch m ci e dk p"
| "may_drop m ci e call \<longleftrightarrow> False"

lemma RemoveCacheKey_data_drops:
  assumes "cache_id_to_entry m ci = Some e" "cache_id_to_entry (snd (RemoveCacheKey_data c t m dk p ti)) ci = None"
  shows "removes_last_batch m ci e dk p"
proof (cases "key_map m p dk")
  case None
  with assms show ?thesis by (simp add: RemoveCacheKey_data_def flip: key_map_def)
next
  case (Some cj)
  have er: "cache_id_to_entry (erase_key p dk m') = cache_id_to_entry m'" for m' by (simp add: erase_key_def)
  show ?thesis
  proof (cases "cache_id_to_entry m cj")
    case None
    with assms Some er show ?thesis by (simp add: RemoveCacheKey_data_def flip: key_map_def)
  next
    case (Some e')
    obtain m2 e2 where rb: "RemoveBatchIndex (m\<lparr>cache_id_to_tensor_indices := (cache_id_to_tensor_indices m)(cj \<mapsto> {})\<rparr>)
        e' cj (fst dk) = (m2, e2)" by fastforce
    note k = RemoveBatchIndex_keeps [OF rb]
    have ids: "map_erase (fst dk) (id_to_batch_index_and_size e') = []" if "id_to_batch_index_and_size e2 = []"
      using rb that by (auto simp: RemoveBatchIndex_def map_erase_def split: option.splits)
    have "cj = ci \<and> ext_ref_count e2 = 0 \<and> id_to_batch_index_and_size e2 = []"
      using assms Some rb k(4) er \<open>key_map m p dk = Some cj\<close>
      by (auto simp: RemoveCacheKey_data_def Let_def simp flip: key_map_def split: if_splits)
    with ids k(2) assms(1) Some \<open>key_map m p dk = Some cj\<close> show ?thesis by (simp add: removes_last_batch_def)
  qed
qed

lemma do_cm_call_drops:
  assumes "cache_id_to_entry m ci = Some e" "is_owned e" "num_blocks e = 0"
    and "do_cm_call c m call = Some m'" "cache_id_to_entry m' ci = None"
  shows "may_drop m ci e call"
proof (cases call)
  case (CmRegister t cj keys desc addrs ts)
  with assms(1,4,5) show ?thesis
    by (auto simp: RegisterCacheEntry_def AddCacheIndices_def Let_def dest!: AddCacheIndices_keeps(8)
        split: outcome.splits prod.splits if_splits)
next
  case (CmUnregister t cj)
  with assms(1,4,5) show ?thesis
    by (auto simp: UnregisterCacheEntry_def RemoveCacheIndices_def Let_def split: if_splits)
next
  case (CmAllocate t pool tms cj desc keys)
  with assms(1,4,5) show ?thesis
    by (auto simp: Allocate_def AddCacheIndices_def Let_def dest!: AddCacheIndices_keeps(8)
        split: outcome.splits option.splits sum.splits prod.splits if_splits)
next
  case (CmDeallocate t cj)
  with assms show ?thesis
    by (auto simp: Deallocate_def RemoveCacheIndices_def Let_def split: option.splits if_splits)
next
  case (CmRemoveKey t key)
  with assms(4,5) RemoveCacheKey_data_drops [OF assms(1)] show ?thesis
    by (auto simp: RemoveCacheKey_def split: prod.splits)
next
  case (CmRemoveData t dk p ti)
  with assms(4,5) RemoveCacheKey_data_drops [OF assms(1), of c t dk p ti] show ?thesis by simp
qed

section \<open>Properties\<close>

text \<open>C23: A successful \<open>Allocate\<close> of a continuous cache (memory type \<open>CACHE\<close>) makes its keys known and
  disturbs no other. A key of the call with a valid id, which no later key of the call repeats, finds
  the new cache, its batch index is the key's position, the reverse index maps the position to the key,
  and the bytes of the batch lie inside the tensor. Every key that found a cache before the call, of
  either kind, finds the same cache after it.\<close>

theorem Allocate_lookup:
  assumes "Allocate c t pool (Inr ts) m ci desc keys = Ok (SUCCESS, m')" "desc_cache_mem_type desc = CACHE"
    and "i < length keys" "CreateDataCacheKey (keys ! i) = (dk, is_prefix)" "fst dk \<noteq> UINT64_MAX"
    and "\<forall>key \<in> set (drop (Suc i) keys). fst (fst (CreateDataCacheKey key)) \<noteq> fst dk"
  shows "(\<exists>e. GetCacheEntry_by_key m' dk is_prefix = Some e \<and> GetCacheEntry_by_id m' ci = Some e \<and>
      map_of (id_to_batch_index_and_size e) (fst dk) = Some (i, stride e) \<and>
      GetCacheKey m' (ci, i) = Some dk \<and> i * stride e + stride e \<le> tensor_size e) \<and>
    (\<forall>old p e. GetCacheEntry_by_key m old p = Some e \<longrightarrow> GetCacheEntry_by_key m' old p = Some e)"
proof (intro conjI allI impI)
  obtain e where e: "cache_id_to_entry m' ci = Some e" "length keys \<le> batch_size e"
    "stride e = tensor_size e div batch_size e"
    "key_map m' is_prefix dk = Some ci" "GetCacheKey m' (ci, i) = Some dk"
    "map_of (id_to_batch_index_and_size e) (fst dk) = Some (i, stride e)"
  proof (rule Allocate_indexed [OF assms(1,2)])
    fix e
    assume a: "cache_id_to_entry m' ci = Some e" "length keys \<le> batch_size e"
      "stride e = tensor_size e div batch_size e"
      "\<And>i. i < length keys \<Longrightarrow> fst (data_key (keys ! i)) \<noteq> UINT64_MAX \<Longrightarrow>
       key_map m' (prefix_key (keys ! i)) (data_key (keys ! i)) = Some ci \<and>
       GetCacheKey m' (ci, i) = Some (data_key (keys ! i)) \<and>
       (fst (data_key (keys ! i)) \<notin> (\<lambda>key. fst (data_key key)) ` set (drop (Suc i) keys) \<longrightarrow>
         map_of (id_to_batch_index_and_size e) (fst (data_key (keys ! i))) = Some (i, stride e))"
    have "fst dk \<notin> (\<lambda>key. fst (data_key key)) ` set (drop (Suc i) keys)" using assms(6) by auto
    then show thesis using that [OF a(1-3)] a(4) [OF assms(3)] assms(4,5) by simp
  qed
  have "i * stride e + stride e \<le> tensor_size e"
    using batch_in_tensor [OF e(3), of i] e(2) assms(3) by simp
  then show "\<exists>e. GetCacheEntry_by_key m' dk is_prefix = Some e \<and> GetCacheEntry_by_id m' ci = Some e \<and>
      map_of (id_to_batch_index_and_size e) (fst dk) = Some (i, stride e) \<and>
      GetCacheKey m' (ci, i) = Some dk \<and> i * stride e + stride e \<le> tensor_size e"
    using e by (auto simp: GetCacheEntry_by_key_key_map GetCacheEntry_by_id_def DoGetCacheEntry_def)
  fix old p e0
  assume "GetCacheEntry_by_key m old p = Some e0"
  then show "GetCacheEntry_by_key m' old p = Some e0" by (rule Allocate_frame [OF assms(1,2)])
qed

definition demo_key :: "nat \<Rightarrow> nat \<Rightarrow> CacheKey" where
  "demo_key r m = \<lparr>key_prompt_cluster_id = 0, key_prompt_cache_id = -1, key_prompt_batch_index = 0,
     key_req_id = r, key_prefix_id = UINT64_MAX, key_model_id = m, key_is_allocate_blocks = False\<rparr>"

definition demo_desc :: CacheDesc where
  "demo_desc = \<lparr>desc_num_tensors = 2, desc_data_type = 1, desc_seq_len_dim_index = -1, desc_batch_dim_index = 0,
     desc_shape = [2, 8], desc_placement = 1, desc_cache_mem_type = CACHE, desc_remote_accessible = True\<rparr>"

definition demo_consts :: acl_consts where
  "demo_consts = \<lparr>ACL_ERROR_RT_STREAM_SYNC_TIMEOUT = 507046, ACL_ERROR_RT_FEATURE_NOT_SUPPORT = 207000\<rparr>"

definition demo_cm :: "CacheKey list \<Rightarrow> CacheManager" where
  "demo_cm keys = (case Allocate demo_consts 0 (\<lambda>p. Some (\<lambda>i. Some (4096 * Suc i))) (Inr 64)
     (CacheManager_init False) 7 demo_desc keys of Ok (s, m) \<Rightarrow> m | _ \<Rightarrow> CacheManager_init False)"

lemma demo_data_key [simp]: "CreateDataCacheKey (demo_key r m) = ((r, m), False)"
  by (simp add: CreateDataCacheKey_def demo_key_def)

lemma demo_alloc: "alloc_tensors (\<lambda>i. Some (4096 * Suc i)) 0 2 = Some [4096, 8192]"
  by (simp add: numeral_2_eq_2)

lemma demo_allocate:
  assumes "x \<noteq> y"
  shows "Allocate demo_consts 0 (\<lambda>p. Some (\<lambda>i. Some (4096 * Suc i))) (Inr 64) (CacheManager_init False) 7 demo_desc
     [demo_key (fst x) (snd x), demo_key (fst y) (snd y)] =
   Ok (SUCCESS, demo_cm [demo_key (fst x) (snd x), demo_key (fst y) (snd y)])"
proof -
  have "GetCacheBatchSize demo_desc = Inr 2" by (simp add: GetCacheBatchSize_def demo_desc_def)
  moreover from this have "CreateCacheEntry demo_desc [4096, 8192] 64 = Ok
     \<lparr>num_blocks = 0, batch_size = 2, seq_len_dim_index = -1, tensor_size = 64, stride = 32, ext_ref_count = 0,
      placement = 1, cache_addrs = [4096, 8192], id_to_batch_index_and_size = [], is_owned = False,
      remote_accessible = True, cache_mem_type = CACHE\<rparr>"
    by (simp add: CreateCacheEntry_def demo_desc_def)
  moreover have "desc_num_tensors demo_desc = 2" by (simp add: demo_desc_def)
  ultimately have "\<exists>m. Allocate demo_consts 0 (\<lambda>p. Some (\<lambda>i. Some (4096 * Suc i))) (Inr 64) (CacheManager_init False) 7
      demo_desc [demo_key (fst x) (snd x), demo_key (fst y) (snd y)] = Ok (SUCCESS, m)"
    using assms demo_alloc
    by (auto simp: Allocate_def CheckCacheKeys_def CacheManager_init_def UpdateCacheTable_def Let_def
        AddCacheIndices_def AddCacheIndex_def split: prod.splits)
  then show ?thesis unfolding demo_cm_def by auto
qed

theorem Allocate_lookup_witness:
  "\<exists>e. GetCacheEntry_by_key (demo_cm [demo_key 5 1, demo_key 6 1]) (6, 1) False = Some e \<and>
     map_of (id_to_batch_index_and_size e) 6 = Some (1, stride e)"
  using Allocate_lookup [OF demo_allocate [of "(5, 1)" "(6, 1)"], of 1 "(6, 1)" False]
  by (auto simp: demo_desc_def)

text \<open>C32: the batch index of a cache is kept by the id alone, without the model id and without telling
  request ids from prefix ids. Two keys of one call that share the id pass \<open>CheckCacheKeys\<close>, and the
  first one then resolves to the batch of the second.\<close>

theorem Allocate_same_id_collides:
  assumes "Allocate c t pool (Inr ts) m ci desc keys = Ok (SUCCESS, m')" "desc_cache_mem_type desc = CACHE"
    and "i < j" "j < length keys" "CreateDataCacheKey (keys ! i) = (dk, is_prefix)" "fst dk \<noteq> UINT64_MAX"
    and "fst (fst (CreateDataCacheKey (keys ! j))) = fst dk"
    and "\<forall>key \<in> set (drop (Suc j) keys). fst (fst (CreateDataCacheKey key)) \<noteq> fst dk"
  shows "\<exists>e. GetCacheEntry_by_key m' dk is_prefix = Some e \<and> GetCacheKey m' (ci, i) = Some dk \<and>
    map_of (id_to_batch_index_and_size e) (fst dk) = Some (j, stride e)"
proof (rule Allocate_indexed [OF assms(1,2)])
  fix e
  assume a: "cache_id_to_entry m' ci = Some e"
    "\<And>i. i < length keys \<Longrightarrow> fst (data_key (keys ! i)) \<noteq> UINT64_MAX \<Longrightarrow>
     key_map m' (prefix_key (keys ! i)) (data_key (keys ! i)) = Some ci \<and>
     GetCacheKey m' (ci, i) = Some (data_key (keys ! i)) \<and>
     (fst (data_key (keys ! i)) \<notin> (\<lambda>key. fst (data_key key)) ` set (drop (Suc i) keys) \<longrightarrow>
       map_of (id_to_batch_index_and_size e) (fst (data_key (keys ! i))) = Some (i, stride e))"
  have "fst dk \<notin> (\<lambda>key. fst (data_key key)) ` set (drop (Suc j) keys)" using assms(8) by auto
  then have "map_of (id_to_batch_index_and_size e) (fst dk) = Some (j, stride e)"
    using a(2) [OF assms(4)] assms(6,7) by simp
  moreover have "key_map m' is_prefix dk = Some ci" "GetCacheKey m' (ci, i) = Some dk"
    using a(2) [of i] assms(3-6) by simp_all
  ultimately show ?thesis using a(1) by (auto simp: GetCacheEntry_by_key_def DoGetCacheEntry_def key_map_def)
qed

theorem Allocate_same_id_collides_witness:
  "\<exists>e. GetCacheEntry_by_key (demo_cm [demo_key 5 1, demo_key 5 2]) (5, 1) False = Some e \<and>
     GetCacheKey (demo_cm [demo_key 5 1, demo_key 5 2]) (7, 0) = Some (5, 1) \<and>
     map_of (id_to_batch_index_and_size e) 5 = Some (1, stride e)"
  using Allocate_same_id_collides [OF demo_allocate [of "(5, 1)" "(5, 2)"], of 0 1 "(5, 1)" False]
  by (auto simp: demo_desc_def)


definition demo_calls :: "cm_call list" where
  "demo_calls = [CmAllocate 0 (\<lambda>p. Some (\<lambda>i. Some (4096 * Suc i))) (Inr 64) 7 demo_desc [demo_key 5 1, demo_key 6 1]]"

lemma demo_calls_run: "run_cm_calls demo_consts (CacheManager_init False) demo_calls = Some (demo_cm [demo_key 5 1, demo_key 6 1])"
  using demo_allocate [of "(5, 1)" "(6, 1)"] by (simp add: demo_calls_def)

lemma demo_cm_entry:
  obtains e where "GetCacheEntry_by_id (demo_cm [demo_key 5 1, demo_key 6 1]) 7 = Some e" "is_owned e" "num_blocks e = 0"
proof (rule Allocate_indexed [OF demo_allocate [of "(5, 1)" "(6, 1)"]])
  fix e
  assume "cache_id_to_entry (demo_cm [demo_key (fst (5, 1)) (snd (5, 1)), demo_key (fst (6, 1)) (snd (6, 1))]) 7 = Some e"
    "is_owned e" "num_blocks e = 0"
  then show thesis using that by (simp add: GetCacheEntry_by_id_def DoGetCacheEntry_def)
qed (simp_all add: demo_desc_def)


text \<open>C33: The tensors not yet pulled are recorded per cache, not per key. Once one key of a cache has been
  removed after a pull that named all its tensors as one range, the first tensor pulled for another
  key of the same cache removes that key although its other tensors have not been pulled.\<close>

theorem RemoveCacheKey_layers_shared:
  fixes c :: "'a acl_consts_scheme" and t :: aclError
  assumes "cache_id_to_entry m ci = Some e" "is_owned e" "ext_ref_count e = 1"
    and "cache_key_to_id m dk1 = Some ci" "cache_key_to_id m dk2 = Some ci" "dk1 \<noteq> dk2"
    and "cache_id_to_tensor_indices m ci = Some {0 ..< n}" "0 < n" "1 < n"
  defines "m1 \<equiv> snd (RemoveCacheKey_data c t m dk1 False {0 ..< n})"
  shows "cache_key_to_id m1 dk2 = Some ci \<and> cache_key_to_id (snd (RemoveCacheKey_data c t m1 dk2 False {0})) dk2 = None"
proof -
  let ?m0 = "m\<lparr>cache_id_to_tensor_indices := (cache_id_to_tensor_indices m)(ci \<mapsto> {})\<rparr>"
  obtain m2 e2 where rb: "RemoveBatchIndex ?m0 e ci (fst dk1) = (m2, e2)" by fastforce
  note k = RemoveBatchIndex_keeps [OF rb]
  have ti: "cache_id_to_tensor_indices m2 ci = Some {}"
    using rb by (auto simp: RemoveBatchIndex_def split: option.splits prod.splits)
  have m1: "m1 = (erase_key False dk1 m2)\<lparr>cache_id_to_entry := (cache_id_to_entry (erase_key False dk1 m2))(ci \<mapsto> e2)\<rparr>"
    using assms(1-4,7,8) rb k unfolding m1_def
    by (simp add: RemoveCacheKey_data_def RemoveTensorIndices_def Let_def split: prod.splits)
  have f1: "cache_key_to_id m1 dk2 = Some ci" "cache_id_to_entry m1 ci = Some e2" "cache_id_to_tensor_indices m1 ci = Some {}"
    using assms(5,6) k ti by (simp_all add: m1 erase_key_def)
  obtain m3 e3 where rb3: "RemoveBatchIndex (m1\<lparr>cache_id_to_tensor_indices := (cache_id_to_tensor_indices m1)(ci \<mapsto> {})\<rparr>)
      e2 ci (fst dk2) = (m3, e3)" by fastforce
  have "cache_key_to_id (snd (RemoveCacheKey_data c t m1 dk2 False {0})) dk2 = None"
    using f1 k(1) assms(2) rb3 by (simp add: RemoveCacheKey_data_def RemoveTensorIndices_def Let_def erase_key_def)
  then show ?thesis using f1(1) by blast
qed

definition demo_shared :: CacheManager where
  "demo_shared = (CacheManager_init False)\<lparr>
     cache_id_to_entry := [7 \<mapsto> \<lparr>num_blocks = 0, batch_size = 2, seq_len_dim_index = -1, tensor_size = 64, stride = 32,
       ext_ref_count = 1, placement = 1, cache_addrs = [4096, 8192],
       id_to_batch_index_and_size = [(5, 0, 32), (6, 1, 32)], is_owned = True, remote_accessible = True,
       cache_mem_type = CACHE\<rparr>],
     cache_key_to_id := [(5, 1) \<mapsto> 7, (6, 1) \<mapsto> 7],
     cache_id_to_tensor_indices := [7 \<mapsto> {0 ..< 2}]\<rparr>"

theorem RemoveCacheKey_layers_shared_witness:
  "cache_key_to_id (snd (RemoveCacheKey_data demo_consts 0
     (snd (RemoveCacheKey_data demo_consts 0 demo_shared (5, 1) False {0 ..< 2})) (6, 1) False {0})) (6, 1) = None"
  using RemoveCacheKey_layers_shared [of demo_shared 7 _ "(5, 1)" "(6, 1)" 2 demo_consts 0]
  by (simp add: demo_shared_def)

end
