(* ===== verification/Transfer_Request.thy ===== *)
theory Transfer_Request
  imports Cache_Manager
begin

text \<open>
  The server side of a cache pull: what a node does with a request that a peer wrote into its request
  buffer. Modelled are the message limits (\<open>src/src/llm_datadist/common/transfer_message_limits.h\<close>),
  the range checks (\<open>transfer_request_validation.h\<close>), the preparation of a request in
  \<open>fsm/send_state.cc\<close> up to the creation of the job, and the generation of the device-to-device
  transfer tasks, which is the initialization of the device-to-device job (\<open>data_transfer/d2d_data_transfer_job.cc\<close>). Every field of the request is
  chosen by the peer. An access outside an array and a division by zero are the outcome \<open>Crash\<close>.
\<close>

section \<open>Messages\<close>

text \<open>A \<open>TransferInfo\<close> is a union of a \<open>BufferInfo\<close> and an address: two 64-bit words, the first of
  which is the block index or the address.\<close>

type_synonym TransferInfo = "nat \<times> nat"

abbreviation block_start_index :: "TransferInfo \<Rightarrow> nat" where "block_start_index \<equiv> fst"
abbreviation buffer_len :: "TransferInfo \<Rightarrow> nat" where "buffer_len \<equiv> snd"
abbreviation dst_addr :: "TransferInfo \<Rightarrow> nat" where "dst_addr \<equiv> fst"

record TransferCacheReq =
  is_pull_block :: nat
  num_tensors :: nat
  cache_id :: int
  batch_index :: nat
  req_id :: nat
  prefix_id :: nat
  model_id :: nat
  block_size :: nat
  pull_size :: nat
  max_block_index :: nat
  dst_placement :: int
  timeout_in_ms :: int
  dst_addr_count :: nat
  dst_buffer_size :: nat
  buffer_info_count :: nat
  src_tensor_indices_size :: nat
  src_tensor_start_index :: nat
  req_size :: nat
  transfer_infos :: "TransferInfo list"

definition sizeof_TransferCacheReq :: nat where "sizeof_TransferCacheReq = 120"
definition sizeof_TransferInfo :: nat where "sizeof_TransferInfo = 16"
definition kResponseInfoHeaderSize :: nat where "kResponseInfoHeaderSize = 32"
definition kMsgFlagSize :: nat where "kMsgFlagSize = 8"
definition kDefaultRespBufferSize :: nat where "kDefaultRespBufferSize = 16 * 1024"
definition kDefaultReqBufferSize :: nat where "kDefaultReqBufferSize = 112 * 1024"
definition kMaxResponsePayloadSize :: nat where
  "kMaxResponsePayloadSize = kDefaultRespBufferSize - kMsgFlagSize"
definition kMaxRequestPayloadSize :: nat where
  "kMaxRequestPayloadSize = kDefaultReqBufferSize - kMsgFlagSize"
definition kMaxDstAddrCount :: nat where
  "kMaxDstAddrCount = (if kMaxResponsePayloadSize > kResponseInfoHeaderSize
     then (kMaxResponsePayloadSize - kResponseInfoHeaderSize) div 8 else 0)"
definition kMaxTransferInfoCount :: nat where
  "kMaxTransferInfoCount = (if kMaxRequestPayloadSize > sizeof_TransferCacheReq
     then (kMaxRequestPayloadSize - sizeof_TransferCacheReq) div sizeof_TransferInfo else 0)"
definition kBufferInfoMultiplierD2h :: nat where "kBufferInfoMultiplierD2h = 1"
definition kBufferInfoMultiplierD2dH2d :: nat where "kBufferInfoMultiplierD2dH2d = 2"

lemmas limit_defs =
  sizeof_TransferCacheReq_def sizeof_TransferInfo_def kResponseInfoHeaderSize_def kMsgFlagSize_def
  kDefaultRespBufferSize_def kDefaultReqBufferSize_def kMaxResponsePayloadSize_def kMaxRequestPayloadSize_def
  kMaxDstAddrCount_def kMaxTransferInfoCount_def kBufferInfoMultiplierD2h_def kBufferInfoMultiplierD2dH2d_def

definition CalcResponseSize :: "nat \<Rightarrow> nat" where
  "CalcResponseSize n = add64 kResponseInfoHeaderSize (mul64 n 8)"

definition CalcMinRequestSize :: "nat \<Rightarrow> nat \<Rightarrow> nat \<Rightarrow> nat" where
  "CalcMinRequestSize n k multiplier =
     add64 sizeof_TransferCacheReq (mul64 sizeof_TransferInfo (add64 n (mul64 k multiplier)))"

definition MaxD2hPromptBlocksForDstCount :: "nat \<Rightarrow> nat" where
  "MaxD2hPromptBlocksForDstCount n = (if n \<ge> kMaxTransferInfoCount then 0 else kMaxTransferInfoCount - n)"

section \<open>Range checks\<close>

definition kMinDstBufferSize :: nat where "kMinDstBufferSize = 4 * 1024"

definition CheckSrcTensorRange :: "nat \<Rightarrow> nat \<Rightarrow> nat \<Rightarrow> status" where
  "CheckSrcTensorRange start_index n cache_addrs_size =
     (if start_index > cache_addrs_size then LLM_PARAM_INVALID
      else if n \<le> cache_addrs_size - start_index then SUCCESS else LLM_PARAM_INVALID)"

definition CheckTensorCountWithinDstAddr :: "nat \<Rightarrow> nat \<Rightarrow> status" where
  "CheckTensorCountWithinDstAddr n k = (if n \<le> k then SUCCESS else LLM_PARAM_INVALID)"

definition CheckBlockSpanWithinRegion :: "nat \<Rightarrow> nat \<Rightarrow> nat \<Rightarrow> nat \<Rightarrow> status" where
  "CheckBlockSpanWithinRegion block_index bsize len region_size =
     (if len > region_size then LLM_PARAM_INVALID
      else if bsize = 0 then SUCCESS
      else if block_index \<le> (region_size - len) div bsize then SUCCESS else LLM_PARAM_INVALID)"

definition CheckBlockSpanWithinD2dRegion :: "nat \<Rightarrow> nat \<Rightarrow> nat \<Rightarrow> nat \<Rightarrow> nat \<Rightarrow> status" where
  "CheckBlockSpanWithinD2dRegion block_index bsize len tsize offset =
     (if offset > tsize then LLM_PARAM_INVALID
      else CheckBlockSpanWithinRegion block_index bsize len (tsize - offset))"

definition CheckRecvFlagArea :: "nat \<Rightarrow> nat \<Rightarrow> nat \<Rightarrow> nat \<Rightarrow> status" where
  "CheckRecvFlagArea n response_size max_payload_size flag_size =
     (let flags_size = mul64 flag_size n in
      if add64 response_size flags_size \<le> max_payload_size then SUCCESS else LLM_PARAM_INVALID)"

definition CheckD2hDstBufferSize :: "nat \<Rightarrow> status" where
  "CheckD2hDstBufferSize n = (if n < kMinDstBufferSize \<or> n > UINT32_MAX then LLM_PARAM_INVALID else SUCCESS)"

definition CheckD2dBlockSize :: "nat \<Rightarrow> nat \<Rightarrow> status" where
  "CheckD2dBlockSize request_block_size cache_stride =
     (let effective_block_size = (if request_block_size \<noteq> 0 then request_block_size else cache_stride) in
      if effective_block_size \<noteq> 0 then SUCCESS else LLM_PARAM_INVALID)"

text \<open>\<open>None\<close> is a null pointer; the list holds the addresses of the response.\<close>

definition CheckSyncFlagAddresses :: "nat list option \<Rightarrow> nat \<Rightarrow> unit outcome" where
  "CheckSyncFlagAddresses addresses n =
     (case addresses of
        None \<Rightarrow> Err LLM_PARAM_INVALID
      | Some as \<Rightarrow>
          for_each (\<lambda>i. if i \<ge> length as then Crash else if as ! i = 0 then Err LLM_PARAM_INVALID else Ok ()) [0 ..< n])"

definition CheckResponseTransferCount :: "nat \<Rightarrow> nat \<Rightarrow> status" where
  "CheckResponseTransferCount transfer_count required =
     (if transfer_count = 0 then SUCCESS
      else if transfer_count \<ge> required then SUCCESS else LLM_PARAM_INVALID)"

section \<open>Preparation of a request\<close>

definition kTransferTypeD2D :: int where "kTransferTypeD2D = 0"
definition kTransferTypeD2H :: int where "kTransferTypeD2H = 1"
definition kTransferTypeH2D :: int where "kTransferTypeH2D = 2"

lemmas transfer_type_defs = kTransferTypeD2D_def kTransferTypeD2H_def kTransferTypeH2D_def

definition transfer_info :: "TransferCacheReq \<Rightarrow> nat \<Rightarrow> TransferInfo outcome" where
  "transfer_info request i = (if i < length (transfer_infos request) then Ok (transfer_infos request ! i) else Crash)"

text \<open>\<open>LLM_CHK_BOOL_RET_STATUS\<close> and \<open>LLM_CHK_STATUS_RET\<close>.\<close>

definition chk :: "bool \<Rightarrow> status \<Rightarrow> unit outcome" where
  "chk b s = (if \<not> b then Err s else Ok ())"

definition ValidateBufferInfoLens :: "TransferCacheReq \<Rightarrow> nat \<Rightarrow> unit outcome" where
  "ValidateBufferInfoLens request multiplier =
     (if buffer_info_count request = 0 then Ok ()
      else for_each (\<lambda>i.
        obind (transfer_info request (add32 (dst_addr_count request) i)) (\<lambda>src_buffer_info.
        obind (chk (buffer_len src_buffer_info > 0) LLM_PARAM_INVALID) (\<lambda>u.
        if multiplier > kBufferInfoMultiplierD2h then
          obind (transfer_info request (add32 (add32 (dst_addr_count request) (buffer_info_count request)) i))
            (\<lambda>dst_buffer_info. chk (buffer_len dst_buffer_info > 0) LLM_PARAM_INVALID)
        else Ok ()))) [0 ..< buffer_info_count request])"

definition ValidateTransferRequest :: "TransferCacheReq \<Rightarrow> int \<Rightarrow> unit outcome" where
  "ValidateTransferRequest request transfer_type =
     (if \<not> dst_addr_count request > 0 then Err LLM_PARAM_INVALID
      else if \<not> dst_addr_count request \<le> kMaxDstAddrCount then Err LLM_PARAM_INVALID
      else
        let multiplier = (if transfer_type = kTransferTypeD2H then kBufferInfoMultiplierD2h
                          else kBufferInfoMultiplierD2dH2d);
            transfer_info_count = add64 (dst_addr_count request) (mul64 (buffer_info_count request) multiplier)
        in if \<not> transfer_info_count \<le> kMaxTransferInfoCount then Err LLM_PARAM_INVALID
           else ValidateBufferInfoLens request multiplier)"

definition ResolveSrcNumTensors :: "CacheEntry \<Rightarrow> TransferCacheReq \<Rightarrow> nat" where
  "ResolveSrcNumTensors entry request =
     (if src_tensor_indices_size request = 0 then length (cache_addrs entry) else src_tensor_indices_size request)"

definition ResolveSrcStartIndex :: "TransferCacheReq \<Rightarrow> nat" where
  "ResolveSrcStartIndex request =
     (if src_tensor_indices_size request = 0 then 0 else src_tensor_start_index request)"

definition ValidateSrcTensorRange :: "CacheEntry \<Rightarrow> TransferCacheReq \<Rightarrow> unit outcome" where
  "ValidateSrcTensorRange entry request =
     chk (CheckSrcTensorRange (ResolveSrcStartIndex request) (ResolveSrcNumTensors entry request)
            (length (cache_addrs entry)) = SUCCESS) LLM_PARAM_INVALID"

definition ValidateBlockSpans :: "CacheEntry \<Rightarrow> TransferCacheReq \<Rightarrow> int \<Rightarrow> unit outcome" where
  "ValidateBlockSpans entry request transfer_type =
     (let is_d2h = (transfer_type = kTransferTypeD2H);
          needs_block_span_check = (transfer_type = kTransferTypeH2D \<or> (is_d2h \<and> num_blocks entry > 0))
      in if \<not> needs_block_span_check then Ok ()
         else
           let is_block_cache = (num_blocks entry > 0);
               bsize = (if is_block_cache then stride entry else pull_size request);
               region_size = (if is_block_cache then tensor_size entry else stride entry)
           in for_each (\<lambda>i.
                obind (transfer_info request (add32 (dst_addr_count request) i)) (\<lambda>buffer_info.
                let span_len = (if is_d2h then stride entry else buffer_len buffer_info) in
                chk (CheckBlockSpanWithinRegion (block_start_index buffer_info) bsize span_len region_size = SUCCESS)
                  LLM_PARAM_INVALID)) [0 ..< buffer_info_count request])"

definition ValidateD2hLocalBounds :: "TransferCacheReq \<Rightarrow> unit outcome" where
  "ValidateD2hLocalBounds request =
     (if CheckD2hDstBufferSize (dst_buffer_size request) \<noteq> SUCCESS then Err LLM_PARAM_INVALID
      else
        let response_size = CalcResponseSize (dst_addr_count request) in
        chk (CheckRecvFlagArea (dst_addr_count request) response_size kMaxResponsePayloadSize 4 = SUCCESS)
          LLM_PARAM_INVALID)"

definition ValidateLocalIndexBounds :: "CacheEntry \<Rightarrow> TransferCacheReq \<Rightarrow> int \<Rightarrow> unit outcome" where
  "ValidateLocalIndexBounds entry request transfer_type =
     obind (ValidateSrcTensorRange entry request) (\<lambda>u.
     obind (if transfer_type = kTransferTypeH2D
            then chk (CheckTensorCountWithinDstAddr (ResolveSrcNumTensors entry request) (dst_addr_count request) = SUCCESS)
                   LLM_PARAM_INVALID
            else Ok ()) (\<lambda>u.
     obind (ValidateBlockSpans entry request transfer_type) (\<lambda>u.
     obind (if transfer_type = kTransferTypeD2D
            then chk (CheckD2dBlockSize (block_size request) (stride entry) = SUCCESS) LLM_PARAM_INVALID
            else Ok ()) (\<lambda>u.
     if transfer_type = kTransferTypeD2H then ValidateD2hLocalBounds request else Ok ()))))"

definition ResolveTransferType :: "TransferCacheReq \<Rightarrow> CacheEntry \<Rightarrow> int" where
  "ResolveTransferType request entry =
     (let dst = nat (dst_placement request mod 2 ^ 32); src = placement entry in
      if src = CachePlacement_DEVICE \<and> dst = CachePlacement_DEVICE then kTransferTypeD2D
      else if src = CachePlacement_DEVICE \<and> dst = CachePlacement_HOST then kTransferTypeD2H
      else if src = CachePlacement_HOST \<and> dst = CachePlacement_DEVICE then kTransferTypeH2D
      else -1)"

definition CheckParam :: "CacheEntry \<Rightarrow> TransferCacheReq \<Rightarrow> unit outcome" where
  "CheckParam entry request =
     (let cache_num = (if src_tensor_indices_size request \<noteq> 0 then src_tensor_indices_size request
                       else length (cache_addrs entry))
      in if cache_num \<noteq> num_tensors request then Err LLM_PARAM_INVALID
         else if (is_pull_block request = 0) \<noteq> (num_blocks entry = 0) then Err LLM_PARAM_INVALID
         else
           obind (if is_pull_block request = 1
                  then chk (max_block_index request = 0 \<or> max_block_index request < num_blocks entry) LLM_PARAM_INVALID
                  else if block_size request > 0
                  then (if dst_placement request = int CachePlacement_HOST
                        then let padded_size = mul64 (sub64 (add64 (stride entry) (block_size request)) 1
                                                        div block_size request) (block_size request)
                             in chk (pull_size request \<le> padded_size) LLM_PARAM_INVALID
                        else Ok ())
                  else chk (pull_size request \<le> stride entry) LLM_PARAM_INVALID) (\<lambda>u.
           if src_tensor_indices_size request \<noteq> 0
           then chk (cache_num \<le> length (cache_addrs entry) \<and>
                     src_tensor_start_index request < length (cache_addrs entry) \<and>
                     sub32 (add32 (src_tensor_start_index request) (src_tensor_indices_size request)) 1
                       < length (cache_addrs entry)) LLM_PARAM_INVALID
           else chk (src_tensor_start_index request < length (cache_addrs entry)) LLM_PARAM_INVALID))"

text \<open>\<open>SendState::GetCacheKey\<close>: whether a key was found, the key, and whether it is a prefix key.\<close>

definition SendState_GetCacheKey :: "CacheManager \<Rightarrow> TransferCacheReq \<Rightarrow> (DataCacheKey \<times> bool) option" where
  "SendState_GetCacheKey cm request =
     (if cache_id request \<ge> 0
      then map_option (\<lambda>key. (key, False)) (GetCacheKey cm (cache_id request, batch_index request))
      else
        let is_prefix = (prefix_id request \<noteq> UINT64_MAX) in
        Some ((if is_prefix then prefix_id request else req_id request, model_id request), is_prefix))"

definition QueryBlocksCache :: "CacheManager \<Rightarrow> TransferCacheReq \<Rightarrow> CacheEntry outcome" where
  "QueryBlocksCache cm request =
     (case GetCacheEntry_by_key cm (req_id request, model_id request) False of
        None \<Rightarrow> Err LLM_KV_CACHE_NOT_EXIST
      | Some entry \<Rightarrow> if \<not> block_size request \<noteq> 0 then Err LLM_PARAM_INVALID else Ok entry)"

definition QueryCacheByCacheId :: "CacheManager \<Rightarrow> TransferCacheReq \<Rightarrow> CacheEntry outcome" where
  "QueryCacheByCacheId cm request =
     (case GetCacheEntry_by_id cm (cache_id request) of
        None \<Rightarrow> Err LLM_KV_CACHE_NOT_EXIST
      | Some entry \<Rightarrow>
          if \<not> batch_index request < batch_size entry then Err LLM_KV_CACHE_NOT_EXIST else Ok entry)"

text \<open>The entry, the byte offset of the batch, and the key to remove once the pull is done, which is
  \<open>no_key\<close> when nothing is to be removed.\<close>

definition no_key :: DataCacheKey where "no_key = (UINT64_MAX, UINT64_MAX)"

definition QueryCacheEntryAndOffset ::
  "CacheManager option \<Rightarrow> TransferCacheReq \<Rightarrow> (CacheEntry \<times> nat \<times> DataCacheKey) outcome" where
  "QueryCacheEntryAndOffset cache_manager request =
     (case cache_manager of
        None \<Rightarrow> Err LLM_PARAM_INVALID
      | Some cm \<Rightarrow>
          if is_pull_block request = 1 then obind (QueryBlocksCache cm request) (\<lambda>entry. Ok (entry, 0, no_key))
          else
            (case SendState_GetCacheKey cm request of
               None \<Rightarrow>
                 obind (QueryCacheByCacheId cm request) (\<lambda>entry.
                 if \<not> batch_index request < batch_size entry then Err LLM_KV_CACHE_NOT_EXIST
                 else Ok (entry, mul64 (batch_index request) (stride entry), no_key))
             | Some (key, is_prefix) \<Rightarrow>
                 (case GetCacheEntry_by_key cm key is_prefix of
                    None \<Rightarrow> Err LLM_KV_CACHE_NOT_EXIST
                  | Some entry \<Rightarrow>
                      if num_blocks entry \<noteq> 0 then Err LLM_PARAM_INVALID
                      else
                        (case map_of (id_to_batch_index_and_size entry) (fst key) of
                           None \<Rightarrow> Err LLM_KV_CACHE_NOT_EXIST
                         | Some (b, sz) \<Rightarrow>
                             Ok (entry, mul64 b (stride entry),
                                 if \<not> is_prefix \<and> is_owned entry \<and> is_pull_block request = 0 then key else no_key)))))"

text \<open>The first part of \<open>SendState::Prepare\<close>: the lookup and the checks, up to the creation of the job. The
  whole of it is \<open>SendState_Prepare\<close> of theory \<open>Send_State\<close>.\<close>

definition SendState_Prepare_checks ::
  "CacheManager option \<Rightarrow> TransferCacheReq \<Rightarrow> (CacheEntry \<times> nat \<times> DataCacheKey \<times> int) outcome" where
  "SendState_Prepare_checks cache_manager request =
     obind (QueryCacheEntryAndOffset cache_manager request) (\<lambda>(entry, offset, to_remove).
     obind (CheckParam entry request) (\<lambda>u.
     let transfer_type = ResolveTransferType request entry in
     if \<not> transfer_type \<ge> 0 then Err LLM_FEATURE_NOT_ENABLED
     else
       obind (ValidateTransferRequest request transfer_type) (\<lambda>u.
       obind (ValidateLocalIndexBounds entry request transfer_type) (\<lambda>u.
       Ok (entry, offset, to_remove, transfer_type)))))"

definition GetLayerRangeTensorIndices :: "TransferCacheReq \<Rightarrow> nat set" where
  "GetLayerRangeTensorIndices request =
     (if src_tensor_indices_size request = 0 then {}
      else {src_tensor_start_index request ..< src_tensor_start_index request + src_tensor_indices_size request})"

section \<open>Device-to-device tasks\<close>

record HcclOneSideOpDesc =
  localAddr :: nat
  remoteAddr :: nat
  hcount :: nat

definition GetSendTask_one ::
  "CacheEntry \<Rightarrow> TransferCacheReq \<Rightarrow> nat \<Rightarrow> nat \<Rightarrow> nat \<Rightarrow> nat \<Rightarrow> HcclOneSideOpDesc outcome" where
  "GetSendTask_one entry request bsize offset i j =
     (let remainder = tensor_size entry mod bsize;
          n = tensor_size entry div bsize;
          batch_or_block_num = (if remainder = 0 then n else n + 1)
      in obind (transfer_info request (add32 (dst_addr_count request) j)) (\<lambda>src_buffer_info.
         obind (transfer_info request (add32 (add32 (dst_addr_count request) (buffer_info_count request)) j)) (\<lambda>dst_buffer_info.
         let src_block_index = block_start_index src_buffer_info;
             dst_block_index = block_start_index dst_buffer_info
         in obind (chk (src_block_index < batch_or_block_num) LLM_PARAM_INVALID) (\<lambda>u.
            obind (chk (buffer_len src_buffer_info = buffer_len dst_buffer_info) LLM_PARAM_INVALID) (\<lambda>u.
            let layer_start_index = (if src_tensor_indices_size request = 0 then 0 else src_tensor_start_index request);
                src_addr_index = add64 i layer_start_index
            in if src_addr_index \<ge> length (cache_addrs entry) then Crash
               else obind (transfer_info request i) (\<lambda>dst_info.
                 let target_size = (if is_pull_block request = 1 then tensor_size entry else stride entry);
                     count = (if j = sub32 (buffer_info_count request) 1 \<and> remainder > 0 then remainder
                              else buffer_len src_buffer_info)
                 in obind (chk (buffer_len src_buffer_info \<le> target_size) LLM_PARAM_INVALID) (\<lambda>u.
                    obind (chk (CheckBlockSpanWithinD2dRegion src_block_index bsize count (tensor_size entry) offset = SUCCESS)
                             LLM_PARAM_INVALID) (\<lambda>u.
                    Ok \<lparr>localAddr = add64 (add64 (cache_addrs entry ! src_addr_index) offset) (mul64 src_block_index bsize),
                        remoteAddr = add64 (dst_addr dst_info) (mul64 dst_block_index bsize),
                        hcount = count\<rparr>))))))))"

definition GetSendTask ::
  "CacheEntry \<Rightarrow> TransferCacheReq \<Rightarrow> nat \<Rightarrow> nat \<Rightarrow> HcclOneSideOpDesc list outcome" where
  "GetSendTask entry request bsize offset =
     (if bsize = 0 then Crash
      else
        let src_addr_num = (if src_tensor_indices_size request = 0 then length (cache_addrs entry)
                            else src_tensor_indices_size request)
        in if src_addr_num \<noteq> dst_addr_count request then Err LLM_PARAM_INVALID
           else if src_tensor_indices_size request \<noteq> 0 \<and>
                   \<not> (src_tensor_start_index request \<le> length (cache_addrs entry) \<and>
                      src_tensor_indices_size request \<le> length (cache_addrs entry) - src_tensor_start_index request)
           then Err LLM_PARAM_INVALID
           else
             obind (collect (\<lambda>(i, j). GetSendTask_one entry request bsize offset i j)
                      (List.product [0 ..< src_addr_num] [0 ..< buffer_info_count request])) (\<lambda>send_tasks.
             if MulOverflow src_addr_num (buffer_info_count request) then Err LLM_PARAM_INVALID
             else if length send_tasks \<noteq> src_addr_num * buffer_info_count request then Err LLM_PARAM_INVALID
             else Ok send_tasks))"

definition GenerateCacheTask :: "CacheEntry \<Rightarrow> TransferCacheReq \<Rightarrow> nat \<Rightarrow> HcclOneSideOpDesc list outcome" where
  "GenerateCacheTask entry request offset =
     (if is_pull_block request = 1 \<and> \<not> block_size request \<noteq> 0 then Err LLM_PARAM_INVALID
      else
        let stride_or_block_size = (if block_size request \<noteq> 0 then block_size request else stride entry) in
        GetSendTask entry request stride_or_block_size offset)"


section \<open>Requests and caches as the process holds them\<close>

text \<open>The fields of a request have their width, and the request lies in a buffer with room for
  \<open>kMaxTransferInfoCount\<close> entries. Nothing else is known of a request.\<close>

definition request_buffer :: "TransferCacheReq \<Rightarrow> bool" where
  "request_buffer request \<longleftrightarrow>
     length (transfer_infos request) = kMaxTransferInfoCount \<and>
     dst_addr_count request < 2 ^ 32 \<and> buffer_info_count request < 2 ^ 32 \<and>
     src_tensor_indices_size request < 2 ^ 32 \<and> src_tensor_start_index request < 2 ^ 32"

text \<open>The tensors of a cache do not wrap around the end of the address space.\<close>

definition cache_in_memory :: "CacheEntry \<Rightarrow> bool" where
  "cache_in_memory entry \<longleftrightarrow>
     (\<forall>a \<in> set (cache_addrs entry). a + tensor_size entry < 2 ^ 64) \<and> length (cache_addrs entry) < 2 ^ 63"

definition task_in_tensor :: "CacheEntry \<Rightarrow> HcclOneSideOpDesc \<Rightarrow> bool" where
  "task_in_tensor entry task \<longleftrightarrow>
     (\<exists>a \<in> set (cache_addrs entry). a \<le> localAddr task \<and> localAddr task + hcount task \<le> a + tensor_size entry)"

section \<open>Lemmas\<close>

lemma chk_simps [simp]:
  "chk b s = Ok u \<longleftrightarrow> b" "chk b s \<noteq> Crash"
  by (simp_all add: chk_def)

lemma limit_values:
  "kMaxDstAddrCount = 2043" "kMaxTransferInfoCount = 7160" "kMaxResponsePayloadSize = 16376"
  by (simp_all add: limit_defs)

lemma transfer_info_Crash [simp]: "transfer_info request i = Crash \<longleftrightarrow> length (transfer_infos request) \<le> i"
  by (simp add: transfer_info_def)

lemma CheckBlockSpanWithinRegion_iff:
  "CheckBlockSpanWithinRegion b k len region = SUCCESS \<longleftrightarrow> b * k + len \<le> region"
proof (cases "len \<le> region \<and> k > 0")
  case True
  then have "b \<le> (region - len) div k \<longleftrightarrow> b * k \<le> region - len"
    by (simp add: less_eq_div_iff_mult_less_eq)
  with True show ?thesis by (auto simp: CheckBlockSpanWithinRegion_def)
qed (auto simp: CheckBlockSpanWithinRegion_def)

lemma CheckBlockSpanWithinD2dRegion_iff:
  "CheckBlockSpanWithinD2dRegion b k len tsize offset = SUCCESS \<longleftrightarrow> offset + b * k + len \<le> tsize"
  by (auto simp: CheckBlockSpanWithinD2dRegion_def CheckBlockSpanWithinRegion_iff)

text \<open>What a validated request says about its counts: all the positions the code reads are in the buffer.\<close>

definition counts_ok :: "TransferCacheReq \<Rightarrow> nat \<Rightarrow> bool" where
  "counts_ok request multiplier \<longleftrightarrow>
     0 < dst_addr_count request \<and> dst_addr_count request \<le> kMaxDstAddrCount \<and>
     dst_addr_count request + buffer_info_count request * multiplier \<le> kMaxTransferInfoCount"

lemma transfer_info_count_exact:
  assumes "request_buffer request" "multiplier \<le> 2"
  shows "add64 (dst_addr_count request) (mul64 (buffer_info_count request) multiplier)
           = dst_addr_count request + buffer_info_count request * multiplier"
proof -
  have "buffer_info_count request * multiplier \<le> buffer_info_count request * 2"
    using assms(2) by (rule mult_le_mono2)
  moreover have "dst_addr_count request < 4294967296" "buffer_info_count request < 4294967296"
    using assms(1) by (simp_all add: request_buffer_def)
  ultimately have "dst_addr_count request + buffer_info_count request * multiplier < 18446744073709551616"
    by linarith
  then show ?thesis by (simp add: add64_def mul64_def)
qed

lemma counts_ok_reads:
  assumes "request_buffer request" "counts_ok request multiplier" "1 \<le> multiplier" "j < buffer_info_count request"
  shows "add32 (dst_addr_count request) j = dst_addr_count request + j"
    and "dst_addr_count request + j < length (transfer_infos request)"
    and "multiplier = 2 \<Longrightarrow>
           add32 (add32 (dst_addr_count request) (buffer_info_count request)) j
             = dst_addr_count request + buffer_info_count request + j"
    and "multiplier = 2 \<Longrightarrow>
           dst_addr_count request + buffer_info_count request + j < length (transfer_infos request)"
proof -
  have "buffer_info_count request * 1 \<le> buffer_info_count request * multiplier"
    using assms(3) by (rule mult_le_mono2)
  moreover have "dst_addr_count request + buffer_info_count request * multiplier \<le> 7160"
    using assms(2) by (simp add: counts_ok_def limit_values)
  ultimately have "dst_addr_count request + j < 7160" using assms(4) by linarith
  with assms show "add32 (dst_addr_count request) j = dst_addr_count request + j"
    "dst_addr_count request + j < length (transfer_infos request)"
    by (simp_all add: counts_ok_def request_buffer_def limit_values add32_def)
next
  assume "multiplier = 2"
  with assms show "add32 (add32 (dst_addr_count request) (buffer_info_count request)) j
      = dst_addr_count request + buffer_info_count request + j"
    "dst_addr_count request + buffer_info_count request + j < length (transfer_infos request)"
    by (simp_all add: counts_ok_def request_buffer_def limit_values add32_def)
qed

definition multiplier_of :: "int \<Rightarrow> nat" where
  "multiplier_of transfer_type = (if transfer_type = kTransferTypeD2H then 1 else 2)"

lemma multiplier_of_bounds: "1 \<le> multiplier_of t" "multiplier_of t \<le> 2"
  by (simp_all add: multiplier_of_def)

lemma ValidateTransferRequest_unfold:
  assumes "request_buffer request"
  shows "ValidateTransferRequest request t =
    (if counts_ok request (multiplier_of t) then ValidateBufferInfoLens request (multiplier_of t) else Err LLM_PARAM_INVALID)"
proof -
  have m: "(if t = kTransferTypeD2H then kBufferInfoMultiplierD2h else kBufferInfoMultiplierD2dH2d) = multiplier_of t"
    by (simp add: multiplier_of_def kBufferInfoMultiplierD2h_def kBufferInfoMultiplierD2dH2d_def)
  show ?thesis
    unfolding ValidateTransferRequest_def Let_def m transfer_info_count_exact [OF assms multiplier_of_bounds(2)]
    by (simp add: counts_ok_def)
qed

lemma counts_ok_no_crash:
  assumes "request_buffer request" "counts_ok request m" "1 \<le> m" "j < buffer_info_count request"
  shows "transfer_info request (add32 (dst_addr_count request) j) \<noteq> Crash"
    and "m = 2 \<Longrightarrow>
      transfer_info request (add32 (add32 (dst_addr_count request) (buffer_info_count request)) j) \<noteq> Crash"
  using counts_ok_reads [OF assms] by simp_all

lemma ValidateBufferInfoLens_no_crash:
  assumes "request_buffer request" "counts_ok request m" "1 \<le> m" "m \<le> 2"
  shows "ValidateBufferInfoLens request m \<noteq> Crash"
proof -
  have "m = 2" if "m > kBufferInfoMultiplierD2h" using that assms(4) by (simp add: kBufferInfoMultiplierD2h_def)
  with counts_ok_no_crash [OF assms(1-3)] show ?thesis
    unfolding ValidateBufferInfoLens_def
    by (auto simp del: transfer_info_Crash intro!: for_each_Crash split: if_splits)
qed

lemma ValidateBlockSpans_no_crash:
  assumes "request_buffer request" "counts_ok request m" "1 \<le> m"
  shows "ValidateBlockSpans entry request t \<noteq> Crash"
  using counts_ok_no_crash(1) [OF assms] unfolding ValidateBlockSpans_def Let_def
  by (auto simp del: transfer_info_Crash intro!: for_each_Crash)

lemma ValidateLocalIndexBounds_no_crash:
  assumes "request_buffer request" "counts_ok request m" "1 \<le> m"
  shows "ValidateLocalIndexBounds entry request t \<noteq> Crash"
  using ValidateBlockSpans_no_crash [OF assms, of entry t]
  by (auto simp: ValidateLocalIndexBounds_def ValidateSrcTensorRange_def ValidateD2hLocalBounds_def Let_def)

lemma CheckParam_no_crash: "CheckParam entry request \<noteq> Crash"
  by (auto simp: CheckParam_def Let_def)

lemma QueryCacheEntryAndOffset_no_crash: "QueryCacheEntryAndOffset cm request \<noteq> Crash"
  by (auto simp: QueryCacheEntryAndOffset_def QueryBlocksCache_def QueryCacheByCacheId_def
      split: option.splits if_splits)


section \<open>What a prepared request guarantees\<close>

text \<open>The facts that a successful \<open>Prepare\<close> leaves for the job.\<close>

lemma SendState_checks_D:
  assumes "SendState_Prepare_checks cm request = Ok (entry, offset, key, t)" "request_buffer request"
  shows "QueryCacheEntryAndOffset cm request = Ok (entry, offset, key)" "CheckParam entry request = Ok ()"
    "t = ResolveTransferType request entry" "0 \<le> t"
    "counts_ok request (multiplier_of t)" "ValidateBufferInfoLens request (multiplier_of t) = Ok ()"
    "ValidateLocalIndexBounds entry request t = Ok ()"
  using assms by (auto simp: SendState_Prepare_checks_def Let_def ValidateTransferRequest_unfold split: if_splits)

lemma ValidateLocalIndexBounds_D:
  assumes "ValidateLocalIndexBounds entry request t = Ok ()"
  shows "ResolveSrcStartIndex request + ResolveSrcNumTensors entry request \<le> length (cache_addrs entry)"
    "t = kTransferTypeH2D \<Longrightarrow> ResolveSrcNumTensors entry request \<le> dst_addr_count request"
    "ValidateBlockSpans entry request t = Ok ()"
    "t = kTransferTypeD2D \<Longrightarrow> block_size request \<noteq> 0 \<or> stride entry \<noteq> 0"
    "t = kTransferTypeD2H \<Longrightarrow> ValidateD2hLocalBounds request = Ok ()"
  using assms
  by (auto simp: ValidateLocalIndexBounds_def ValidateSrcTensorRange_def CheckSrcTensorRange_def
      CheckTensorCountWithinDstAddr_def CheckD2dBlockSize_def Let_def transfer_type_defs split: if_splits)

lemma ValidateBlockSpans_D:
  assumes "ValidateBlockSpans entry request t = Ok ()" "request_buffer request" "counts_ok request m" "1 \<le> m"
    and "t = kTransferTypeH2D \<or> t = kTransferTypeD2H \<and> num_blocks entry > 0" "i < buffer_info_count request"
  defines "info \<equiv> transfer_infos request ! (dst_addr_count request + i)"
  shows "block_start_index info * (if num_blocks entry > 0 then stride entry else pull_size request) +
           (if t = kTransferTypeD2H then stride entry else buffer_len info)
         \<le> (if num_blocks entry > 0 then tensor_size entry else stride entry)"
proof -
  have "transfer_info request (add32 (dst_addr_count request) i) = Ok info"
    using counts_ok_reads(1,2) [OF assms(2-4,6)] by (simp add: transfer_info_def info_def)
  with assms(1,5,6) show ?thesis
    by (force simp: ValidateBlockSpans_def Let_def for_each_Ok CheckBlockSpanWithinRegion_iff)
qed

lemma ValidateD2hLocalBounds_D:
  assumes "ValidateD2hLocalBounds request = Ok ()" "dst_addr_count request < 2 ^ 32"
  shows "kMinDstBufferSize \<le> dst_buffer_size request" "dst_buffer_size request < 2 ^ 32"
    "CalcResponseSize (dst_addr_count request) + 4 * dst_addr_count request \<le> kMaxResponsePayloadSize"
proof -
  have d: "dst_addr_count request < 4294967296" using assms(2) by simp
  have r: "CalcResponseSize (dst_addr_count request) = 32 + 8 * dst_addr_count request"
    using d by (simp add: CalcResponseSize_def add64_def mul64_def kResponseInfoHeaderSize_def)
  then have "add64 (CalcResponseSize (dst_addr_count request)) (mul64 4 (dst_addr_count request))
      = CalcResponseSize (dst_addr_count request) + 4 * dst_addr_count request"
    using d by (simp add: add64_def mul64_def)
  with assms(1) show "kMinDstBufferSize \<le> dst_buffer_size request" "dst_buffer_size request < 2 ^ 32"
    "CalcResponseSize (dst_addr_count request) + 4 * dst_addr_count request \<le> kMaxResponsePayloadSize"
    by (auto simp: ValidateD2hLocalBounds_def CheckD2hDstBufferSize_def CheckRecvFlagArea_def Let_def split: if_splits)
qed

section \<open>Device-to-device tasks\<close>

lemma GetSendTask_one_no_crash:
  assumes "request_buffer request" "counts_ok request 2" "j < buffer_info_count request" "i < dst_addr_count request"
    and "i + ResolveSrcStartIndex request < length (cache_addrs entry)"
  shows "GetSendTask_one entry request bsize offset i j \<noteq> Crash"
proof -
  have "add64 i (ResolveSrcStartIndex request) < length (cache_addrs entry)"
    using assms(5) unfolding add64_def by (rule le_less_trans [OF mod_less_eq_dividend])
  moreover have "i < length (transfer_infos request)"
    using assms(1,2,4) by (simp add: request_buffer_def counts_ok_def limit_values)
  ultimately show ?thesis
    using counts_ok_no_crash [OF assms(1,2) _ assms(3)]
    by (auto simp: GetSendTask_one_def Let_def ResolveSrcStartIndex_def simp del: transfer_info_Crash
        split: if_splits) (simp_all add: transfer_info_def)
qed

text \<open>The task for tensor \<open>i\<close> and block \<open>j\<close>, with exact arithmetic.\<close>

definition d2d_task :: "CacheEntry \<Rightarrow> TransferCacheReq \<Rightarrow> nat \<Rightarrow> nat \<Rightarrow> nat \<Rightarrow> nat \<Rightarrow> HcclOneSideOpDesc \<Rightarrow> bool" where
  "d2d_task entry request bsize offset i j task \<longleftrightarrow>
     (let src = transfer_infos request ! (dst_addr_count request + j);
          dst = transfer_infos request ! (dst_addr_count request + buffer_info_count request + j);
          base = cache_addrs entry ! (ResolveSrcStartIndex request + i)
      in localAddr task = base + offset + block_start_index src * bsize \<and>
         remoteAddr task = add64 (dst_addr (transfer_infos request ! i)) (mul64 (block_start_index dst) bsize) \<and>
         localAddr task + hcount task \<le> base + tensor_size entry \<and>
         buffer_len src = buffer_len dst \<and>
         (hcount task = buffer_len src \<or>
          Suc j = buffer_info_count request \<and> hcount task = tensor_size entry mod bsize \<and> 0 < hcount task))"

lemma GetSendTask_one_Ok:
  assumes ok: "GetSendTask_one entry request bsize offset i j = Ok task"
    and wf: "request_buffer request" "counts_ok request 2" "cache_in_memory entry"
    and ij: "j < buffer_info_count request" "i < dst_addr_count request"
      "i + ResolveSrcStartIndex request < length (cache_addrs entry)"
  shows "d2d_task entry request bsize offset i j task"
proof -
  let ?b = "cache_addrs entry ! (ResolveSrcStartIndex request + i)"
  let ?src = "transfer_infos request ! (dst_addr_count request + j)"
  let ?dst = "transfer_infos request ! (dst_addr_count request + buffer_info_count request + j)"
  note reads = counts_ok_reads [OF wf(1,2) _ ij(1), simplified]
  have "length (cache_addrs entry) < 2 ^ 64" using wf(3) by (simp add: cache_in_memory_def)
  then have idx: "add64 i (ResolveSrcStartIndex request) = ResolveSrcStartIndex request + i"
    using ij(3) by (simp add: add64_def)
  have i: "i < length (transfer_infos request)"
    using wf(1,2) ij(2) by (simp add: request_buffer_def counts_ok_def limit_values)
  have last: "j = sub32 (buffer_info_count request) 1 \<longleftrightarrow> Suc j = buffer_info_count request"
    using wf(1) ij(1) by (auto simp: sub32_id request_buffer_def)
  from ok have t: "localAddr task = add64 (add64 ?b offset) (mul64 (block_start_index ?src) bsize)"
      "remoteAddr task = add64 (dst_addr (transfer_infos request ! i)) (mul64 (block_start_index ?dst) bsize)"
      "offset + block_start_index ?src * bsize + hcount task \<le> tensor_size entry" "buffer_len ?src = buffer_len ?dst"
      "hcount task = (if Suc j = buffer_info_count request \<and> tensor_size entry mod bsize > 0
         then tensor_size entry mod bsize else buffer_len ?src)"
    unfolding GetSendTask_one_def Let_def ResolveSrcStartIndex_def [symmetric] idx last
    by (auto simp: transfer_info_def reads i CheckBlockSpanWithinD2dRegion_iff split: if_splits)
  have "?b \<in> set (cache_addrs entry)" using ij(3) by (intro nth_mem) simp
  then have "?b + tensor_size entry < 2 ^ 64" using wf(3) unfolding cache_in_memory_def by blast
  with t(3) have "?b + offset + block_start_index ?src * bsize < 2 ^ 64" by linarith
  then have "localAddr task = ?b + offset + block_start_index ?src * bsize"
    unfolding t(1) by (simp add: add64_def mul64_def mod_simps)
  with t show ?thesis unfolding d2d_task_def Let_def by (simp split: if_splits)
qed

lemma GetSendTask_no_crash:
  assumes "request_buffer request" "counts_ok request 2" "bsize \<noteq> 0"
    and "ResolveSrcStartIndex request + ResolveSrcNumTensors entry request \<le> length (cache_addrs entry)"
  shows "GetSendTask entry request bsize offset \<noteq> Crash"
proof (cases "ResolveSrcNumTensors entry request = dst_addr_count request")
  case True
  then have "GetSendTask_one entry request bsize offset i j \<noteq> Crash"
    if "i < ResolveSrcNumTensors entry request" "j < buffer_info_count request" for i j
    using that assms(4) by (intro GetSendTask_one_no_crash [OF assms(1,2)]) simp_all
  then have "collect (\<lambda>(i, j). GetSendTask_one entry request bsize offset i j)
      (List.product [0 ..< ResolveSrcNumTensors entry request] [0 ..< buffer_info_count request]) \<noteq> Crash"
    by (intro collect_Crash) auto
  with assms(3) show ?thesis
    by (auto simp: GetSendTask_def Let_def ResolveSrcNumTensors_def split: if_splits)
next
  case False
  with assms(3) show ?thesis by (auto simp: GetSendTask_def Let_def ResolveSrcNumTensors_def split: if_splits)
qed

lemma GetSendTask_Ok:
  assumes ok: "GetSendTask entry request bsize offset = Ok tasks"
    and wf: "request_buffer request" "counts_ok request 2" "cache_in_memory entry"
    and range: "ResolveSrcStartIndex request + ResolveSrcNumTensors entry request \<le> length (cache_addrs entry)"
  defines "n \<equiv> ResolveSrcNumTensors entry request" and "k \<equiv> buffer_info_count request"
  shows "n = dst_addr_count request" "length tasks = n * k"
    "\<lbrakk>i < n; j < k\<rbrakk> \<Longrightarrow> d2d_task entry request bsize offset i j (tasks ! (i * k + j))"
proof -
  from ok have tasks: "list_all2 (\<lambda>ij task. (case ij of (i, j) \<Rightarrow> GetSendTask_one entry request bsize offset i j) = Ok task)
      (List.product [0 ..< n] [0 ..< k]) tasks"
    and n: "n = dst_addr_count request"
    by (auto simp: GetSendTask_def Let_def n_def k_def ResolveSrcNumTensors_def collect_Ok split: if_splits)
  show "n = dst_addr_count request" by (rule n)
  show "length tasks = n * k" using list_all2_lengthD [OF tasks] by (simp add: length_product)
  show "d2d_task entry request bsize offset i j (tasks ! (i * k + j))" if "i < n" "j < k"
  proof (rule GetSendTask_one_Ok [OF _ wf])
    have lt: "i * k + j < n * k" using that by (rule row_index_less)
    then have "(List.product [0 ..< n] [0 ..< k]) ! (i * k + j) = (i, j)"
      using that by (simp add: product_nth)
    with list_all2_nthD [OF tasks, of "i * k + j"] lt
    show "GetSendTask_one entry request bsize offset i j = Ok (tasks ! (i * k + j))" by (simp add: length_product)
    show "i + ResolveSrcStartIndex request < length (cache_addrs entry)" using range that(1) by (simp add: n_def)
  qed (use that n in \<open>simp_all add: k_def\<close>)
qed

section \<open>Theorems\<close>

text \<open>The checks and the device-to-device task generation never crash.\<close>

lemma SendState_checks_no_crash:
  assumes "request_buffer request"
  shows "SendState_Prepare_checks cm request \<noteq> Crash"
  using assms QueryCacheEntryAndOffset_no_crash [of cm request] CheckParam_no_crash
    ValidateBufferInfoLens_no_crash [OF assms _ multiplier_of_bounds]
    ValidateLocalIndexBounds_no_crash [OF assms _ multiplier_of_bounds(1)]
  by (auto simp: SendState_Prepare_checks_def Let_def ValidateTransferRequest_unfold split: if_splits)

lemma GenerateCacheTask_no_crash:
  assumes "request_buffer request" "SendState_Prepare_checks cm request = Ok (entry, offset, key, kTransferTypeD2D)"
  shows "GenerateCacheTask entry request offset \<noteq> Crash"
proof -
  note d = SendState_checks_D [OF assms(2,1)] and v = ValidateLocalIndexBounds_D [OF SendState_checks_D(7) [OF assms(2,1)]]
  have "counts_ok request 2" using d(5) by (simp add: multiplier_of_def transfer_type_defs)
  from GetSendTask_no_crash [OF assms(1) this _ v(1)] v(4) show ?thesis
    by (auto simp: GenerateCacheTask_def Let_def)
qed

text \<open>The batches of a cache lie inside its tensors, and the recorded batch indices are batches.\<close>

definition batches_in_tensor :: "CacheEntry \<Rightarrow> bool" where
  "batches_in_tensor entry \<longleftrightarrow>
     batch_size entry * stride entry \<le> tensor_size entry \<and> tensor_size entry < 2 ^ 64 \<and>
     (\<forall>(i, b, sz) \<in> set (id_to_batch_index_and_size entry). b < batch_size entry)"

text \<open>The offset that is added to the address of a tensor: that of a batch, and none for a pull of blocks.\<close>

lemma Query_offset:
  assumes "QueryCacheEntryAndOffset cm request = Ok (entry, offset, key)" "batches_in_tensor entry"
  shows "is_pull_block request = 1 \<and> offset = 0 \<or>
    is_pull_block request \<noteq> 1 \<and> (\<exists>b < batch_size entry. offset = b * stride entry \<and>
      (num_blocks entry \<noteq> 0 \<longrightarrow> b = batch_index request))"
proof (cases "is_pull_block request = 1")
  case True
  with assms(1) show ?thesis by (auto simp: QueryCacheEntryAndOffset_def split: option.splits)
next
  case False
  have off: "mul64 b (stride entry) = b * stride entry" if "b < batch_size entry" for b
  proof -
    have "b * stride entry \<le> batch_size entry * stride entry" using that by (intro mult_le_mono1) simp
    also have "\<dots> < 2 ^ 64" using assms(2) unfolding batches_in_tensor_def by linarith
    finally show ?thesis unfolding mul64_def by (rule mod_less)
  qed
  have key: "b < batch_size entry" if "map_of (id_to_batch_index_and_size entry) i = Some (b, sz)" for i b sz
    using map_of_SomeD [OF that] assms(2) by (auto simp: batches_in_tensor_def)
  have "(\<exists>b < batch_size entry. offset = mul64 b (stride entry) \<and> (num_blocks entry \<noteq> 0 \<longrightarrow> b = batch_index request))"
    using assms(1) False key
    by (fastforce simp: QueryCacheEntryAndOffset_def QueryCacheByCacheId_def split: option.splits if_splits)
  with off False show ?thesis by auto
qed

lemma batch_end_in_tensor:
  assumes "batches_in_tensor entry" "b < batch_size entry"
  shows "b * stride entry + stride entry \<le> tensor_size entry"
proof -
  have "b * stride entry + stride entry = Suc b * stride entry" by simp
  also have "\<dots> \<le> batch_size entry * stride entry" using assms(2) by (intro mult_le_mono1) simp
  finally show ?thesis using assms(1) by (simp add: batches_in_tensor_def)
qed

text \<open>The offset of a checked request: a continuous cache is read inside one batch, and a pull of blocks
  (\<open>is_pull_block = 1\<close>) reads a block cache from its start.\<close>

lemma SendState_checks_offset:
  assumes "SendState_Prepare_checks cm request = Ok (entry, offset, key, t)" "request_buffer request" "batches_in_tensor entry"
  shows "num_blocks entry = 0 \<Longrightarrow> offset + stride entry \<le> tensor_size entry"
    and "is_pull_block request = 1 \<Longrightarrow> offset = 0"
    and "num_blocks entry \<noteq> 0 \<Longrightarrow> is_pull_block request \<noteq> 1 \<Longrightarrow> offset = batch_index request * stride entry"
proof -
  note d = SendState_checks_D [OF assms(1,2)]
  note q = Query_offset [OF d(1) assms(3)]
  have nb: "num_blocks entry = 0 \<Longrightarrow> is_pull_block request = 0"
    using d(2) by (simp add: CheckParam_def Let_def split: if_splits)
  show "num_blocks entry = 0 \<Longrightarrow> offset + stride entry \<le> tensor_size entry"
    using q nb batch_end_in_tensor [OF assms(3)] by auto
  show "is_pull_block request = 1 \<Longrightarrow> offset = 0"
    and "num_blocks entry \<noteq> 0 \<Longrightarrow> is_pull_block request \<noteq> 1 \<Longrightarrow> offset = batch_index request * stride entry"
    using q by auto
qed

text \<open>C21: A device-to-device pull is answered from the requested cache only. After a successful
  \<open>Prepare\<close> there is one task for each requested tensor and block; task \<open>(i, j)\<close> starts at the batch
  and block the request names, computed without wrap-around, goes to the \<open>i\<close>-th destination of the
  peer, and ends inside the \<open>i\<close>-th requested tensor of the local cache.\<close>

theorem GenerateCacheTask_correct:
  assumes "request_buffer request" "cache_in_memory entry"
    and "SendState_Prepare_checks cm request = Ok (entry, offset, key, kTransferTypeD2D)"
    and "GenerateCacheTask entry request offset = Ok tasks"
  shows "length tasks = dst_addr_count request * buffer_info_count request \<and>
    (\<forall>i < dst_addr_count request. \<forall>j < buffer_info_count request.
       ResolveSrcStartIndex request + i < length (cache_addrs entry) \<and>
       d2d_task entry request (if block_size request \<noteq> 0 then block_size request else stride entry) offset i j
         (tasks ! (i * buffer_info_count request + j)))"
proof -
  note d = SendState_checks_D [OF assms(3,1)]
    and v = ValidateLocalIndexBounds_D [OF SendState_checks_D(7) [OF assms(3,1)]]
  have c: "counts_ok request 2" using d(5) by (simp add: multiplier_of_def transfer_type_defs)
  have ok: "GetSendTask entry request (if block_size request \<noteq> 0 then block_size request else stride entry) offset = Ok tasks"
    using assms(4) by (auto simp: GenerateCacheTask_def Let_def split: if_splits)
  note g = GetSendTask_Ok [OF ok assms(1) c assms(2) v(1)]
  then show ?thesis using v(1) by simp
qed


text \<open>A cache of two tensors with two batches, registered under request 7, and a peer that pulls the
  second batch.\<close>

definition demo_entry :: CacheEntry where
  "demo_entry = \<lparr>num_blocks = 0, batch_size = 2, seq_len_dim_index = -1, tensor_size = 128, stride = 64,
     ext_ref_count = 0, placement = CachePlacement_DEVICE, cache_addrs = [4096, 8192],
     id_to_batch_index_and_size = [(7, 1, 64)], is_owned = True, remote_accessible = True, cache_mem_type = CACHE\<rparr>"

definition demo_manager :: CacheManager where
  "demo_manager = (CacheManager_init False)\<lparr>cache_id_to_entry := [5 \<mapsto> demo_entry],
     cache_key_to_id := [(7, 0) \<mapsto> 5]\<rparr>"

definition demo_request :: "nat \<Rightarrow> TransferCacheReq" where
  "demo_request dst = \<lparr>is_pull_block = 0, num_tensors = 2, cache_id = -1, batch_index = 0, req_id = 7,
     prefix_id = UINT64_MAX, model_id = 0, block_size = 0, pull_size = 64, max_block_index = 0, dst_placement = int dst,
     timeout_in_ms = 1000, dst_addr_count = 2, dst_buffer_size = 4096, buffer_info_count = 1, src_tensor_indices_size = 0,
     src_tensor_start_index = 0, req_size = 0,
     transfer_infos = [(65536, 0), (131072, 0), (0, 64), (0, 64)] @ replicate (kMaxTransferInfoCount - 4) (0, 0)\<rparr>"

lemmas demo_defs = demo_entry_def demo_manager_def demo_request_def CacheManager_init_def

lemma demo_request_buffer: "request_buffer (demo_request dst)"
  by (simp add: request_buffer_def demo_request_def limit_values)

lemma demo_in_memory: "cache_in_memory demo_entry"
  by (simp add: cache_in_memory_def demo_entry_def)

lemma demo_transfer_info:
  "transfer_info (demo_request dst) 0 = Ok (65536, 0)" "transfer_info (demo_request dst) 1 = Ok (131072, 0)"
  "transfer_info (demo_request dst) 2 = Ok (0, 64)" "transfer_info (demo_request dst) 3 = Ok (0, 64)"
  by (simp_all add: transfer_info_def demo_request_def limit_values nth_append)

lemma demo_query:
  "QueryCacheEntryAndOffset (Some demo_manager) (demo_request dst) = Ok (demo_entry, 64, (7, 0))"
  by (simp add: QueryCacheEntryAndOffset_def SendState_GetCacheKey_def GetCacheEntry_by_key_def DoGetCacheEntry_def
      demo_defs mul64_def Let_def)

lemma demo_lens: "ValidateBufferInfoLens (demo_request dst) m = Ok ()"
proof -
  have "buffer_info_count (demo_request dst) = 1" "dst_addr_count (demo_request dst) = 2" by (simp_all add: demo_request_def)
  moreover have "add32 2 0 = 2" "add32 2 1 = 3" "add32 3 0 = 3" by (simp_all add: add32_def)
  ultimately show ?thesis
    by (simp add: ValidateBufferInfoLens_def for_each_Ok demo_transfer_info del: One_nat_def)
qed

lemma demo_prepare:
  assumes "dst = CachePlacement_DEVICE \<or> dst = CachePlacement_HOST"
  shows "SendState_Prepare_checks (Some demo_manager) (demo_request dst)
    = Ok (demo_entry, 64, (7, 0), if dst = CachePlacement_DEVICE then kTransferTypeD2D else kTransferTypeD2H)"
proof -
  have t: "ResolveTransferType (demo_request dst) demo_entry
      = (if dst = CachePlacement_DEVICE then kTransferTypeD2D else kTransferTypeD2H)"
    using assms by (auto simp: ResolveTransferType_def demo_defs CachePlacement_DEVICE_def CachePlacement_HOST_def)
  have "CheckParam demo_entry (demo_request dst) = Ok ()"
    by (simp add: CheckParam_def demo_defs chk_def)
  moreover have "counts_ok (demo_request dst) m" if "m \<le> 2" for m
    using that by (simp add: counts_ok_def demo_request_def limit_values)
  then have "ValidateTransferRequest (demo_request dst) t = Ok ()" for t
    using multiplier_of_bounds by (simp add: ValidateTransferRequest_unfold demo_request_buffer demo_lens)
  moreover have "ValidateLocalIndexBounds demo_entry (demo_request dst) t = Ok ()"
    if "t = kTransferTypeD2D \<or> t = kTransferTypeD2H" for t
    using that by (auto simp: ValidateLocalIndexBounds_def ValidateSrcTensorRange_def CheckSrcTensorRange_def
        ValidateBlockSpans_def CheckD2dBlockSize_def ValidateD2hLocalBounds_def CheckD2hDstBufferSize_def
        CheckRecvFlagArea_def CalcResponseSize_def ResolveSrcStartIndex_def ResolveSrcNumTensors_def Let_def
        demo_defs chk_def kMinDstBufferSize_def limit_values kResponseInfoHeaderSize_def add64_def mul64_def transfer_type_defs)
  ultimately show ?thesis
    by (simp add: SendState_Prepare_checks_def demo_query t Let_def transfer_type_defs)
qed

definition demo_tasks :: "HcclOneSideOpDesc list" where
  "demo_tasks = [\<lparr>localAddr = 4160, remoteAddr = 65536, hcount = 64\<rparr>,
                 \<lparr>localAddr = 8256, remoteAddr = 131072, hcount = 64\<rparr>]"

lemma demo_generate:
  "GenerateCacheTask demo_entry (demo_request CachePlacement_DEVICE) 64 = Ok demo_tasks"
proof -
  let ?r = "demo_request CachePlacement_DEVICE"
  have f: "buffer_info_count ?r = 1" "dst_addr_count ?r = 2" "is_pull_block ?r = 0" "block_size ?r = 0"
    "src_tensor_indices_size ?r = 0" "stride demo_entry = 64" "tensor_size demo_entry = 128"
    "cache_addrs demo_entry = [4096, 8192]"
    by (simp_all add: demo_defs)
  have a: "add32 2 0 = 2" "add32 2 1 = 3" "add32 3 0 = 3" "sub32 1 1 = 0" by (simp_all add: add32_def sub32_def)
  have "GetSendTask_one demo_entry ?r 64 64 0 0 = Ok \<lparr>localAddr = 4160, remoteAddr = 65536, hcount = 64\<rparr>"
    "GetSendTask_one demo_entry ?r 64 64 1 0 = Ok \<lparr>localAddr = 8256, remoteAddr = 131072, hcount = 64\<rparr>"
    by (simp_all add: GetSendTask_one_def f a demo_transfer_info Let_def chk_def
        CheckBlockSpanWithinD2dRegion_iff add64_def mul64_def del: One_nat_def)
  moreover have "List.product [0 ..< 2] [0 ..< 1] = [(0, 0), (1, 0::nat)]" by (simp add: upt_rec)
  ultimately have "collect (\<lambda>(i, j). GetSendTask_one demo_entry ?r 64 64 i j) (List.product [0 ..< 2] [0 ..< 1]) = Ok demo_tasks"
    by (simp add: demo_tasks_def del: One_nat_def)
  moreover have "length demo_tasks = 2" "length (cache_addrs demo_entry) = 2" by (simp_all add: demo_tasks_def f)
  ultimately show ?thesis
    unfolding GenerateCacheTask_def GetSendTask_def f(1-7) Let_def
    by (simp add: MulOverflow_def del: obind_Ok upt_rec_numeral upt_Suc One_nat_def)
qed

theorem GenerateCacheTask_correct_witness:
  "length demo_tasks = 2 \<and> d2d_task demo_entry (demo_request CachePlacement_DEVICE) 64 64 1 0 (demo_tasks ! 1)"
proof -
  have p: "SendState_Prepare_checks (Some demo_manager) (demo_request CachePlacement_DEVICE)
      = Ok (demo_entry, 64, (7, 0), kTransferTypeD2D)"
    using demo_prepare [of CachePlacement_DEVICE] by simp
  from GenerateCacheTask_correct [OF demo_request_buffer demo_in_memory p demo_generate]
  have "d2d_task demo_entry (demo_request CachePlacement_DEVICE) 64 64 1 0 (demo_tasks ! 1)"
    by (auto simp: demo_request_def demo_entry_def)
  then show ?thesis by (simp add: demo_tasks_def)
qed


end
