(* ===== verification/D2H_Transfer.thy ===== *)
theory D2H_Transfer
  imports Transfer_Request
begin

text \<open>
  Device-to-host pulls (\<open>src/src/llm_datadist/data_transfer/d2h_data_transfer_job.cc\<close>). The server
  writes blocks of its tensors into a few bounce buffers of the client; the client copies them out.
  Both sides generate their task lists on their own, so the lists have to agree on which block sits
  where in which buffer and on when a buffer is full. Modelled are the task generator with all its
  modes, the layout check of the client, and the initialization of the server's job: its addresses, the
  choice of the block size, the tasks and the response.
  The pointer \<open>prev_task\<close> into the growing vector is the index of the task it points to.
\<close>

section \<open>Tasks\<close>

record TransferBlockSpan =
  buffer_block_start :: nat
  tensor_offset :: nat
  tensor_index :: nat
  span_size :: nat

record TransferBlocksTask =
  task_type :: int
  buffer_index :: nat
  block_span :: TransferBlockSpan

definition kBlockSizeForContMem :: nat where "kBlockSizeForContMem = 512 * 1024"
definition kDefaultBufferSize :: nat where "kDefaultBufferSize = 32 * 1024 * 1024"
definition kBufferBlocks :: nat where "kBufferBlocks = 64"
definition kTaskTypeStartBlock :: int where "kTaskTypeStartBlock = 0"
definition kTaskTypeTransferBlock :: int where "kTaskTypeTransferBlock = 1"
definition kTaskTypeEndBlock :: int where "kTaskTypeEndBlock = 2"
definition kMaxBlockNum :: nat where "kMaxBlockNum = 60 * 1024"

lemmas task_type_defs = kTaskTypeStartBlock_def kTaskTypeTransferBlock_def kTaskTypeEndBlock_def

definition no_span :: TransferBlockSpan where
  "no_span = \<lparr>buffer_block_start = 0, tensor_offset = 0, tensor_index = 0, span_size = 0\<rparr>"

text \<open>The request layout the client may send: the size of the request, or an error.\<close>

definition ValidateD2HClientPullLayout :: "nat \<Rightarrow> nat \<Rightarrow> nat outcome" where
  "ValidateD2HClientPullLayout n prompt_block_count =
     obind (chk (n > 0) LLM_PARAM_INVALID) (\<lambda>u.
     obind (chk (prompt_block_count \<le> kMaxBlockNum) LLM_PARAM_INVALID) (\<lambda>u.
     obind (chk (prompt_block_count \<le> MaxD2hPromptBlocksForDstCount n) LLM_PARAM_INVALID) (\<lambda>u.
     obind (chk (add64 n prompt_block_count \<le> kMaxTransferInfoCount) LLM_PARAM_INVALID) (\<lambda>u.
     let request_size = CalcMinRequestSize n (u32 prompt_block_count) kBufferInfoMultiplierD2h in
     obind (chk (request_size \<le> kMaxRequestPayloadSize) LLM_PARAM_INVALID) (\<lambda>u.
     let recv_flag_size = mul64 4 n in
     obind (chk (add64 request_size recv_flag_size \<le> kMaxRequestPayloadSize) LLM_PARAM_INVALID) (\<lambda>u.
     Ok request_size))))))"

section \<open>Task generation\<close>

record BlockTaskGenState =
  prev_task :: "nat option"
  prev_block_index :: nat
  cur_buffer_index :: nat
  prev_buffer_index :: nat
  buffer_block_index :: nat

definition new_gen_state :: BlockTaskGenState where
  "new_gen_state = \<lparr>prev_task = None, prev_block_index = UINT64_MAX, cur_buffer_index = 0,
     prev_buffer_index = UINT32_MAX, buffer_block_index = 0\<rparr>"

definition AppendBlockTransferTask ::
  "TransferBlocksTask list \<Rightarrow> BlockTaskGenState \<Rightarrow> nat \<Rightarrow> nat \<Rightarrow> nat \<Rightarrow> nat \<Rightarrow> nat
    \<Rightarrow> TransferBlocksTask list \<times> BlockTaskGenState \<times> bool" where
  "AppendBlockTransferTask ret state tindex bsize block_index cur_block_size max_block_size =
     (let ret1 = (if cur_buffer_index state \<noteq> prev_buffer_index state
                  then ret @ [\<lparr>task_type = kTaskTypeStartBlock, buffer_index = cur_buffer_index state, block_span = no_span\<rparr>]
                  else ret);
          state1 = state\<lparr>prev_buffer_index := cur_buffer_index state\<rparr>;
          fresh = (ret1 @ [\<lparr>task_type = kTaskTypeTransferBlock, buffer_index = cur_buffer_index state,
                            block_span = \<lparr>buffer_block_start = buffer_block_index state,
                              tensor_offset = mul64 block_index bsize, tensor_index = tindex,
                              span_size = cur_block_size\<rparr>\<rparr>],
                   state1\<lparr>prev_task := Some (length ret1)\<rparr>, False)
      in case prev_task state of
           None \<Rightarrow> fresh
         | Some p \<Rightarrow>
             let sz = add32 (span_size (block_span (ret1 ! p))) cur_block_size in
             if prev_block_index state \<noteq> UINT64_MAX \<and> block_index = add64 (prev_block_index state) 1 \<and> sz \<le> max_block_size
             then (ret1[p := (ret1 ! p)\<lparr>block_span := (block_span (ret1 ! p))\<lparr>span_size := sz\<rparr>\<rparr>], state1, True)
             else fresh)"

definition FinalizeTransferTasks ::
  "TransferBlocksTask list \<Rightarrow> nat \<Rightarrow> nat \<Rightarrow> nat list \<Rightarrow> TransferBlocksTask list \<times> nat list" where
  "FinalizeTransferTasks ret bbi bindex buffer_block_nums =
     (let nums = (if bbi > 0 then buffer_block_nums @ [bbi] else buffer_block_nums);
          ret1 = (if ret \<noteq> [] \<and> task_type (last ret) \<noteq> kTaskTypeEndBlock
                  then ret @ [\<lparr>task_type = kTaskTypeEndBlock, buffer_index = bindex, block_span = no_span\<rparr>] else ret)
      in (ret1, nums))"

text \<open>The loop of \<open>AppendLargeBlockChunkTasks\<close>, which is entered with a positive chunk size.\<close>

function AppendLargeBlockChunkTasks_loop ::
  "TransferBlocksTask list \<Rightarrow> nat \<Rightarrow> nat \<Rightarrow> nat \<Rightarrow> nat \<Rightarrow> nat \<Rightarrow> TransferBlocksTask list outcome" where
  "AppendLargeBlockChunkTasks_loop ret bindex tindex toffset remaining chunk =
     (if remaining = 0 then Ok ret
      else if chunk = 0 then Crash
      else
        let cur = min remaining chunk in
        AppendLargeBlockChunkTasks_loop
          (ret @ [\<lparr>task_type = kTaskTypeStartBlock, buffer_index = bindex, block_span = no_span\<rparr>,
                  \<lparr>task_type = kTaskTypeTransferBlock, buffer_index = bindex,
                   block_span = \<lparr>buffer_block_start = 0, tensor_offset = toffset, tensor_index = tindex, span_size = cur\<rparr>\<rparr>,
                  \<lparr>task_type = kTaskTypeEndBlock, buffer_index = bindex, block_span = no_span\<rparr>])
          bindex tindex (add64 toffset cur) (remaining - cur) chunk)"
  by pat_completeness auto
termination
  by (relation "measure (\<lambda>(ret, b, t, toffset, remaining, chunk). remaining)") auto

declare AppendLargeBlockChunkTasks_loop.simps [simp del]

definition AppendLargeBlockChunkTasks ::
  "TransferBlocksTask list \<Rightarrow> nat \<Rightarrow> nat \<Rightarrow> nat \<Rightarrow> nat \<Rightarrow> nat \<Rightarrow> nat \<Rightarrow> TransferBlocksTask list outcome" where
  "AppendLargeBlockChunkTasks ret bindex tindex bsize block_index block_transfer_size chunk_buffer_size =
     (if \<not> chunk_buffer_size \<noteq> 0 then Err LLM_PARAM_INVALID
      else AppendLargeBlockChunkTasks_loop ret bindex tindex (mul64 block_index bsize) block_transfer_size chunk_buffer_size)"

record DataTransferTaskGenerator =
  num_tensors_g :: nat
  num_buffers :: nat
  gbuffer_size :: nat
  buffer_block_nums :: "nat list"

definition kGenMaxBlockSize :: nat where "kGenMaxBlockSize = 4 * 1024 * 1024"

definition new_generator :: "nat \<Rightarrow> nat \<Rightarrow> nat \<Rightarrow> DataTransferTaskGenerator" where
  "new_generator n b sz =
     \<lparr>num_tensors_g = u32 n, num_buffers = u32 b, gbuffer_size = u32 sz, buffer_block_nums = []\<rparr>"

type_synonym gen_acc = "TransferBlocksTask list \<times> BlockTaskGenState \<times> nat \<times> nat list"

text \<open>The body of the inner loop of \<open>DoGenerate\<close>: tasks, state, \<open>num_transfer_tasks\<close> and
  \<open>buffer_block_nums_\<close>. The set \<open>used_buffer_indices\<close> is only written and omitted.\<close>

definition DoGenerate_step ::
  "DataTransferTaskGenerator \<Rightarrow> nat \<Rightarrow> nat \<Rightarrow> nat list \<Rightarrow> nat \<Rightarrow> nat \<Rightarrow> nat \<Rightarrow> gen_acc \<Rightarrow> gen_acc outcome" where
  "DoGenerate_step g bsize tail block_indices n i k acc =
     (case acc of (ret, state, num_transfer_tasks, nums) \<Rightarrow>
      if k \<ge> length block_indices then Crash
      else
        let block_index = block_indices ! k;
            cur_block_size = (if k = n - 1 then tail else bsize);
            ntt = (if cur_buffer_index state \<noteq> prev_buffer_index state then 0 else num_transfer_tasks)
        in case AppendBlockTransferTask ret state i bsize block_index cur_block_size kGenMaxBlockSize of
             (ret1, state1, merged) \<Rightarrow>
               let ntt1 = (if \<not> merged then add32 ntt 1 else ntt);
                   bbi = add32 (buffer_block_index state1) 1
               in if bbi \<ge> gbuffer_size g div bsize \<or> ntt1 \<ge> kBufferBlocks
                  then if num_buffers g = 0 then Crash
                       else Ok (ret1 @ [\<lparr>task_type = kTaskTypeEndBlock, buffer_index = cur_buffer_index state1, block_span = no_span\<rparr>],
                                state1\<lparr>cur_buffer_index := add32 (cur_buffer_index state1) 1 mod num_buffers g,
                                       buffer_block_index := 0, prev_task := None, prev_block_index := block_index\<rparr>,
                                ntt1, nums @ [bbi])
                  else Ok (ret1, state1\<lparr>buffer_block_index := bbi, prev_block_index := block_index\<rparr>, ntt1, nums))"

definition next_tensor :: "BlockTaskGenState \<Rightarrow> BlockTaskGenState" where
  "next_tensor state = state\<lparr>prev_task := None, prev_block_index := UINT64_MAX\<rparr>"

definition DoGenerate ::
  "DataTransferTaskGenerator \<Rightarrow> nat \<Rightarrow> nat \<Rightarrow> nat \<Rightarrow> nat list
    \<Rightarrow> (TransferBlocksTask list \<times> DataTransferTaskGenerator) outcome" where
  "DoGenerate g bsize tail n block_indices =
     (if bsize = 0 then Crash
      else
        obind (ofold (\<lambda>i (ret, state, ntt, nums).
                 ofold (DoGenerate_step g bsize tail block_indices n i) [0 ..< n] (ret, next_tensor state, ntt, nums))
               [0 ..< num_tensors_g g] ([], new_gen_state, 0, buffer_block_nums g)) (\<lambda>(ret, state, ntt, nums).
        case FinalizeTransferTasks ret (buffer_block_index state) (cur_buffer_index state) nums of
          (ret1, nums1) \<Rightarrow> Ok (ret1, g\<lparr>buffer_block_nums := nums1\<rparr>)))"

definition GetNextBufBlockNum :: "DataTransferTaskGenerator \<Rightarrow> nat \<Rightarrow> nat \<Rightarrow> nat" where
  "GetNextBufBlockNum g buffer_task_index remote_buffer_block_num =
     (if buffer_task_index < length (buffer_block_nums g) then buffer_block_nums g ! buffer_task_index
      else remote_buffer_block_num)"

text \<open>The client's loop body: tasks, state, \<open>buffer_task_index\<close> and \<open>remote_buffer_block_num\<close>.\<close>

type_synonym client_acc = "TransferBlocksTask list \<times> BlockTaskGenState \<times> nat \<times> nat"

definition ClientBlocks_step ::
  "DataTransferTaskGenerator \<Rightarrow> nat \<Rightarrow> nat \<Rightarrow> nat list \<Rightarrow> nat \<Rightarrow> nat \<Rightarrow> nat \<Rightarrow> client_acc \<Rightarrow> client_acc outcome" where
  "ClientBlocks_step g bsize tail block_indices n i k acc =
     (case acc of (ret, state, buffer_task_index, remote_num) \<Rightarrow>
      if k \<ge> length block_indices then Crash
      else
        let block_index = block_indices ! k;
            cur_block_size = (if k = n - 1 then tail else bsize)
        in case AppendBlockTransferTask ret state i bsize block_index cur_block_size kGenMaxBlockSize of
             (ret1, state1, merged) \<Rightarrow>
               let bbi = add32 (buffer_block_index state1) 1
               in if bbi \<ge> gbuffer_size g div bsize \<or> bbi \<ge> remote_num
                  then if num_buffers g = 0 then Crash
                       else
                         let bti = add32 buffer_task_index 1 in
                         Ok (ret1 @ [\<lparr>task_type = kTaskTypeEndBlock, buffer_index = cur_buffer_index state1, block_span = no_span\<rparr>],
                             state1\<lparr>cur_buffer_index := add32 (cur_buffer_index state1) 1 mod num_buffers g,
                                    buffer_block_index := 0, prev_task := None, prev_block_index := block_index\<rparr>,
                             bti, GetNextBufBlockNum g bti remote_num)
                  else Ok (ret1, state1\<lparr>buffer_block_index := bbi, prev_block_index := block_index\<rparr>,
                           buffer_task_index, remote_num))"

definition DoGenerateForClientBlocks ::
  "DataTransferTaskGenerator \<Rightarrow> nat \<Rightarrow> nat \<Rightarrow> nat \<Rightarrow> nat list \<Rightarrow> nat list
    \<Rightarrow> (TransferBlocksTask list \<times> DataTransferTaskGenerator) outcome" where
  "DoGenerateForClientBlocks g bsize tail n block_indices remote_block_indices =
     (if bsize = 0 then Crash
      else
        obind (DoGenerate g bsize tail n remote_block_indices) (\<lambda>(unused, g1).
        if buffer_block_nums g1 = [] then Crash
        else
          obind (ofold (\<lambda>i (ret, state, bti, rn).
                   ofold (ClientBlocks_step g1 bsize tail block_indices n i) [0 ..< n] (ret, next_tensor state, bti, rn))
                 [0 ..< num_tensors_g g1] ([], new_gen_state, 0, buffer_block_nums g1 ! 0)) (\<lambda>(ret, state, bti, rn).
          Ok (if ret \<noteq> [] \<and> task_type (last ret) \<noteq> kTaskTypeEndBlock
              then ret @ [\<lparr>task_type = kTaskTypeEndBlock, buffer_index = cur_buffer_index state, block_span = no_span\<rparr>]
              else ret, g1))))"

definition DoGenerateForLargeBlock ::
  "DataTransferTaskGenerator \<Rightarrow> nat \<Rightarrow> nat \<Rightarrow> nat \<Rightarrow> nat list \<Rightarrow> TransferBlocksTask list outcome" where
  "DoGenerateForLargeBlock g bsize tail n block_indices =
     ofold (\<lambda>i. ofold (\<lambda>k tasks.
        if k \<ge> length block_indices then Crash
        else AppendLargeBlockChunkTasks tasks 0 i bsize (block_indices ! k) (if k = n - 1 then tail else bsize) (gbuffer_size g))
       [0 ..< n]) [0 ..< num_tensors_g g] []"

text \<open>\<open>GenerateTasks\<close> for continuous tensors. The division is one of signed 64-bit numbers; a vector
  of more than \<open>2 ^ 63 - 1\<close> bytes cannot be made and throws.\<close>

definition GenerateTasks_cont :: "DataTransferTaskGenerator \<Rightarrow> int \<Rightarrow> nat \<Rightarrow> TransferBlocksTask list outcome" where
  "GenerateTasks_cont g tsize bsize =
     (if bsize = 0 then Crash
      else
        let q = (if tsize < 0 then - (- tsize div int bsize) else tsize div int bsize);
            r = tsize - int bsize * q;
            block_num = (if r > 0 then q + 1 else q);
            tail = (if r > 0 then nat r else bsize)
        in if block_num < 0 \<or> block_num \<ge> 2 ^ 60 then Crash
           else
             let n = u32 (nat block_num); block_indices = [0 ..< nat block_num] in
             if bsize > gbuffer_size g then DoGenerateForLargeBlock g bsize (u32 tail) n block_indices
             else obind (DoGenerate g bsize (u32 tail) n block_indices) (\<lambda>(tasks, g1). Ok tasks))"

definition GenerateTasks_blocks ::
  "DataTransferTaskGenerator \<Rightarrow> nat \<Rightarrow> nat \<Rightarrow> nat list \<Rightarrow> nat list option \<Rightarrow> TransferBlocksTask list outcome" where
  "GenerateTasks_blocks g bsize n block_indices remote_block_indices =
     (if bsize > gbuffer_size g then DoGenerateForLargeBlock g bsize bsize n block_indices
      else case remote_block_indices of
        None \<Rightarrow> obind (DoGenerate g bsize bsize n block_indices) (\<lambda>(tasks, g1). Ok tasks)
      | Some remote \<Rightarrow>
          obind (DoGenerateForClientBlocks g bsize bsize n block_indices remote) (\<lambda>(tasks, g1). Ok tasks))"

section \<open>The server's choice of block size and tasks\<close>

text \<open>\<open>ResolveBlockSize\<close>: \<open>block_size_\<close> (32 bits) and \<open>tensor_size_\<close> (signed 64 bits).\<close>

definition to_int64 :: "nat \<Rightarrow> int" where
  "to_int64 n = (if n mod 2 ^ 64 < 2 ^ 63 then int (n mod 2 ^ 64) else int (n mod 2 ^ 64) - 2 ^ 64)"

definition ResolveBlockSize :: "TransferCacheReq \<Rightarrow> CacheEntry \<Rightarrow> (nat \<times> int) outcome" where
  "ResolveBlockSize request entry =
     (let tsize = to_int64 (pull_size request) in
      if block_size request \<noteq> 0 then
        (if num_blocks entry \<noteq> 0
         then if \<not> block_size request = stride entry then Err LLM_PARAM_INVALID else Ok (u32 (block_size request), tsize)
         else Ok (u32 (block_size request), min tsize (to_int64 (stride entry))))
      else if \<not> tsize > 0 then Err LLM_PARAM_INVALID
      else if \<not> num_blocks entry = 0 then Err LLM_PARAM_INVALID
      else Ok (kBlockSizeForContMem, tsize))"

definition D2H_GenerateTasks ::
  "TransferCacheReq \<Rightarrow> CacheEntry \<Rightarrow> nat \<Rightarrow> nat \<Rightarrow> int \<Rightarrow> TransferBlocksTask list outcome" where
  "D2H_GenerateTasks req entry data_addresses bsize tsize =
     (let g = new_generator data_addresses (dst_addr_count req) (dst_buffer_size req) in
      if num_blocks entry = 0 then GenerateTasks_cont g tsize bsize
      else if \<not> buffer_info_count req > 0 then Err LLM_PARAM_INVALID
      else
        obind (collect (\<lambda>i. obind (transfer_info req (add32 (dst_addr_count req) i)) (\<lambda>info. Ok (block_start_index info)))
                 [0 ..< buffer_info_count req]) (\<lambda>block_indices.
        GenerateTasks_blocks g bsize (u32 (length block_indices)) block_indices None))"

text \<open>\<open>Initialize\<close>. The addresses of the requested tensors with the batch offset added; reading past the
  end of \<open>cache_addrs\<close> is a crash.\<close>

definition D2H_data_addresses :: "CacheEntry \<Rightarrow> TransferCacheReq \<Rightarrow> nat \<Rightarrow> nat list outcome" where
  "D2H_data_addresses entry req offset =
     (let start_index = (if src_tensor_indices_size req = 0 then 0 else src_tensor_start_index req);
          end_index = (if src_tensor_indices_size req = 0 then length (cache_addrs entry)
                       else start_index + src_tensor_indices_size req)
      in collect (\<lambda>i. if i \<ge> length (cache_addrs entry) then Crash else Ok (add64 (cache_addrs entry ! i) offset))
           [start_index ..< end_index])"

text \<open>The addresses of the connection that the job uses, the response, and the members of the job. The flags
  in \<open>receive_flags\<close> are set to 1, so that the first round does not wait.\<close>

record EntityInfo =
  local_resp_ptr :: nat
  remote_req_ptr :: nat
  send_dev_buffer_resp_ptr :: nat

record ResponseInfo =
  ret_code :: status
  transfer_count :: nat
  resp_block_size :: nat
  sync_flag_addresses :: "nat list"

record D2HDataTransferJob =
  d2h_block_size :: nat
  d2h_tensor_size :: int
  d2h_tasks :: "TransferBlocksTask list"
  d2h_data_addresses :: "nat list"
  dst_buffers :: "nat list"
  dst_receive_flag_addresses :: "nat list"
  receive_flags :: "nat list"
  send_sync_flag :: nat

text \<open>\<open>memcpy_ret\<close> is what the copy of the sync flag to the device returned, \<open>send_response\<close> the status of
  \<open>CommEntity::SendResponse\<close> for a response.\<close>

definition D2H_Initialize ::
  "'a acl_consts_scheme \<Rightarrow> EntityInfo \<Rightarrow> aclError \<Rightarrow> (ResponseInfo \<Rightarrow> status) \<Rightarrow> CacheEntry \<Rightarrow> TransferCacheReq \<Rightarrow> nat \<Rightarrow>
   D2HDataTransferJob outcome" where
  "D2H_Initialize c info memcpy_ret send_response entry req offset =
     (let n = dst_addr_count req;
          resp_len = CalcResponseSize n;
          local_recv_flag_addr_base = add64 (local_resp_ptr info) resp_len;
          req_layout_size = CalcMinRequestSize n (buffer_info_count req) kBufferInfoMultiplierD2h;
          remote_recv_flag_addr_base = add64 (remote_req_ptr info) req_layout_size;
          recv_flags = map (\<lambda>i. add64 local_recv_flag_addr_base (mul64 4 i)) [0 ..< n]
      in obind (collect (\<lambda>i. obind (transfer_info req i) (\<lambda>t. Ok (dst_addr t))) [0 ..< n]) (\<lambda>dsts.
         if memcpy_ret \<noteq> ACL_ERROR_NONE then Err (ConvertAclError2Ge c memcpy_ret)
         else
           obind (D2H_data_addresses entry req offset) (\<lambda>addrs.
           obind (ResolveBlockSize req entry) (\<lambda>(bsize, tsize).
           obind (D2H_GenerateTasks req entry (length addrs) bsize tsize) (\<lambda>tasks.
           let ret = send_response \<lparr>ret_code = SUCCESS, transfer_count = u32 (length recv_flags), resp_block_size = bsize,
                                    sync_flag_addresses = recv_flags\<rparr>
           in if ret \<noteq> SUCCESS then Err ret
              else Ok \<lparr>d2h_block_size = bsize, d2h_tensor_size = tsize, d2h_tasks = tasks, d2h_data_addresses = addrs,
                      dst_buffers = dsts,
                      dst_receive_flag_addresses = map (\<lambda>i. add64 remote_recv_flag_addr_base (mul64 4 i)) [0 ..< n],
                      receive_flags = recv_flags,
                      send_sync_flag = add64 (send_dev_buffer_resp_ptr info) resp_len\<rparr>)))))"


section \<open>The flow of a task list\<close>

text \<open>What a task list does, block by block: \<open>FBlock tensor offset length buffer position\<close> moves
  \<open>length\<close> bytes between byte \<open>offset\<close> of a tensor and block \<open>position\<close> of a buffer.\<close>

datatype flow_event = FStart nat | FBlock nat nat nat nat nat | FEnd nat

definition task_flow :: "nat \<Rightarrow> TransferBlocksTask \<Rightarrow> flow_event list" where
  "task_flow bsize t =
     (if task_type t = kTaskTypeStartBlock then [FStart (buffer_index t)]
      else if task_type t = kTaskTypeTransferBlock then
        (let s = block_span t in
         map (\<lambda>q. FBlock (tensor_index s) (tensor_offset s + q * bsize) (min bsize (span_size s - q * bsize))
                   (buffer_index t) (buffer_block_start s + q))
           [0 ..< (span_size s + bsize - 1) div bsize])
      else if task_type t = kTaskTypeEndBlock then [FEnd (buffer_index t)] else [])"

definition flow :: "nat \<Rightarrow> TransferBlocksTask list \<Rightarrow> flow_event list" where
  "flow bsize tasks = concat (map (task_flow bsize) tasks)"

text \<open>The flow that fills the buffers in turn, a given number of blocks in each round.\<close>

definition numbered :: "nat \<Rightarrow> nat \<Rightarrow> piece list \<Rightarrow> flow_event list" where
  "numbered b pos blocks = map (\<lambda>(q, (i, toffset, len)). FBlock i toffset len b q) (enumerate pos blocks)"

definition round_start :: "nat \<Rightarrow> nat \<Rightarrow> flow_event list" where
  "round_start nb r = (if r = 0 \<or> nb \<noteq> 1 then [FStart (r mod nb)] else [])"

fun layout :: "nat \<Rightarrow> nat \<Rightarrow> nat list \<Rightarrow> piece list \<Rightarrow> flow_event list" where
  "layout nb r [] blocks = []"
| "layout nb r (m # ms) blocks =
     round_start nb r @ numbered (r mod nb) 0 (take m blocks) @ [FEnd (r mod nb)] @ layout nb (Suc r) ms (drop m blocks)"

definition open_round :: "nat \<Rightarrow> nat \<Rightarrow> piece list \<Rightarrow> flow_event list" where
  "open_round nb r blocks = (if blocks = [] then [] else round_start nb r @ numbered (r mod nb) 0 blocks)"

lemma flow_append [simp]: "flow bsize (xs @ ys) = flow bsize xs @ flow bsize ys"
  by (simp add: flow_def)

lemma flow_Nil [simp]: "flow bsize [] = []"
  by (simp add: flow_def)

lemma numbered_snoc: "numbered b pos (xs @ [(i, toffset, len)]) = numbered b pos xs @ [FBlock i toffset len b (pos + length xs)]"
  by (simp add: numbered_def enumerate_append_eq)

lemma layout_snoc:
  "sum_list ms = length d1 \<Longrightarrow> m = length d2 \<Longrightarrow>
   layout nb r (ms @ [m]) (d1 @ d2) =
     layout nb r ms d1 @ round_start nb (r + length ms) @ numbered ((r + length ms) mod nb) 0 d2 @ [FEnd ((r + length ms) mod nb)]"
proof (induction ms arbitrary: r d1)
  case (Cons k ms)
  then have k: "k \<le> length d1" by simp
  have "layout nb (Suc r) (ms @ [m]) (drop k d1 @ d2) =
     layout nb (Suc r) ms (drop k d1) @ round_start nb (Suc r + length ms) @ numbered ((Suc r + length ms) mod nb) 0 d2
       @ [FEnd ((Suc r + length ms) mod nb)]"
    using Cons.prems by (intro Cons.IH) simp_all
  then show ?case using k by simp
qed simp

lemma ceil_div_mult: "(b::nat) > 0 \<Longrightarrow> 0 < c \<Longrightarrow> c \<le> b \<Longrightarrow> (m * b + c + b - 1) div b = Suc m"
proof -
  assume "0 < b" "0 < c" "c \<le> b"
  then have "m * b + c + b - 1 = (c - 1) + Suc m * b" by simp
  also have "\<dots> div b = (c - 1) div b + Suc m" using \<open>0 < b\<close> by (subst div_mult_self1) simp_all
  finally show ?thesis using \<open>c \<le> b\<close> \<open>0 < c\<close> by (simp add: div_less)
qed

text \<open>A transfer task of whole blocks, and the same task extended by one more block.\<close>

lemma task_flow_extend:
  assumes "0 < bsize" "0 < c" "c \<le> bsize" "task_type t = kTaskTypeTransferBlock" "span_size (block_span t) = m * bsize"
    and "t' = t\<lparr>block_span := (block_span t)\<lparr>span_size := m * bsize + c\<rparr>\<rparr>"
  shows "task_flow bsize t' = task_flow bsize t @
    [FBlock (tensor_index (block_span t)) (tensor_offset (block_span t) + m * bsize) c (buffer_index t) (buffer_block_start (block_span t) + m)]"
proof -
  have m: "(m * bsize + bsize - 1) div bsize = m"
  proof (cases m)
    case (Suc k)
    have "m * bsize = k * bsize + bsize" using Suc by simp
    with ceil_div_mult [of bsize bsize k] assms(1) Suc show ?thesis by (simp only:)
  qed (use assms(1) in simp)
  have "min bsize (m * bsize + c - q * bsize) = min bsize (m * bsize - q * bsize)" if "q < m" for q
  proof -
    have "Suc q * bsize \<le> m * bsize" using that by (intro mult_le_mono1) simp
    then show ?thesis by simp
  qed
  then show ?thesis
    using assms(2-6) ceil_div_mult [OF assms(1-3), of m] m
    by (simp add: task_flow_def task_type_defs Let_def)
qed

lemma task_flow_single:
  assumes "0 < bsize" "0 < c" "c \<le> bsize"
  shows "task_flow bsize \<lparr>task_type = kTaskTypeTransferBlock, buffer_index = b,
      block_span = \<lparr>buffer_block_start = p, tensor_offset = toffset, tensor_index = i, span_size = c\<rparr>\<rparr> = [FBlock i toffset c b p]"
  using assms ceil_div_mult [OF assms, of 0] by (simp add: task_flow_def task_type_defs)

lemma task_flow_ends [simp]:
  "task_flow bsize \<lparr>task_type = kTaskTypeStartBlock, buffer_index = b, block_span = s\<rparr> = [FStart b]"
  "task_flow bsize \<lparr>task_type = kTaskTypeEndBlock, buffer_index = b, block_span = s\<rparr> = [FEnd b]"
  by (simp_all add: task_flow_def task_type_defs)

lemma flow_single [simp]: "flow bsize [t] = task_flow bsize t"
  by (simp add: flow_def)


section \<open>One step of the generators\<close>

definition prev_buffer :: "nat \<Rightarrow> nat \<Rightarrow> nat" where
  "prev_buffer nb r = (if r = 0 then UINT32_MAX else (r - 1) mod nb)"

text \<open>The state after \<open>ms\<close> closed rounds, with the pieces \<open>d2\<close> in the open one.\<close>

definition gen_inv :: "nat \<Rightarrow> nat \<Rightarrow> TransferBlocksTask list \<Rightarrow> BlockTaskGenState \<Rightarrow> nat list \<Rightarrow> piece list \<Rightarrow> piece list \<Rightarrow> bool" where
  "gen_inv nb bsize ret st ms d1 d2 \<longleftrightarrow>
     sum_list ms = length d1 \<and> length d2 = buffer_block_index st \<and>
     flow bsize ret = layout nb 0 ms d1 @ open_round nb (length ms) d2 \<and>
     cur_buffer_index st = length ms mod nb \<and>
     prev_buffer_index st = (if d2 = [] then prev_buffer nb (length ms) else cur_buffer_index st) \<and>
     (ret = [] \<longleftrightarrow> ms = [] \<and> d2 = []) \<and>
     (ret \<noteq> [] \<longrightarrow> task_type (last ret) = (if d2 = [] then kTaskTypeEndBlock else kTaskTypeTransferBlock))"

text \<open>The task that \<open>prev_task\<close> points to is the last one and ends right behind the previous block.\<close>

definition prev_inv :: "nat \<Rightarrow> nat \<Rightarrow> TransferBlocksTask list \<Rightarrow> BlockTaskGenState \<Rightarrow> bool" where
  "prev_inv bsize i ret st \<longleftrightarrow>
     (\<forall>p. prev_task st = Some p \<longrightarrow>
        ret \<noteq> [] \<and> p = length ret - 1 \<and> prev_buffer_index st = cur_buffer_index st \<and>
        task_type (last ret) = kTaskTypeTransferBlock \<and> buffer_index (last ret) = cur_buffer_index st \<and>
        tensor_index (block_span (last ret)) = i \<and>
        (\<exists>m. span_size (block_span (last ret)) = m * bsize \<and>
             buffer_block_start (block_span (last ret)) + m = buffer_block_index st \<and>
             tensor_offset (block_span (last ret)) + m * bsize = Suc (prev_block_index st) * bsize) \<and>
        Suc (prev_block_index st) * bsize < 2 ^ 64)"

lemma round_start_iff:
  "0 < nb \<Longrightarrow> nb < 2 ^ 32 \<Longrightarrow>
   round_start nb r = (if r mod nb \<noteq> prev_buffer nb r then [FStart (r mod nb)] else [])"
proof (cases r)
  case 0
  assume "nb < 2 ^ 32"
  with 0 show ?thesis by (simp add: round_start_def prev_buffer_def)
next
  case (Suc k)
  assume nb: "0 < nb" "nb < 2 ^ 32"
  have "Suc k mod nb = k mod nb \<longleftrightarrow> nb = 1"
    using nb by (auto simp: mod_Suc)
  with Suc show ?thesis by (simp add: round_start_def prev_buffer_def)
qed

text \<open>The piece a call adds, with the tasks before it.\<close>

definition with_start :: "TransferBlocksTask list \<Rightarrow> BlockTaskGenState \<Rightarrow> TransferBlocksTask list" where
  "with_start ret st = (if cur_buffer_index st \<noteq> prev_buffer_index st
     then ret @ [\<lparr>task_type = kTaskTypeStartBlock, buffer_index = cur_buffer_index st, block_span = no_span\<rparr>] else ret)"

definition appended :: "nat \<Rightarrow> nat \<Rightarrow> nat \<Rightarrow> nat \<Rightarrow> TransferBlocksTask list \<Rightarrow> BlockTaskGenState
    \<Rightarrow> TransferBlocksTask list \<Rightarrow> BlockTaskGenState \<Rightarrow> bool" where
  "appended bsize i idx c ret st ret' st' \<longleftrightarrow>
     flow bsize ret' = flow bsize (with_start ret st) @ [FBlock i (idx * bsize) c (cur_buffer_index st) (buffer_block_index st)] \<and>
     ret' \<noteq> [] \<and> task_type (last ret') = kTaskTypeTransferBlock \<and> cur_buffer_index st' = cur_buffer_index st \<and>
     prev_buffer_index st' = cur_buffer_index st \<and> buffer_block_index st' = buffer_block_index st \<and>
     (c = bsize \<longrightarrow> prev_inv bsize i ret' (st'\<lparr>buffer_block_index := Suc (buffer_block_index st), prev_block_index := idx\<rparr>))"

lemma Append_fresh:
  assumes "AppendBlockTransferTask ret st i bsize idx c maxb = (ret', st', False)"
    and "0 < bsize" "0 < c" "c \<le> bsize" "Suc idx * bsize < 2 ^ 64"
  shows "appended bsize i idx c ret st ret' st'"
proof -
  let ?new = "\<lparr>task_type = kTaskTypeTransferBlock, buffer_index = cur_buffer_index st,
      block_span = \<lparr>buffer_block_start = buffer_block_index st, tensor_offset = idx * bsize, tensor_index = i, span_size = c\<rparr>\<rparr>"
  have "mul64 idx bsize = idx * bsize" using assms(5) by (simp add: mul64_def)
  with assms(1) have "ret' = with_start ret st @ [?new]"
      "st' = st\<lparr>prev_buffer_index := cur_buffer_index st, prev_task := Some (length (with_start ret st))\<rparr>"
    by (auto simp: AppendBlockTransferTask_def with_start_def Let_def split: option.splits if_splits)
  moreover have "\<exists>m. bsize = m * bsize \<and> buffer_block_index st + m = Suc (buffer_block_index st) \<and>
      idx * bsize + m * bsize = Suc idx * bsize" by (intro exI [of _ 1]) simp
  ultimately show ?thesis
    using assms(2-5) by (simp add: task_flow_single prev_inv_def appended_def)
qed

lemma Append_merged:
  assumes A: "AppendBlockTransferTask ret st i bsize idx c maxb = (ret', st', True)"
    and b: "0 < bsize" "0 < c" "c \<le> bsize" "Suc idx * bsize < 2 ^ 64"
    and room: "Suc (buffer_block_index st) * bsize < 2 ^ 32" and inv: "prev_inv bsize i ret st"
  shows "appended bsize i idx c ret st ret' st'"
proof -
  obtain p where p: "prev_task st = Some p"
    using A by (auto simp: AppendBlockTransferTask_def Let_def split: option.splits)
  with inv obtain m where m: "ret \<noteq> []" "p = length ret - 1" "prev_buffer_index st = cur_buffer_index st"
      "task_type (last ret) = kTaskTypeTransferBlock" "buffer_index (last ret) = cur_buffer_index st"
      "tensor_index (block_span (last ret)) = i" "span_size (block_span (last ret)) = m * bsize"
      "buffer_block_start (block_span (last ret)) + m = buffer_block_index st"
      "tensor_offset (block_span (last ret)) + m * bsize = Suc (prev_block_index st) * bsize"
      "Suc (prev_block_index st) * bsize < 2 ^ 64"
    unfolding prev_inv_def by blast
  have "Suc (prev_block_index st) * 1 \<le> Suc (prev_block_index st) * bsize" using b(1) by (intro mult_le_mono2) simp
  then have add1: "add64 (prev_block_index st) 1 = Suc (prev_block_index st)" using m(10) by (simp add: add64_def)
  have "Suc m * bsize \<le> Suc (buffer_block_index st) * bsize" using m(8) by (intro mult_le_mono1) simp
  then have "m * bsize + c < 2 ^ 32" using b(3) room by (metis add.commute add_le_cancel_left le_less_trans mult_Suc order_trans)
  then have sz: "add32 (m * bsize) c = m * bsize + c" by (simp add: add32_def)
  obtain ts t where ret: "ret = ts @ [t]" using m(1) by (metis rev_exhaust)
  let ?t' = "t\<lparr>block_span := (block_span t)\<lparr>span_size := m * bsize + c\<rparr>\<rparr>"
  from A p m ret have r: "ret' = ts @ [?t']" "st' = st\<lparr>prev_buffer_index := cur_buffer_index st\<rparr>"
      "idx = Suc (prev_block_index st)"
    by (auto simp: AppendBlockTransferTask_def Let_def sz add1 add1 [unfolded One_nat_def] split: if_splits)
  have "task_flow bsize ?t' = task_flow bsize t @
      [FBlock i (tensor_offset (block_span t) + m * bsize) c (cur_buffer_index st) (buffer_block_start (block_span t) + m)]"
    using task_flow_extend [OF b(1-3), of t m ?t'] m(4-7) ret by simp
  moreover have "prev_inv bsize i ret' (st'\<lparr>buffer_block_index := Suc (buffer_block_index st), prev_block_index := idx\<rparr>)"
    if "c = bsize"
    unfolding prev_inv_def using m p ret r b that by (auto intro!: exI [of _ "Suc m"])
  ultimately show ?thesis using r m ret by (simp add: appended_def with_start_def)
qed

lemma appended_flow:
  assumes "appended bsize i idx c ret st ret' st'" "gen_inv nb bsize ret st ms d1 d2" "0 < nb" "nb < 2 ^ 32"
  shows "flow bsize ret' = layout nb 0 ms d1 @ round_start nb (length ms) @
           numbered (length ms mod nb) 0 (d2 @ [(i, idx * bsize, c)])"
proof -
  have "flow bsize (with_start ret st) = layout nb 0 ms d1 @ round_start nb (length ms) @ numbered (length ms mod nb) 0 d2"
    using assms(2) by (auto simp: gen_inv_def with_start_def open_round_def round_start_iff [OF assms(3,4)] numbered_def)
  with assms(1,2) show ?thesis by (simp add: appended_def gen_inv_def numbered_snoc)
qed

text \<open>Keeping the round open, and closing it.\<close>

lemma gen_inv_keep:
  assumes "appended bsize i idx c ret st ret' st'" "gen_inv nb bsize ret st ms d1 d2" "0 < nb" "nb < 2 ^ 32"
  shows "gen_inv nb bsize ret' (st'\<lparr>buffer_block_index := Suc (buffer_block_index st), prev_block_index := idx\<rparr>) ms d1
           (d2 @ [(i, idx * bsize, c)])"
  using appended_flow [OF assms] assms(1,2) by (simp add: gen_inv_def appended_def open_round_def)

lemma gen_inv_close:
  assumes "appended bsize i idx c ret st ret' st'" "gen_inv nb bsize ret st ms d1 d2" "0 < nb" "nb < 2 ^ 32"
  shows "gen_inv nb bsize
           (ret' @ [\<lparr>task_type = kTaskTypeEndBlock, buffer_index = cur_buffer_index st', block_span = no_span\<rparr>])
           (st'\<lparr>cur_buffer_index := add32 (cur_buffer_index st') 1 mod nb, buffer_block_index := 0, prev_task := None,
                prev_block_index := idx\<rparr>)
           (ms @ [Suc (buffer_block_index st)]) (d1 @ d2 @ [(i, idx * bsize, c)]) []"
proof -
  have r: "cur_buffer_index st' = length ms mod nb" "prev_buffer_index st' = length ms mod nb"
    and d: "length d2 = buffer_block_index st" "sum_list ms = length d1"
    using assms(1,2) by (simp_all add: gen_inv_def appended_def)
  have "length ms mod nb < nb" using assms(3) by simp
  then have "add32 (length ms mod nb) 1 = Suc (length ms mod nb)" using assms(4) by (simp add: add32_def)
  then have nxt: "add32 (length ms mod nb) 1 mod nb = Suc (length ms) mod nb" by (simp add: mod_Suc_eq)
  have "layout nb 0 (ms @ [Suc (buffer_block_index st)]) (d1 @ (d2 @ [(i, idx * bsize, c)])) = layout nb 0 ms d1 @
      round_start nb (length ms) @ numbered (length ms mod nb) 0 (d2 @ [(i, idx * bsize, c)]) @ [FEnd (length ms mod nb)]"
    using layout_snoc [OF d(2), of "Suc (buffer_block_index st)" "d2 @ [(i, idx * bsize, c)]" nb 0] d(1) by simp
  then show ?thesis
    using appended_flow [OF assms] r d nxt
    by (simp add: gen_inv_def open_round_def prev_buffer_def)
qed

lemma prev_inv_closed [simp]: "prev_task st = None \<Longrightarrow> prev_inv bsize i ret st"
  by (simp add: prev_inv_def)

section \<open>The loops\<close>

text \<open>The pieces of tensor \<open>i\<close>, and of all tensors, in order.\<close>

definition tensor_pieces :: "nat \<Rightarrow> nat \<Rightarrow> nat \<Rightarrow> nat list \<Rightarrow> nat \<Rightarrow> nat list \<Rightarrow> piece list" where
  "tensor_pieces bsize tail n block_indices i ks =
     map (\<lambda>k. (i, block_indices ! k * bsize, if k = n - 1 then tail else bsize)) ks"

definition all_pieces :: "nat \<Rightarrow> nat \<Rightarrow> nat \<Rightarrow> nat list \<Rightarrow> nat list \<Rightarrow> piece list" where
  "all_pieces bsize tail n block_indices tensors =
     concat (map (\<lambda>i. tensor_pieces bsize tail n block_indices i [0 ..< n]) tensors)"

definition gen_ok :: "nat \<Rightarrow> nat \<Rightarrow> nat \<Rightarrow> nat \<Rightarrow> nat \<Rightarrow> nat list \<Rightarrow> bool" where
  "gen_ok nb buf bsize tail n block_indices \<longleftrightarrow>
     0 < nb \<and> nb < 2 ^ 32 \<and> 0 < bsize \<and> bsize \<le> buf \<and> buf < 2 ^ 32 \<and> 0 < tail \<and> tail \<le> bsize \<and>
     n \<le> length block_indices \<and> (\<forall>idx \<in> set block_indices. Suc idx * bsize < 2 ^ 64)"

text \<open>The invariant of the server's loop: every closed round has at least one block and at most as
  many as fit.\<close>

definition server_inv :: "nat \<Rightarrow> nat \<Rightarrow> nat \<Rightarrow> piece list \<Rightarrow> gen_acc \<Rightarrow> bool" where
  "server_inv nb buf bsize d acc \<longleftrightarrow>
     (case acc of (ret, st, ntt, ms) \<Rightarrow>
        (\<exists>d1 d2. d = d1 @ d2 \<and> gen_inv nb bsize ret st ms d1 d2) \<and>
        buffer_block_index st < buf div bsize \<and> (\<forall>m \<in> set ms. 0 < m \<and> m \<le> buf div bsize))"

lemma server_invI:
  assumes "gen_inv nb bsize ret st ms d1 d2" "buffer_block_index st < buf div bsize"
    "\<forall>m \<in> set ms. 0 < m \<and> m \<le> buf div bsize" "d = d1 @ d2"
  shows "server_inv nb buf bsize d (ret, st, ntt, ms)"
  using assms by (auto simp: server_inv_def)

lemma room_for_block:
  assumes "bbi < buf div bsize" "buf < (2::nat) ^ 32"
  shows "Suc bbi * bsize < 2 ^ 32" "add32 bbi 1 = Suc bbi" "Suc bbi \<le> buf div bsize"
proof -
  have "Suc bbi * bsize \<le> buf div bsize * bsize" using assms(1) by (intro mult_le_mono1) simp
  also have "\<dots> \<le> buf" by (rule div_times_less_eq_dividend)
  finally show "Suc bbi * bsize < 2 ^ 32" using assms(2) by simp
  have "Suc bbi \<le> buf div bsize" using assms(1) by simp
  also have "\<dots> \<le> buf" by (rule div_le_dividend)
  finally show "add32 bbi 1 = Suc bbi" using assms(2) by (simp add: add32_def)
  show "Suc bbi \<le> buf div bsize" using assms(1) by simp
qed

lemma Append_appended:
  assumes "AppendBlockTransferTask ret st i bsize idx c maxb = (ret', st', merged)"
    and "0 < bsize" "0 < c" "c \<le> bsize" "Suc idx * bsize < 2 ^ 64"
    and "Suc (buffer_block_index st) * bsize < 2 ^ 32" "prev_inv bsize i ret st"
  shows "appended bsize i idx c ret st ret' st'"
proof (cases merged)
  case True
  with assms show ?thesis by (intro Append_merged) simp_all
next
  case False
  with assms(1-5) show ?thesis by (intro Append_fresh) simp_all
qed

lemma DoGenerate_step_inv:
  assumes ok: "gen_ok (num_buffers g) (gbuffer_size g) bsize tail n block_indices" and k: "k < n"
    and inv: "server_inv (num_buffers g) (gbuffer_size g) bsize d (ret, st, ntt, ms)" "prev_inv bsize i ret st"
  shows "\<exists>ret' st' ntt' ms'. DoGenerate_step g bsize tail block_indices n i k (ret, st, ntt, ms) = Ok (ret', st', ntt', ms') \<and>
    server_inv (num_buffers g) (gbuffer_size g) bsize (d @ tensor_pieces bsize tail n block_indices i [k]) (ret', st', ntt', ms') \<and>
    (Suc k < n \<longrightarrow> prev_inv bsize i ret' st')"
proof -
  let ?nb = "num_buffers g" and ?c = "if k = n - 1 then tail else bsize" and ?idx = "block_indices ! k"
  obtain d1 d2 where d: "d = d1 @ d2" and G: "gen_inv ?nb bsize ret st ms d1 d2"
    and bbi: "buffer_block_index st < gbuffer_size g div bsize" and ms: "\<forall>m \<in> set ms. 0 < m \<and> m \<le> gbuffer_size g div bsize"
    using inv(1) by (auto simp: server_inv_def)
  have nb: "0 < ?nb" "?nb < 2 ^ 32" and b: "0 < bsize" "0 < ?c" "?c \<le> bsize" "Suc ?idx * bsize < 2 ^ 64"
    and buf: "gbuffer_size g < 2 ^ 32" and len: "k < length block_indices"
    using ok k by (auto simp: gen_ok_def)
  note room = room_for_block [OF bbi buf]
  obtain ret1 st1 mg where A: "AppendBlockTransferTask ret st i bsize ?idx ?c kGenMaxBlockSize = (ret1, st1, mg)"
    by (metis prod_cases3)
  have ap: "appended bsize i ?idx ?c ret st ret1 st1" by (rule Append_appended [OF A b room(1) inv(2)])
  have "buffer_block_index st1 = buffer_block_index st" using ap by (simp add: appended_def)
  note step = this room(2) A len nb(1)
  have piece: "tensor_pieces bsize tail n block_indices i [k] = [(i, ?idx * bsize, ?c)]"
    by (simp add: tensor_pieces_def)
  let ?ntt1 = "if \<not> mg then add32 (if cur_buffer_index st \<noteq> prev_buffer_index st then 0 else ntt) 1
     else (if cur_buffer_index st \<noteq> prev_buffer_index st then 0 else ntt)"
  show ?thesis
  proof (cases "Suc (buffer_block_index st) \<ge> gbuffer_size g div bsize \<or> ?ntt1 \<ge> kBufferBlocks")
    case True
    let ?ret = "ret1 @ [\<lparr>task_type = kTaskTypeEndBlock, buffer_index = cur_buffer_index st1, block_span = no_span\<rparr>]"
      and ?st = "st1\<lparr>cur_buffer_index := add32 (cur_buffer_index st1) 1 mod ?nb, buffer_block_index := 0, prev_task := None,
                  prev_block_index := ?idx\<rparr>" and ?ms = "ms @ [Suc (buffer_block_index st)]"
    have "DoGenerate_step g bsize tail block_indices n i k (ret, st, ntt, ms) = Ok (?ret, ?st, ?ntt1, ?ms)"
      using True step by (simp add: DoGenerate_step_def Let_def del: One_nat_def)
    moreover have "server_inv ?nb (gbuffer_size g) bsize (d @ tensor_pieces bsize tail n block_indices i [k]) (?ret, ?st, ?ntt1, ?ms)"
      by (rule server_invI [OF gen_inv_close [OF ap G nb]]) (use bbi ms room(3) d piece in auto)
    moreover have "prev_inv bsize i ?ret ?st" by simp
    ultimately show ?thesis by blast
  next
    case False
    let ?st = "st1\<lparr>buffer_block_index := Suc (buffer_block_index st), prev_block_index := ?idx\<rparr>"
    have "DoGenerate_step g bsize tail block_indices n i k (ret, st, ntt, ms) = Ok (ret1, ?st, ?ntt1, ms)"
      using False step by (simp add: DoGenerate_step_def Let_def del: One_nat_def)
    moreover have "server_inv ?nb (gbuffer_size g) bsize (d @ tensor_pieces bsize tail n block_indices i [k]) (ret1, ?st, ?ntt1, ms)"
      by (rule server_invI [OF gen_inv_keep [OF ap G nb]]) (use False ms d piece in auto)
    moreover have "Suc k < n \<longrightarrow> prev_inv bsize i ret1 ?st" using ap by (auto simp: appended_def split: if_splits)
    ultimately show ?thesis by blast
  qed
qed


lemma upt_split: "[0 ..< n] = ys @ k # zs \<Longrightarrow> k = length ys \<and> k < n \<and> (Suc k < n \<longleftrightarrow> zs \<noteq> [])"
proof -
  assume eq: "[0 ..< n] = ys @ k # zs"
  then have "length ([0 ..< n]) = length ys + Suc (length zs)" by simp
  then have len: "n = length ys + Suc (length zs)" by simp
  then have "[0 ..< n] ! length ys = length ys" by (simp del: upt_Suc)
  with eq have "k = length ys" by (metis nth_append_length)
  with len show ?thesis by auto
qed

lemma next_tensor_gen_inv: "gen_inv nb bsize ret (next_tensor st) ms d1 d2 = gen_inv nb bsize ret st ms d1 d2"
  by (simp add: next_tensor_def gen_inv_def)

lemma next_tensor_inv: "server_inv nb buf bsize d (ret, st, ntt, ms) \<Longrightarrow> server_inv nb buf bsize d (ret, next_tensor st, ntt, ms)"
  by (simp add: server_inv_def next_tensor_gen_inv) (simp add: next_tensor_def)

lemma DoGenerate_tensor:
  assumes ok: "gen_ok (num_buffers g) (gbuffer_size g) bsize tail n block_indices"
    and inv: "server_inv (num_buffers g) (gbuffer_size g) bsize d (ret, st, ntt, ms)"
  shows "\<exists>acc. ofold (DoGenerate_step g bsize tail block_indices n i) [0 ..< n] (ret, next_tensor st, ntt, ms) = Ok acc \<and>
    server_inv (num_buffers g) (gbuffer_size g) bsize (d @ tensor_pieces bsize tail n block_indices i [0 ..< n]) acc"
proof -
  let ?P = "\<lambda>ks (ret, st, ntt, ms).
    server_inv (num_buffers g) (gbuffer_size g) bsize (d @ tensor_pieces bsize tail n block_indices i ks) (ret, st, ntt, ms) \<and>
    (length ks < n \<longrightarrow> prev_inv bsize i ret st)"
  have "\<exists>acc. ofold (DoGenerate_step g bsize tail block_indices n i) [0 ..< n] (ret, next_tensor st, ntt, ms) = Ok acc \<and> ?P [0 ..< n] acc"
  proof (rule ofold_invariant)
    show "?P [] (ret, next_tensor st, ntt, ms)"
      using next_tensor_inv [OF inv] by (simp add: tensor_pieces_def next_tensor_def)
  next
    fix ys k zs acc
    assume eq: "[0 ..< n] = ys @ k # zs" and P: "?P ys acc"
    obtain ret st ntt ms where acc: "acc = (ret, st, ntt, ms)" by (metis prod_cases4)
    from upt_split [OF eq] have k: "k = length ys" "k < n" by simp_all
    from DoGenerate_step_inv [OF ok k(2), of "d @ tensor_pieces bsize tail n block_indices i ys" ret st ntt ms i] P k acc
    show "\<exists>acc'. DoGenerate_step g bsize tail block_indices n i k acc = Ok acc' \<and> ?P (ys @ [k]) acc'"
      by (fastforce simp: tensor_pieces_def)
  qed
  then show ?thesis by auto
qed

lemma new_gen_inv: "gen_inv nb bsize [] new_gen_state [] [] []"
  by (simp add: gen_inv_def new_gen_state_def open_round_def prev_buffer_def)

lemma all_pieces_snoc:
  "all_pieces bsize tail n idxs (is @ [i]) = all_pieces bsize tail n idxs is @ tensor_pieces bsize tail n idxs i [0 ..< n]"
  by (simp add: all_pieces_def)

lemma length_all_pieces: "length (all_pieces bsize tail n idxs tensors) = length tensors * n"
  by (induction tensors) (simp_all add: all_pieces_def tensor_pieces_def)

lemma finalize_flow:
  assumes "gen_inv nb bsize ret st ms d1 d2" "\<forall>m \<in> set ms. 0 < m \<and> m \<le> buf div bsize" "buffer_block_index st < buf div bsize"
  shows "\<exists>tasks ms'. FinalizeTransferTasks ret (buffer_block_index st) (cur_buffer_index st) ms = (tasks, ms') \<and>
    flow bsize tasks = layout nb 0 ms' (d1 @ d2) \<and> sum_list ms' = length d1 + length d2 \<and>
    (\<forall>m \<in> set ms'. 0 < m \<and> m \<le> buf div bsize)"
proof (cases "d2 = []")
  case True
  with assms show ?thesis by (auto simp: FinalizeTransferTasks_def gen_inv_def open_round_def)
next
  case False
  with assms(1) have "length d2 = buffer_block_index st" "sum_list ms = length d1"
    by (simp_all add: gen_inv_def)
  moreover have "0 < length d2" using False by simp
  ultimately have "0 < buffer_block_index st" "length d2 = buffer_block_index st" "sum_list ms = length d1" by simp_all
  with False assms layout_snoc [of ms d1 "length d2" d2 nb 0] show ?thesis
    by (auto simp: FinalizeTransferTasks_def gen_inv_def open_round_def task_type_defs flow_def task_flow_def)
qed

text \<open>The server's task list is the layout of all pieces in rounds that fit the buffer.\<close>

lemma DoGenerate_layout:
  assumes ok: "gen_ok (num_buffers g) (gbuffer_size g) bsize tail n block_indices" and fresh: "buffer_block_nums g = []"
  shows "\<exists>tasks ms. DoGenerate g bsize tail n block_indices = Ok (tasks, g\<lparr>buffer_block_nums := ms\<rparr>) \<and>
    flow bsize tasks = layout (num_buffers g) 0 ms (all_pieces bsize tail n block_indices [0 ..< num_tensors_g g]) \<and>
    sum_list ms = num_tensors_g g * n \<and> (\<forall>m \<in> set ms. 0 < m \<and> m \<le> gbuffer_size g div bsize)"
proof -
  let ?nb = "num_buffers g" and ?inv = "server_inv (num_buffers g) (gbuffer_size g) bsize"
  let ?body = "\<lambda>i (ret, state, ntt, nums).
    ofold (DoGenerate_step g bsize tail block_indices n i) [0 ..< n] (ret, next_tensor state, ntt, nums)"
  have b: "0 < bsize" "bsize \<le> gbuffer_size g" using ok by (simp_all add: gen_ok_def)
  have "0 < gbuffer_size g div bsize" using b by (simp add: div_greater_zero_iff)
  then have "?inv [] ([], new_gen_state, 0, [])"
    by (intro server_invI [OF new_gen_inv]) (simp_all add: new_gen_state_def)
  then have "\<exists>acc. ofold ?body [0 ..< num_tensors_g g] ([], new_gen_state, 0, []) = Ok acc \<and>
      ?inv (all_pieces bsize tail n block_indices [0 ..< num_tensors_g g]) acc"
  proof (intro ofold_invariant [where P = "\<lambda>is. ?inv (all_pieces bsize tail n block_indices is)"], goal_cases)
    case 1
    then show ?case by (simp add: all_pieces_def)
  next
    case (2 ys i zs acc)
    obtain ret st ntt ms where acc: "acc = (ret, st, ntt, ms)" by (metis prod_cases4)
    with DoGenerate_tensor [OF ok] 2(3) show ?case by (simp add: all_pieces_snoc)
  qed
  then obtain ret st ntt ms where run: "ofold ?body [0 ..< num_tensors_g g] ([], new_gen_state, 0, []) = Ok (ret, st, ntt, ms)"
    and inv: "?inv (all_pieces bsize tail n block_indices [0 ..< num_tensors_g g]) (ret, st, ntt, ms)"
    by (metis prod_cases4)
  from inv obtain d1 d2 where d: "all_pieces bsize tail n block_indices [0 ..< num_tensors_g g] = d1 @ d2"
    and G: "gen_inv ?nb bsize ret st ms d1 d2" and m: "buffer_block_index st < gbuffer_size g div bsize"
      "\<forall>m \<in> set ms. 0 < m \<and> m \<le> gbuffer_size g div bsize"
    by (auto simp: server_inv_def)
  have total: "length d1 + length d2 = num_tensors_g g * n"
    using arg_cong [OF d, of length] by (simp add: length_all_pieces)
  note fin = finalize_flow [OF G m(2,1)]
  show ?thesis
    using run fresh b fin total d
    by (auto simp: DoGenerate_def split: prod.splits)
qed


section \<open>The client's loop\<close>

text \<open>The client closes its rounds where the server closes them, given by \<open>nums\<close>.\<close>

definition client_inv :: "nat \<Rightarrow> nat \<Rightarrow> nat list \<Rightarrow> piece list \<Rightarrow> client_acc \<Rightarrow> bool" where
  "client_inv nb bsize nums d acc \<longleftrightarrow>
     (case acc of (ret, st, bti, rn) \<Rightarrow>
        (\<exists>d1 d2. d = d1 @ d2 \<and> gen_inv nb bsize ret st (take bti nums) d1 d2) \<and> bti \<le> length nums \<and>
        (bti < length nums \<longrightarrow> rn = nums ! bti \<and> buffer_block_index st < rn) \<and>
        (bti = length nums \<longrightarrow> buffer_block_index st = 0))"

lemma client_invI:
  assumes "gen_inv nb bsize ret st (take bti nums) d1 d2" "d = d1 @ d2" "bti \<le> length nums"
    "bti < length nums \<longrightarrow> rn = nums ! bti \<and> buffer_block_index st < rn" "bti = length nums \<longrightarrow> buffer_block_index st = 0"
  shows "client_inv nb bsize nums d (ret, st, bti, rn)"
  using assms by (auto simp: client_inv_def)

text \<open>While pieces are missing there is a round to fill.\<close>

lemma client_inv_round:
  assumes "client_inv nb bsize nums d (ret, st, bti, rn)" "length d < sum_list nums"
  shows "bti < length nums"
proof (rule ccontr)
  assume "\<not> bti < length nums"
  with assms(1) obtain d1 d2 where "d = d1 @ d2" "sum_list nums = length d1"
    by (auto simp: client_inv_def gen_inv_def)
  with assms(2) show False by simp
qed

lemma ClientBlocks_step_inv:
  assumes ok: "gen_ok (num_buffers g) (gbuffer_size g) bsize tail n block_indices" and k: "k < n"
    and nums: "\<forall>m \<in> set (buffer_block_nums g). 0 < m \<and> m \<le> gbuffer_size g div bsize" "length (buffer_block_nums g) < 2 ^ 32"
    and inv: "client_inv (num_buffers g) bsize (buffer_block_nums g) d (ret, st, bti, rn)" "prev_inv bsize i ret st"
    and more: "length d < sum_list (buffer_block_nums g)"
  shows "\<exists>ret' st' bti' rn'. ClientBlocks_step g bsize tail block_indices n i k (ret, st, bti, rn) = Ok (ret', st', bti', rn') \<and>
    client_inv (num_buffers g) bsize (buffer_block_nums g) (d @ tensor_pieces bsize tail n block_indices i [k]) (ret', st', bti', rn') \<and>
    (Suc k < n \<longrightarrow> prev_inv bsize i ret' st')"
proof -
  let ?nb = "num_buffers g" and ?c = "if k = n - 1 then tail else bsize" and ?idx = "block_indices ! k"
    and ?nums = "buffer_block_nums g"
  have bti: "bti < length ?nums" by (rule client_inv_round [OF inv(1) more])
  then have rn: "rn = ?nums ! bti" "buffer_block_index st < rn" "rn \<le> gbuffer_size g div bsize"
    using inv(1) nums(1) by (auto simp: client_inv_def)
  obtain d1 d2 where d: "d = d1 @ d2" and G: "gen_inv ?nb bsize ret st (take bti ?nums) d1 d2"
    using inv(1) by (auto simp: client_inv_def)
  have nb: "0 < ?nb" "?nb < 2 ^ 32" and b: "0 < bsize" "0 < ?c" "?c \<le> bsize" "Suc ?idx * bsize < 2 ^ 64"
    and buf: "gbuffer_size g < 2 ^ 32" and len: "k < length block_indices"
    using ok k by (auto simp: gen_ok_def)
  note room = room_for_block [OF less_le_trans [OF rn(2,3)] buf]
  obtain ret1 st1 mg where A: "AppendBlockTransferTask ret st i bsize ?idx ?c kGenMaxBlockSize = (ret1, st1, mg)"
    by (metis prod_cases3)
  have ap: "appended bsize i ?idx ?c ret st ret1 st1" by (rule Append_appended [OF A b room(1) inv(2)])
  have "buffer_block_index st1 = buffer_block_index st" using ap by (simp add: appended_def)
  note step = this room(2) A len nb(1)
  have piece: "tensor_pieces bsize tail n block_indices i [k] = [(i, ?idx * bsize, ?c)]"
    by (simp add: tensor_pieces_def)
  have close: "Suc (buffer_block_index st) \<ge> gbuffer_size g div bsize \<or> Suc (buffer_block_index st) \<ge> rn
      \<longleftrightarrow> Suc (buffer_block_index st) = rn" using rn by linarith
  show ?thesis
  proof (cases "Suc (buffer_block_index st) = rn")
    case True
    let ?ret = "ret1 @ [\<lparr>task_type = kTaskTypeEndBlock, buffer_index = cur_buffer_index st1, block_span = no_span\<rparr>]"
      and ?st = "st1\<lparr>cur_buffer_index := add32 (cur_buffer_index st1) 1 mod ?nb, buffer_block_index := 0, prev_task := None,
                  prev_block_index := ?idx\<rparr>" and ?rn = "GetNextBufBlockNum g (Suc bti) rn"
    have "add32 bti 1 = Suc bti" using bti nums(2) by (simp add: add32_def)
    then have "ClientBlocks_step g bsize tail block_indices n i k (ret, st, bti, rn) = Ok (?ret, ?st, Suc bti, ?rn)"
      using True step close by (simp add: ClientBlocks_step_def Let_def del: One_nat_def)
    moreover have "take (Suc bti) ?nums = take bti ?nums @ [Suc (buffer_block_index st)]"
      using bti rn(1) True by (simp add: take_Suc_conv_app_nth)
    then have "client_inv ?nb bsize ?nums (d @ tensor_pieces bsize tail n block_indices i [k]) (?ret, ?st, Suc bti, ?rn)"
      using gen_inv_close [OF ap G nb] bti nums(1)
      by (intro client_invI [where ?d1.0 = "d1 @ d2 @ [(i, ?idx * bsize, ?c)]" and ?d2.0 = "[]"])
        (simp_all add: d piece GetNextBufBlockNum_def)
    moreover have "prev_inv bsize i ?ret ?st" by simp
    ultimately show ?thesis by blast
  next
    case False
    let ?st = "st1\<lparr>buffer_block_index := Suc (buffer_block_index st), prev_block_index := ?idx\<rparr>"
    have "ClientBlocks_step g bsize tail block_indices n i k (ret, st, bti, rn) = Ok (ret1, ?st, bti, rn)"
      using False step close by (simp add: ClientBlocks_step_def Let_def del: One_nat_def)
    moreover have "client_inv ?nb bsize ?nums (d @ tensor_pieces bsize tail n block_indices i [k]) (ret1, ?st, bti, rn)"
      by (rule client_invI [OF gen_inv_keep [OF ap G nb]]) (use False rn bti d piece in simp_all)
    moreover have "Suc k < n \<longrightarrow> prev_inv bsize i ret1 ?st" using ap by (auto simp: appended_def split: if_splits)
    ultimately show ?thesis by blast
  qed
qed

lemma next_tensor_client_inv:
  "client_inv nb bsize nums d (ret, st, bti, rn) \<Longrightarrow> client_inv nb bsize nums d (ret, next_tensor st, bti, rn)"
  by (auto simp: client_inv_def next_tensor_gen_inv) (simp_all add: next_tensor_def)

lemma ClientBlocks_tensor:
  assumes ok: "gen_ok (num_buffers g) (gbuffer_size g) bsize tail n block_indices"
    and nums: "\<forall>m \<in> set (buffer_block_nums g). 0 < m \<and> m \<le> gbuffer_size g div bsize" "length (buffer_block_nums g) < 2 ^ 32"
    and inv: "client_inv (num_buffers g) bsize (buffer_block_nums g) d (ret, st, bti, rn)"
    and more: "length d + n \<le> sum_list (buffer_block_nums g)"
  shows "\<exists>acc. ofold (ClientBlocks_step g bsize tail block_indices n i) [0 ..< n] (ret, next_tensor st, bti, rn) = Ok acc \<and>
    client_inv (num_buffers g) bsize (buffer_block_nums g) (d @ tensor_pieces bsize tail n block_indices i [0 ..< n]) acc"
proof -
  let ?P = "\<lambda>ks (ret, st, bti, rn).
    client_inv (num_buffers g) bsize (buffer_block_nums g) (d @ tensor_pieces bsize tail n block_indices i ks) (ret, st, bti, rn) \<and>
    (length ks < n \<longrightarrow> prev_inv bsize i ret st)"
  have "\<exists>acc. ofold (ClientBlocks_step g bsize tail block_indices n i) [0 ..< n] (ret, next_tensor st, bti, rn) = Ok acc \<and> ?P [0 ..< n] acc"
  proof (rule ofold_invariant)
    show "?P [] (ret, next_tensor st, bti, rn)"
      using next_tensor_client_inv [OF inv] by (simp add: tensor_pieces_def next_tensor_def)
  next
    fix ys k zs acc
    assume eq: "[0 ..< n] = ys @ k # zs" and P: "?P ys acc"
    obtain ret st bti rn where acc: "acc = (ret, st, bti, rn)" by (metis prod_cases4)
    from upt_split [OF eq] have k: "k = length ys" "k < n" by simp_all
    then have "length (d @ tensor_pieces bsize tail n block_indices i ys) < sum_list (buffer_block_nums g)"
      using more by (simp add: tensor_pieces_def)
    with ClientBlocks_step_inv [OF ok k(2) nums, of "d @ tensor_pieces bsize tail n block_indices i ys" ret st bti rn i] P k acc
    show "\<exists>acc'. ClientBlocks_step g bsize tail block_indices n i k acc = Ok acc' \<and> ?P (ys @ [k]) acc'"
      by (fastforce simp: tensor_pieces_def)
  qed
  then show ?thesis by auto
qed

text \<open>The client's task list has the same rounds as the list the server makes from its own indices.\<close>

lemma DoGenerateForClientBlocks_layout:
  assumes ok: "gen_ok (num_buffers g) (gbuffer_size g) bsize tail n remote"
    and okl: "gen_ok (num_buffers g) (gbuffer_size g) bsize tail n local"
    and g: "buffer_block_nums g = []" "0 < num_tensors_g g * n" "num_tensors_g g * n < 2 ^ 32"
    and server: "DoGenerate g bsize tail n remote = Ok (tasks, g\<lparr>buffer_block_nums := ms\<rparr>)"
      "sum_list ms = num_tensors_g g * n" "\<forall>m \<in> set ms. 0 < m \<and> m \<le> gbuffer_size g div bsize"
  shows "\<exists>ctasks. DoGenerateForClientBlocks g bsize tail n local remote = Ok (ctasks, g\<lparr>buffer_block_nums := ms\<rparr>) \<and>
    flow bsize ctasks = layout (num_buffers g) 0 ms (all_pieces bsize tail n local [0 ..< num_tensors_g g])"
proof -
  let ?g = "g\<lparr>buffer_block_nums := ms\<rparr>" and ?nt = "num_tensors_g g"
  let ?inv = "client_inv (num_buffers g) bsize ms"
  let ?body = "\<lambda>i (ret, state, bti, rn).
    ofold (ClientBlocks_step ?g bsize tail local n i) [0 ..< n] (ret, next_tensor state, bti, rn)"
  have ms: "ms \<noteq> []" using server(2) g(2) by auto
  have "length ms \<le> sum_list ms" using server(3) by (induction ms) auto
  with server(2) g(3) have len: "length ms < 2 ^ 32" by simp
  have "?inv [] ([], new_gen_state, 0, ms ! 0)"
    using ms server(3) new_gen_inv by (intro client_invI) (simp_all add: new_gen_state_def)
  then have "\<exists>acc. ofold ?body [0 ..< ?nt] ([], new_gen_state, 0, ms ! 0) = Ok acc \<and>
      ?inv (all_pieces bsize tail n local [0 ..< ?nt]) acc"
  proof (intro ofold_invariant [where P = "\<lambda>is. ?inv (all_pieces bsize tail n local is)"], goal_cases)
    case 1
    then show ?case by (simp add: all_pieces_def)
  next
    case (2 ys i zs acc)
    obtain ret st bti rn where acc: "acc = (ret, st, bti, rn)" by (metis prod_cases4)
    from upt_split [OF 2(2)] have "Suc (length ys) * n \<le> ?nt * n" by (intro mult_le_mono1) simp
    then have "length (all_pieces bsize tail n local ys) + n \<le> sum_list ms"
      by (simp add: length_all_pieces server(2))
    with ClientBlocks_tensor [of ?g bsize tail n local "all_pieces bsize tail n local ys" ret st bti rn i] okl server(3) len 2(3) acc
    show ?case by (simp add: all_pieces_snoc)
  qed
  then obtain ret st bti rn where run: "ofold ?body [0 ..< ?nt] ([], new_gen_state, 0, ms ! 0) = Ok (ret, st, bti, rn)"
    and inv: "?inv (all_pieces bsize tail n local [0 ..< ?nt]) (ret, st, bti, rn)"
    by (metis prod_cases4)
  from inv obtain d1 d2 where d: "all_pieces bsize tail n local [0 ..< ?nt] = d1 @ d2"
    and G: "gen_inv (num_buffers g) bsize ret st (take bti ms) d1 d2"
    and bti: "bti \<le> length ms" "bti < length ms \<longrightarrow> buffer_block_index st < ms ! bti" "bti = length ms \<longrightarrow> buffer_block_index st = 0"
    by (auto simp: client_inv_def)
  have total: "length d1 + length d2 = sum_list ms"
    using arg_cong [OF d, of length] by (simp add: length_all_pieces server(2))
  have "bti = length ms"
  proof (rule ccontr)
    assume "bti \<noteq> length ms"
    with bti have lt: "bti < length ms" "buffer_block_index st < ms ! bti" by auto
    have "sum_list (take (Suc bti) ms) \<le> sum_list ms" by (metis append_take_drop_id le_add1 sum_list_append)
    then have "sum_list (take bti ms) + ms ! bti \<le> sum_list ms" using lt(1) by (simp add: take_Suc_conv_app_nth)
    with lt(2) G total show False by (simp add: gen_inv_def)
  qed
  with bti G have "d2 = []" "flow bsize ret = layout (num_buffers g) 0 ms d1" "ret \<noteq> [] \<longrightarrow> task_type (last ret) = kTaskTypeEndBlock"
    by (auto simp: gen_inv_def open_round_def)
  with server(1) run ms d ok show ?thesis by (auto simp: DoGenerateForClientBlocks_def gen_ok_def)
qed

section \<open>The two sides of a flow\<close>

definition tensor_side :: "flow_event list \<Rightarrow> piece list" where
  "tensor_side es = concat (map (\<lambda>e. case e of FBlock i toffset len b p \<Rightarrow> [(i, toffset, len)] | _ \<Rightarrow> []) es)"

text \<open>The buffer side keeps the starts, the ends, and for each block the buffer, the position and the length.\<close>

definition buffer_side :: "flow_event list \<Rightarrow> flow_event list" where
  "buffer_side es = map (\<lambda>e. case e of FBlock i toffset len b p \<Rightarrow> FBlock 0 0 len b p | _ \<Rightarrow> e) es"

fun piece_len :: "piece \<Rightarrow> nat" where
  "piece_len (i, toffset, len) = len"

definition blocks_fit :: "nat \<Rightarrow> nat \<Rightarrow> flow_event list \<Rightarrow> bool" where
  "blocks_fit buf bsize es \<longleftrightarrow> (\<forall>i toffset len b p. FBlock i toffset len b p \<in> set es \<longrightarrow> p * bsize + len \<le> buf)"

lemma tensor_side_simps [simp]:
  "tensor_side (xs @ ys) = tensor_side xs @ tensor_side ys" "tensor_side [FEnd b] = []"
  "tensor_side (round_start nb r) = []" "tensor_side [] = []" "tensor_side (FEnd b # es) = tensor_side es"
  by (simp_all add: tensor_side_def round_start_def)

lemma buffer_side_append [simp]: "buffer_side (xs @ ys) = buffer_side xs @ buffer_side ys"
  by (simp add: buffer_side_def)

lemma tensor_side_numbered [simp]: "tensor_side (numbered b p d) = d"
proof (induction d arbitrary: p)
  case (Cons x d)
  then show ?case by (cases x) (simp add: tensor_side_def numbered_def)
qed (simp add: tensor_side_def numbered_def)

lemma tensor_side_layout: "sum_list ms = length d \<Longrightarrow> tensor_side (layout nb r ms d) = d"
proof (induction ms arbitrary: r d)
  case (Cons m ms)
  then have "tensor_side (layout nb (Suc r) ms (drop m d)) = drop m d" by (intro Cons.IH) simp
  then show ?case by simp
qed simp

lemma buffer_side_numbered:
  "map piece_len d = map piece_len d' \<Longrightarrow> buffer_side (numbered b p d) = buffer_side (numbered b p d')"
proof (induction d arbitrary: d' p)
  case (Cons x d)
  then obtain y e where d': "d' = y # e" "piece_len x = piece_len y" "map piece_len d = map piece_len e" by (cases d') auto
  from Cons.IH [OF d'(3), of "Suc p"] d' show ?case by (cases x; cases y) (simp add: buffer_side_def numbered_def)
qed simp

lemma buffer_side_layout:
  "map piece_len d = map piece_len d' \<Longrightarrow> buffer_side (layout nb r ms d) = buffer_side (layout nb r ms d')"
proof (induction ms arbitrary: r d d')
  case (Cons m ms)
  have "map piece_len (take m d) = map piece_len (take m d')" "map piece_len (drop m d) = map piece_len (drop m d')"
    using Cons.prems by (metis take_map) (metis Cons.prems drop_map)
  with Cons.IH [of "drop m d" "drop m d'" "Suc r"] buffer_side_numbered [of "take m d" "take m d'"] show ?case
    by (simp add: buffer_side_def)
qed simp

lemma blocks_fit_append [simp]: "blocks_fit buf bsize (xs @ ys) \<longleftrightarrow> blocks_fit buf bsize xs \<and> blocks_fit buf bsize ys"
  by (auto simp: blocks_fit_def)

lemma blocks_fit_numbered:
  assumes "length d \<le> buf div bsize" "\<forall>x \<in> set d. piece_len x \<le> bsize"
  shows "blocks_fit buf bsize (numbered b 0 d)"
  unfolding blocks_fit_def
proof (intro allI impI)
  fix i toffset len c p
  assume "FBlock i toffset len c p \<in> set (numbered b 0 d)"
  then have "p < length d" "d ! p = (i, toffset, len)"
    by (auto simp: numbered_def in_set_enumerate_eq)
  then have "p < buf div bsize" "len \<le> bsize" using assms nth_mem by fastforce+
  then have "p * bsize + len \<le> Suc p * bsize" by simp
  also have "\<dots> \<le> buf div bsize * bsize" using \<open>p < buf div bsize\<close> by (intro mult_le_mono1) simp
  also have "buf div bsize * bsize \<le> buf" by simp
  finally show "p * bsize + len \<le> buf" by simp
qed

lemma blocks_fit_layout:
  assumes "\<forall>m \<in> set ms. m \<le> buf div bsize" "\<forall>x \<in> set d. piece_len x \<le> bsize"
  shows "blocks_fit buf bsize (layout nb r ms d)"
  using assms
proof (induction ms arbitrary: r d)
  case (Cons m ms)
  have "blocks_fit buf bsize (numbered (r mod nb) 0 (take m d))"
    using Cons.prems by (intro blocks_fit_numbered) (auto dest: in_set_takeD)
  moreover have "blocks_fit buf bsize (layout nb (Suc r) ms (drop m d))"
    using Cons.prems by (intro Cons.IH) (auto dest: in_set_dropD)
  moreover have "blocks_fit buf bsize (round_start nb r)" "blocks_fit buf bsize [FEnd (r mod nb)]"
    by (simp_all add: blocks_fit_def round_start_def)
  ultimately show ?case unfolding layout.simps blocks_fit_append by blast
qed (simp add: blocks_fit_def)

lemma all_pieces_len:
  "map piece_len (all_pieces bsize tail n idxs tensors) = map piece_len (all_pieces bsize tail n idxs' tensors)"
  by (induction tensors) (simp_all add: all_pieces_def tensor_pieces_def)

lemma all_pieces_bound: "tail \<le> bsize \<Longrightarrow> x \<in> set (all_pieces bsize tail n idxs tensors) \<Longrightarrow> piece_len x \<le> bsize"
  by (auto simp: all_pieces_def tensor_pieces_def)

section \<open>Theorems\<close>

text \<open>C4: The client and the server of a device-to-host pull agree. The server makes its tasks from its
  block indices, the client from its own and those of the server. Both lists are made without error, and
  they start and finish the buffers in the same order and put each block at the same position of the
  same buffer, inside the buffer; the server reads all the requested blocks of all tensors in order, and
  the client writes each of them to its own block.\<close>

theorem D2H_client_server_agree:
  assumes "gen_ok (num_buffers g) (gbuffer_size g) bsize tail n remote"
    and "gen_ok (num_buffers g) (gbuffer_size g) bsize tail n local"
    and "buffer_block_nums g = []" "0 < num_tensors_g g * n" "num_tensors_g g * n < 2 ^ 32"
  shows "\<exists>tasks ctasks g1. DoGenerate g bsize tail n remote = Ok (tasks, g1) \<and>
    DoGenerateForClientBlocks g bsize tail n local remote = Ok (ctasks, g1) \<and>
    buffer_side (flow bsize tasks) = buffer_side (flow bsize ctasks) \<and>
    tensor_side (flow bsize tasks) = all_pieces bsize tail n remote [0 ..< num_tensors_g g] \<and>
    tensor_side (flow bsize ctasks) = all_pieces bsize tail n local [0 ..< num_tensors_g g] \<and>
    blocks_fit (gbuffer_size g) bsize (flow bsize tasks)"
proof -
  obtain tasks ms where server: "DoGenerate g bsize tail n remote = Ok (tasks, g\<lparr>buffer_block_nums := ms\<rparr>)"
      "flow bsize tasks = layout (num_buffers g) 0 ms (all_pieces bsize tail n remote [0 ..< num_tensors_g g])"
      "sum_list ms = num_tensors_g g * n" "\<forall>m \<in> set ms. 0 < m \<and> m \<le> gbuffer_size g div bsize"
    using DoGenerate_layout [OF assms(1,3)] by blast
  obtain ctasks where client: "DoGenerateForClientBlocks g bsize tail n local remote = Ok (ctasks, g\<lparr>buffer_block_nums := ms\<rparr>)"
      "flow bsize ctasks = layout (num_buffers g) 0 ms (all_pieces bsize tail n local [0 ..< num_tensors_g g])"
    using DoGenerateForClientBlocks_layout [OF assms server(1,3,4)] by blast
  have "tail \<le> bsize" using assms(1) by (simp add: gen_ok_def)
  then have "blocks_fit (gbuffer_size g) bsize (flow bsize tasks)"
    unfolding server(2) using server(4) by (intro blocks_fit_layout) (auto dest: all_pieces_bound)
  with server client show ?thesis
    by (auto simp: tensor_side_layout length_all_pieces intro!: buffer_side_layout all_pieces_len)
qed


section \<open>Blocks larger than a buffer\<close>

text \<open>The pieces of the tensors a task list moves, in order.\<close>

definition task_pieces :: "TransferBlocksTask list \<Rightarrow> piece list" where
  "task_pieces ts = concat (map (\<lambda>t. if task_type t = kTaskTypeTransferBlock
     then [(tensor_index (block_span t), tensor_offset (block_span t), span_size (block_span t))] else []) ts)"

text \<open>Each chunk has the buffer for itself: it is started, filled from its beginning, and finished.\<close>

fun framed :: "nat \<Rightarrow> nat \<Rightarrow> TransferBlocksTask list \<Rightarrow> bool" where
  "framed b chunk [] = True"
| "framed b chunk (s # t # e # ts) \<longleftrightarrow>
     task_type s = kTaskTypeStartBlock \<and> task_type t = kTaskTypeTransferBlock \<and> task_type e = kTaskTypeEndBlock \<and>
     buffer_index s = b \<and> buffer_index t = b \<and> buffer_index e = b \<and> buffer_block_start (block_span t) = 0 \<and>
     0 < span_size (block_span t) \<and> span_size (block_span t) \<le> chunk \<and> framed b chunk ts"
| "framed b chunk ts = False"

lemma framed_append: "framed b chunk xs \<Longrightarrow> framed b chunk ys \<Longrightarrow> framed b chunk (xs @ ys)"
  by (induction b chunk xs rule: framed.induct) simp_all

lemma task_pieces_append [simp]: "task_pieces (xs @ ys) = task_pieces xs @ task_pieces ys"
  by (simp add: task_pieces_def)

lemma AppendLargeBlockChunkTasks_loop_covers:
  assumes "0 < chunk" "toffset + remaining < 2 ^ 64" "framed b chunk ret"
  shows "\<exists>ret'. AppendLargeBlockChunkTasks_loop ret b i toffset remaining chunk = Ok ret' \<and> framed b chunk ret' \<and>
    piece_bytes (task_pieces ret') = piece_bytes (task_pieces ret) @ piece_bytes [(i, toffset, remaining)]"
  using assms
proof (induction ret b i toffset remaining chunk rule: AppendLargeBlockChunkTasks_loop.induct)
  case (1 ret b i toffset remaining chunk)
  show ?case
  proof (cases "remaining = 0")
    case True
    with 1 show ?thesis by (simp add: AppendLargeBlockChunkTasks_loop.simps piece_bytes_def)
  next
    case False
    let ?c = "min remaining chunk"
    let ?new = "[\<lparr>task_type = kTaskTypeStartBlock, buffer_index = b, block_span = no_span\<rparr>,
      \<lparr>task_type = kTaskTypeTransferBlock, buffer_index = b,
       block_span = \<lparr>buffer_block_start = 0, tensor_offset = toffset, tensor_index = i, span_size = ?c\<rparr>\<rparr>,
      \<lparr>task_type = kTaskTypeEndBlock, buffer_index = b, block_span = no_span\<rparr>]"
    have add: "add64 toffset ?c = toffset + ?c" using 1(3) by (simp add: add64_def)
    have framed: "framed b chunk (ret @ ?new)" using False 1(2,4) by (intro framed_append) simp_all
    have bound: "toffset + ?c + (remaining - ?c) < 2 ^ 64" using 1(3) by simp
    have pieces: "task_pieces (ret @ ?new) = task_pieces ret @ [(i, toffset, ?c)]"
      by (simp add: task_pieces_def task_type_defs)
    from 1(1) [OF False _ refl] 1(2) framed bound add
    obtain ret' where r: "AppendLargeBlockChunkTasks_loop (ret @ ?new) b i (toffset + ?c) (remaining - ?c) chunk = Ok ret'"
        "framed b chunk ret'"
        "piece_bytes (task_pieces ret') = piece_bytes (task_pieces (ret @ ?new)) @ piece_bytes [(i, toffset + ?c, remaining - ?c)]"
      by auto
    have "piece_bytes [(i, toffset, ?c)] @ piece_bytes [(i, toffset + ?c, remaining - ?c)] = piece_bytes [(i, toffset, remaining)]"
      using piece_bytes_split [of i toffset ?c "remaining - ?c"] by (simp flip: piece_bytes_append)
    with r pieces add False 1(2) show ?thesis
      by (subst AppendLargeBlockChunkTasks_loop.simps) (simp add: Let_def)
  qed
qed

definition large_ok :: "nat \<Rightarrow> nat \<Rightarrow> nat \<Rightarrow> nat \<Rightarrow> nat list \<Rightarrow> bool" where
  "large_ok buf bsize tail n block_indices \<longleftrightarrow>
     0 < buf \<and> tail \<le> bsize \<and> n \<le> length block_indices \<and> (\<forall>idx \<in> set block_indices. Suc idx * bsize < 2 ^ 64)"

lemma AppendLargeBlockChunkTasks_covers:
  assumes "0 < chunk" "Suc idx * bsize < 2 ^ 64" "c \<le> bsize" "framed b chunk ret"
  shows "\<exists>ret'. AppendLargeBlockChunkTasks ret b i bsize idx c chunk = Ok ret' \<and> framed b chunk ret' \<and>
    piece_bytes (task_pieces ret') = piece_bytes (task_pieces ret) @ piece_bytes [(i, idx * bsize, c)]"
proof -
  have "mul64 idx bsize = idx * bsize" "idx * bsize + c < 2 ^ 64" using assms(2,3) by (simp_all add: mul64_def)
  with AppendLargeBlockChunkTasks_loop_covers [OF assms(1) _ assms(4), of "idx * bsize" c i] assms(1) show ?thesis
    by (simp add: AppendLargeBlockChunkTasks_def)
qed

text \<open>C35: A block that does not fit a buffer is sent in chunks. For any positive buffer size the
  chunking ends; the chunks, each no larger than the buffer and each between a start and an end of
  buffer 0, move every byte of all requested blocks of all tensors exactly once and in order.\<close>

theorem DoGenerateForLargeBlock_covers:
  assumes "large_ok (gbuffer_size g) bsize tail n block_indices"
  shows "\<exists>tasks. DoGenerateForLargeBlock g bsize tail n block_indices = Ok tasks \<and> framed 0 (gbuffer_size g) tasks \<and>
    piece_bytes (task_pieces tasks) = piece_bytes (all_pieces bsize tail n block_indices [0 ..< num_tensors_g g])"
  unfolding DoGenerateForLargeBlock_def
proof (rule ofold_invariant [where P = "\<lambda>is ts. framed 0 (gbuffer_size g) ts \<and>
    piece_bytes (task_pieces ts) = piece_bytes (all_pieces bsize tail n block_indices is)"], goal_cases)
  case 1
  then show ?case by (simp add: all_pieces_def task_pieces_def)
next
  case (2 ys i zs ts)
  let ?d = "all_pieces bsize tail n block_indices ys"
  have "\<exists>ts'. ofold (\<lambda>k tasks. if k \<ge> length block_indices then Crash
        else AppendLargeBlockChunkTasks tasks 0 i bsize (block_indices ! k) (if k = n - 1 then tail else bsize) (gbuffer_size g))
       [0 ..< n] ts = Ok ts' \<and> framed 0 (gbuffer_size g) ts' \<and>
       piece_bytes (task_pieces ts') = piece_bytes (?d @ tensor_pieces bsize tail n block_indices i [0 ..< n])"
  proof (rule ofold_invariant [where P = "\<lambda>ks ts. framed 0 (gbuffer_size g) ts \<and>
      piece_bytes (task_pieces ts) = piece_bytes (?d @ tensor_pieces bsize tail n block_indices i ks)"], goal_cases)
    case 1
    with 2 show ?case by (simp add: tensor_pieces_def)
  next
    case (2 ks k ls us)
    from upt_split [OF 2(1)] assms have k: "k < length block_indices" by (simp add: large_ok_def)
    then have "Suc (block_indices ! k) * bsize < 2 ^ 64" "(if k = n - 1 then tail else bsize) \<le> bsize" "0 < gbuffer_size g"
      using assms by (auto simp: large_ok_def)
    from AppendLargeBlockChunkTasks_covers [OF this(3,1,2), of 0 us i] 2 k show ?case
      by (auto simp: tensor_pieces_def)
  qed
  then show ?case by (simp add: all_pieces_snoc)
qed


section \<open>When the server's job crashes\<close>

lemma DoGenerate_Ok:
  assumes "gen_ok (num_buffers g) (gbuffer_size g) bsize tail n block_indices" "buffer_block_nums g = []"
  shows "\<exists>tasks g1. DoGenerate g bsize tail n block_indices = Ok (tasks, g1)"
  using DoGenerate_layout [OF assms] by blast

lemma chunk_loop_Ok:
  "0 < chunk \<Longrightarrow> \<exists>ret'. AppendLargeBlockChunkTasks_loop ret b i toffset remaining chunk = Ok ret'"
proof (induction ret b i toffset remaining chunk rule: AppendLargeBlockChunkTasks_loop.induct)
  case (1 ret b i toffset remaining chunk)
  then show ?case by (subst AppendLargeBlockChunkTasks_loop.simps) (simp add: Let_def)
qed

lemma LargeBlock_Ok:
  assumes "large_ok (gbuffer_size g) bsize tail n block_indices"
  shows "\<exists>tasks. DoGenerateForLargeBlock g bsize tail n block_indices = Ok tasks"
proof -
  have "\<exists>tasks'. (if k \<ge> length block_indices then Crash
      else AppendLargeBlockChunkTasks tasks 0 i bsize (block_indices ! k) (if k = n - 1 then tail else bsize) (gbuffer_size g)) = Ok tasks'"
    if "k < n" for i k tasks
    using that assms chunk_loop_Ok by (simp add: AppendLargeBlockChunkTasks_def large_ok_def)
  then show ?thesis unfolding DoGenerateForLargeBlock_def by (intro ofold_total) auto
qed

text \<open>Either generator succeeds on whole blocks with a shorter last one.\<close>

lemma generators_Ok:
  assumes g: "g = new_generator nt nb buf" "0 < nb" "nb < 2 ^ 32" "0 < buf" "buf < 2 ^ 32"
    and b: "0 < bsize" "bsize < 2 ^ 32" "0 < tail" "tail \<le> bsize" "n \<le> length idxs" "\<forall>idx \<in> set idxs. Suc idx * bsize < 2 ^ 64"
  shows "bsize \<le> gbuffer_size g \<Longrightarrow> \<exists>tasks g1. DoGenerate g bsize tail n idxs = Ok (tasks, g1)"
    and "\<exists>tasks. DoGenerateForLargeBlock g bsize tail n idxs = Ok tasks"
proof -
  have f: "num_buffers g = nb" "gbuffer_size g = buf" "buffer_block_nums g = []"
    using g by (simp_all add: new_generator_def u32_def)
  show "\<exists>tasks g1. DoGenerate g bsize tail n idxs = Ok (tasks, g1)" if "bsize \<le> gbuffer_size g"
    using that f g b by (intro DoGenerate_Ok) (simp_all add: gen_ok_def)
  show "\<exists>tasks. DoGenerateForLargeBlock g bsize tail n idxs = Ok tasks"
    using f g b by (intro LargeBlock_Ok) (simp add: large_ok_def)
qed

text \<open>The number of blocks of a continuous tensor, and the size of the last one.\<close>

lemma block_count:
  assumes "0 < bsize" "bsize < (2::nat) ^ 32" "t < 2 ^ 60"
    and n: "n = (if t mod bsize > 0 then t div bsize + 1 else t div bsize)"
    and lst: "lst = (if t mod bsize > 0 then t mod bsize else bsize)"
  shows "n < 2 ^ 60" "0 < lst" "lst \<le> bsize" "u32 lst = lst" "i < n \<Longrightarrow> Suc i * bsize < 2 ^ 64"
proof -
  have r: "t mod bsize < bsize" using assms(1) by simp
  show "n < 2 ^ 60"
  proof (cases "t mod bsize > 0")
    case True
    then have "2 \<le> bsize" using assms(1) by (cases "bsize = 1") auto
    then have "t div bsize \<le> t div 2" by (intro div_le_mono2) simp_all
    with assms(3) True n show ?thesis by simp
  next
    case False
    have "t div bsize < 2 ^ 60" using assms(3) by (rule le_less_trans [OF div_le_dividend])
    with False n show ?thesis by simp
  qed
  show "0 < lst" and le: "lst \<le> bsize" using assms(1) lst r by auto
  show "u32 lst = lst" unfolding u32_def by (rule mod_less [OF le_less_trans [OF le assms(2)]])
  show "Suc i * bsize < 2 ^ 64" if "i < n"
  proof -
    have "Suc i * bsize \<le> n * bsize" using that by (intro mult_le_mono1) simp
    also have "\<dots> \<le> t div bsize * bsize + bsize" using n by simp
    also have "\<dots> \<le> t + bsize" by simp
    finally show ?thesis using assms(2,3) by simp
  qed
qed

lemma GenerateTasks_cont_eq:
  assumes "0 < bsize" "bsize < (2::nat) ^ 32" "t < 2 ^ 60"
    and n: "n = (if t mod bsize > 0 then t div bsize + 1 else t div bsize)"
    and lst: "lst = (if t mod bsize > 0 then t mod bsize else bsize)"
  shows "GenerateTasks_cont g (int t) bsize =
    (if bsize > gbuffer_size g then DoGenerateForLargeBlock g bsize lst (u32 n) [0 ..< n]
     else obind (DoGenerate g bsize lst (u32 n) [0 ..< n]) (\<lambda>(tasks, g1). Ok tasks))"
proof -
  note c = block_count [OF assms]
  have q: "(if int t < 0 then - (- int t div int bsize) else int t div int bsize) = int (t div bsize)"
    by (simp add: zdiv_int)
  have r: "int t - int bsize * int (t div bsize) = int (t mod bsize)"
    by (simp add: minus_mult_div_eq_mod zmod_int zdiv_int)
  have n': "(if int (t mod bsize) > 0 then int (t div bsize) + 1 else int (t div bsize)) = int n" using n by simp
  have t': "(if int (t mod bsize) > 0 then nat (int (t mod bsize)) else bsize) = lst" using lst by simp
  have lt: "int n < 2 ^ 60" using c(1) by (metis of_nat_less_iff of_nat_numeral of_nat_power)
  show ?thesis
    unfolding GenerateTasks_cont_def Let_def q r n' t' c(4) using assms(1) lt by auto
qed

lemma GenerateTasks_cont_Ok:
  assumes g: "g = new_generator nt nb buf" "0 < nb" "nb < 2 ^ 32" "0 < buf" "buf < 2 ^ 32"
    and b: "0 < bsize" "bsize < 2 ^ 32" "0 \<le> tsize" "tsize < 2 ^ 60"
  shows "\<exists>tasks. GenerateTasks_cont g tsize bsize = Ok tasks"
proof -
  obtain t where t: "tsize = int t" "t < 2 ^ 60" using b(3,4) by (metis nonneg_int_cases of_nat_less_iff of_nat_numeral of_nat_power)
  define n lst where n: "n = (if t mod bsize > 0 then t div bsize + 1 else t div bsize)"
    and lst: "lst = (if t mod bsize > 0 then t mod bsize else bsize)"
  note c = block_count [OF b(1,2) t(2) n lst]
  have "u32 n \<le> length [0 ..< n]" "\<forall>idx \<in> set [0 ..< n]. Suc idx * bsize < 2 ^ 64" using c(5) by (simp_all add: u32_def)
  note gen = generators_Ok [OF g b(1,2) c(2,3) this]
  show ?thesis
  proof (cases "bsize \<le> gbuffer_size g")
    case True
    with gen(1) obtain tasks g1 where "DoGenerate g bsize lst (u32 n) [0 ..< n] = Ok (tasks, g1)" by blast
    with True show ?thesis unfolding t(1) GenerateTasks_cont_eq [OF b(1,2) t(2) n lst] by simp
  next
    case False
    with gen(2) show ?thesis unfolding t(1) GenerateTasks_cont_eq [OF b(1,2) t(2) n lst] by simp
  qed
qed

text \<open>A negative size gives no block, or fewer than none, which is a vector that cannot be made.\<close>

lemma GenerateTasks_cont_Crash:
  assumes g: "g = new_generator nt nb buf" "0 < nb" "nb < 2 ^ 32" "0 < buf" "buf < 2 ^ 32"
    and b: "bsize < 2 ^ 32" "tsize < 2 ^ 60"
  shows "GenerateTasks_cont g tsize bsize = Crash \<longleftrightarrow> bsize = 0 \<or> tsize \<le> - int bsize"
proof -
  consider "bsize = 0" | "0 < bsize" "0 \<le> tsize" | "0 < bsize" "tsize < 0" "- int bsize < tsize" | "0 < bsize" "tsize \<le> - int bsize"
    by linarith
  then show ?thesis
  proof cases
    case 1
    then show ?thesis by (simp add: GenerateTasks_cont_def)
  next
    case 2
    with GenerateTasks_cont_Ok [OF g 2(1) b(1) 2(2) b(2)] show ?thesis by auto
  next
    case 3
    have q: "- tsize div int bsize = 0" using 3 by (intro div_pos_pos_trivial) simp_all
    have "u32 bsize = bsize" using b(1) by (simp add: u32_def)
    with 3 q have "GenerateTasks_cont g tsize bsize =
        (if bsize > gbuffer_size g then DoGenerateForLargeBlock g bsize bsize 0 []
         else obind (DoGenerate g bsize bsize 0 []) (\<lambda>(tasks, g1). Ok tasks))"
      by (simp add: GenerateTasks_cont_def u32_def)
    moreover have "bsize \<le> gbuffer_size g \<Longrightarrow> \<exists>tasks g1. DoGenerate g bsize bsize 0 [] = Ok (tasks, g1)"
      "\<exists>tasks. DoGenerateForLargeBlock g bsize bsize 0 [] = Ok tasks"
      using generators_Ok [OF g 3(1) b(1) 3(1) order_refl, of 0 "[]"] by simp_all
    ultimately have "GenerateTasks_cont g tsize bsize \<noteq> Crash" by (auto simp: not_less)
    with 3 show ?thesis by simp
  next
    case 4
    define k where "k = - tsize div int bsize"
    have k: "1 \<le> k" unfolding k_def using 4 by (simp add: pos_imp_zdiv_pos_iff int_one_le_iff_zero_less)
    have "tsize + int bsize * k \<le> 0"
    proof -
      have "0 \<le> - tsize mod int bsize" using 4(1) by simp
      then show ?thesis using minus_mult_div_eq_mod [of "- tsize" "int bsize"] unfolding k_def by linarith
    qed
    with 4 k have "GenerateTasks_cont g tsize bsize = Crash"
      by (simp add: GenerateTasks_cont_def flip: k_def)
    with 4 show ?thesis by simp
  qed
qed

lemma to_int64_small: "n < 2 ^ 63 \<Longrightarrow> to_int64 n = int n"
  by (simp add: to_int64_def)

lemma GenerateTasks_blocks_Crash:
  assumes "0 < nb" "nb < 2 ^ 32" "0 < buf" "buf < 2 ^ 32" "bsize < 2 ^ 32" "n \<le> length idxs"
    and "\<forall>idx \<in> set idxs. Suc idx * bsize < 2 ^ 64"
  shows "GenerateTasks_blocks (new_generator nt nb buf) bsize n idxs None = Crash \<longleftrightarrow> bsize = 0"
proof (cases "bsize = 0")
  case True
  then show ?thesis by (simp add: GenerateTasks_blocks_def DoGenerate_def)
next
  case False
  with generators_Ok [OF refl assms(1-4), of bsize bsize n idxs nt] assms(5-7)
  have "\<exists>tasks. GenerateTasks_blocks (new_generator nt nb buf) bsize n idxs None = Ok tasks"
    by (auto simp: GenerateTasks_blocks_def not_less)
  with False show ?thesis by auto
qed

text \<open>What a prepared device-to-host request says about the generator's parameters.\<close>

lemma D2H_request_facts:
  assumes "request_buffer request" "SendState_Prepare_checks cm request = Ok (entry, offset, key, kTransferTypeD2H)"
  shows "0 < dst_addr_count request" "dst_addr_count request < 2 ^ 32" "0 < dst_buffer_size request" "dst_buffer_size request < 2 ^ 32"
    "num_blocks entry > 0 \<Longrightarrow> collect (\<lambda>i. obind (transfer_info request (add32 (dst_addr_count request) i)) (\<lambda>info. Ok (block_start_index info)))
       [0 ..< buffer_info_count request]
     = Ok (map (\<lambda>i. block_start_index (transfer_infos request ! (dst_addr_count request + i))) [0 ..< buffer_info_count request])"
    "num_blocks entry > 0 \<Longrightarrow> i < buffer_info_count request \<Longrightarrow>
       Suc (block_start_index (transfer_infos request ! (dst_addr_count request + i))) * stride entry \<le> tensor_size entry"
proof -
  note d = SendState_checks_D [OF assms(2,1)] and v = ValidateLocalIndexBounds_D [OF SendState_checks_D(7) [OF assms(2,1)]]
  show n: "dst_addr_count request < 2 ^ 32" using assms(1) by (simp add: request_buffer_def)
  note h = ValidateD2hLocalBounds_D [OF v(5) [OF refl] n]
  show "0 < dst_addr_count request" using d(5) by (simp add: counts_ok_def)
  show "0 < dst_buffer_size request" "dst_buffer_size request < 2 ^ 32" using h by (simp_all add: kMinDstBufferSize_def)
  show "collect (\<lambda>i. obind (transfer_info request (add32 (dst_addr_count request) i)) (\<lambda>info. Ok (block_start_index info)))
       [0 ..< buffer_info_count request]
     = Ok (map (\<lambda>i. block_start_index (transfer_infos request ! (dst_addr_count request + i))) [0 ..< buffer_info_count request])"
    using counts_ok_reads(1,2) [OF assms(1) d(5) multiplier_of_bounds(1)]
    by (simp add: collect_Ok list_all2_conv_all_nth transfer_info_def prod_eq_iff)
  show "Suc (block_start_index (transfer_infos request ! (dst_addr_count request + i))) * stride entry \<le> tensor_size entry"
    if "num_blocks entry > 0" "i < buffer_info_count request"
    using ValidateBlockSpans_D [OF v(3) assms(1) d(5) multiplier_of_bounds(1) _ that(2)] that(1) by simp
qed

text \<open>Reading the tensor addresses and the destinations of a checked request.\<close>

lemma D2H_addresses:
  assumes "request_buffer request" "SendState_Prepare_checks cm request = Ok (entry, offset, key, kTransferTypeD2H)"
  shows "D2H_data_addresses entry request offset =
      Ok (map (\<lambda>i. add64 (cache_addrs entry ! (ResolveSrcStartIndex request + i)) offset) [0 ..< ResolveSrcNumTensors entry request])"
    and "collect (\<lambda>i. obind (transfer_info request i) (\<lambda>t. Ok (dst_addr t))) [0 ..< dst_addr_count request] =
      Ok (map (\<lambda>i. dst_addr (transfer_infos request ! i)) [0 ..< dst_addr_count request])"
proof -
  note d = SendState_checks_D [OF assms(2,1)] and v = ValidateLocalIndexBounds_D [OF SendState_checks_D(7) [OF assms(2,1)]]
  let ?s = "ResolveSrcStartIndex request" and ?n = "ResolveSrcNumTensors entry request"
  have r: "D2H_data_addresses entry request offset =
      collect (\<lambda>i. if i \<ge> length (cache_addrs entry) then Crash else Ok (add64 (cache_addrs entry ! i) offset)) [?s ..< ?s + ?n]"
    by (simp add: D2H_data_addresses_def ResolveSrcStartIndex_def ResolveSrcNumTensors_def Let_def)
  show "D2H_data_addresses entry request offset = Ok (map (\<lambda>i. add64 (cache_addrs entry ! (?s + i)) offset) [0 ..< ?n])"
    unfolding r using v(1) by (auto simp: collect_Ok list_all2_conv_all_nth)
  have "dst_addr_count request \<le> length (transfer_infos request)"
    using d(5) assms(1) by (simp add: counts_ok_def request_buffer_def)
  then show "collect (\<lambda>i. obind (transfer_info request i) (\<lambda>t. Ok (dst_addr t))) [0 ..< dst_addr_count request] =
      Ok (map (\<lambda>i. dst_addr (transfer_infos request ! i)) [0 ..< dst_addr_count request])"
    by (simp add: collect_Ok list_all2_conv_all_nth transfer_info_def prod_eq_iff)
qed

text \<open>The block size and the size to send of a checked request, when the block size is accepted.\<close>

definition D2H_crash_condition :: "CacheEntry \<Rightarrow> TransferCacheReq \<Rightarrow> bool" where
  "D2H_crash_condition entry request \<longleftrightarrow>
     block_size request \<noteq> 0 \<and>
     (if num_blocks entry > 0
      then block_size request = stride entry \<and> 0 < buffer_info_count request \<and> block_size request mod 2 ^ 32 = 0
      else block_size request mod 2 ^ 32 = 0 \<or> to_int64 (pull_size request) \<le> - int (block_size request mod 2 ^ 32))"

lemma D2H_tasks_crash_iff:
  assumes "request_buffer request" "SendState_Prepare_checks cm request = Ok (entry, offset, key, kTransferTypeD2H)"
    and "stride entry < 2 ^ 60" "tensor_size entry < 2 ^ 64"
  shows "obind (ResolveBlockSize request entry) (\<lambda>(bsize, tsize).
      D2H_GenerateTasks request entry (ResolveSrcNumTensors entry request) bsize tsize) = Crash \<longleftrightarrow> D2H_crash_condition entry request"
proof (cases "num_blocks entry = 0")
  case True
  note f = D2H_request_facts [OF assms(1,2)] and d = SendState_checks_D [OF assms(2,1)]
  let ?g = "new_generator (ResolveSrcNumTensors entry request) (dst_addr_count request) (dst_buffer_size request)"
  have u: "u32 x < 2 ^ 32" for x by (simp add: u32_def)
  have s: "to_int64 (stride entry) = int (stride entry)" using assms(3) by (simp add: to_int64_small)
  have c: "GenerateTasks_cont ?g tsize bsize = Crash \<longleftrightarrow> bsize = 0 \<or> tsize \<le> - int bsize" if "bsize < 2 ^ 32" "tsize < 2 ^ 60" for tsize bsize
    by (rule GenerateTasks_cont_Crash [OF refl f(1-4) that])
  show ?thesis
  proof (cases "block_size request = 0")
    case bs: True
    have "is_pull_block request = 0" using d(2) True by (simp add: CheckParam_def Let_def split: if_splits)
    then have "pull_size request \<le> stride entry" using d(2) bs by (simp add: CheckParam_def Let_def split: if_splits)
    with assms(3) have p: "to_int64 (pull_size request) = int (pull_size request)" "int (pull_size request) < 2 ^ 60"
      by (simp_all add: to_int64_small)
    have "kBlockSizeForContMem < 2 ^ 32" "kBlockSizeForContMem \<noteq> 0" by (simp_all add: kBlockSizeForContMem_def)
    with True bs p c show ?thesis
      by (simp add: D2H_crash_condition_def ResolveBlockSize_def D2H_GenerateTasks_def Let_def)
  next
    case bs: False
    let ?t = "min (to_int64 (pull_size request)) (int (stride entry))"
    have "?t < 2 ^ 60" using assms(3) by (simp add: min_less_iff_disj)
    with c [OF u, of ?t "block_size request"] True bs s
    have "obind (ResolveBlockSize request entry) (\<lambda>(bsize, tsize).
        D2H_GenerateTasks request entry (ResolveSrcNumTensors entry request) bsize tsize) = Crash \<longleftrightarrow>
      u32 (block_size request) = 0 \<or> ?t \<le> - int (u32 (block_size request))"
      by (simp add: ResolveBlockSize_def D2H_GenerateTasks_def Let_def del: obind_Crash)
    moreover have "u32 (block_size request) \<noteq> 0 \<Longrightarrow> ?t \<le> - int (u32 (block_size request)) \<longleftrightarrow>
        to_int64 (pull_size request) \<le> - int (u32 (block_size request))" by linarith
    ultimately show ?thesis using True bs by (auto simp: D2H_crash_condition_def u32_def)
  qed
next
  case False
  note f = D2H_request_facts [OF assms(1,2)]
  let ?g = "new_generator (ResolveSrcNumTensors entry request) (dst_addr_count request) (dst_buffer_size request)"
    and ?idxs = "map (\<lambda>i. block_start_index (transfer_infos request ! (dst_addr_count request + i))) [0 ..< buffer_info_count request]"
  have u: "u32 x < 2 ^ 32" for x by (simp add: u32_def)
  have "Suc idx * u32 (stride entry) < 2 ^ 64" if "idx \<in> set ?idxs" for idx
  proof -
    have "Suc idx * u32 (stride entry) \<le> Suc idx * stride entry" by (intro mult_le_mono2) (simp add: u32_def)
    also have "\<dots> \<le> tensor_size entry" using that False f(6) by auto
    finally show ?thesis using assms(4) by simp
  qed
  then have "GenerateTasks_blocks ?g (u32 (stride entry)) (u32 (length ?idxs)) ?idxs None = Crash \<longleftrightarrow> u32 (stride entry) = 0"
    by (intro GenerateTasks_blocks_Crash [OF f(1-4) u]) (simp_all add: u32_def)
  with False f(5) show ?thesis
    by (auto simp: D2H_crash_condition_def ResolveBlockSize_def D2H_GenerateTasks_def Let_def u32_def)
qed

text \<open>The exact condition under which the initialization of the job for a checked request crashes.\<close>

lemma D2H_Initialize_crash_iff:
  assumes "request_buffer request" "SendState_Prepare_checks cm request = Ok (entry, offset, key, kTransferTypeD2H)"
    and "stride entry < 2 ^ 60" "tensor_size entry < 2 ^ 64"
  shows "D2H_Initialize c info memcpy_ret send_response entry request offset = Crash \<longleftrightarrow>
    memcpy_ret = ACL_ERROR_NONE \<and> D2H_crash_condition entry request"
  using D2H_tasks_crash_iff [OF assms] unfolding D2H_Initialize_def Let_def D2H_addresses [OF assms(1,2)]
  by (auto split: if_splits)


section \<open>Instances\<close>

theorem D2H_client_server_agree_witness:
  "\<exists>tasks ctasks g1. DoGenerate (new_generator 2 2 128) 64 64 3 [0, 1, 5] = Ok (tasks, g1) \<and>
     DoGenerateForClientBlocks (new_generator 2 2 128) 64 64 3 [9, 4, 5] [0, 1, 5] = Ok (ctasks, g1) \<and>
     buffer_side (flow 64 tasks) = buffer_side (flow 64 ctasks)"
proof -
  have g: "num_buffers (new_generator 2 2 128) = 2" "gbuffer_size (new_generator 2 2 128) = 128"
    "num_tensors_g (new_generator 2 2 128) = 2" "buffer_block_nums (new_generator 2 2 128) = []"
    by (simp_all add: new_generator_def u32_def)
  have "gen_ok 2 128 64 64 3 [0, 1, 5]" "gen_ok 2 128 64 64 3 [9, 4, 5]" by (simp_all add: gen_ok_def)
  then show ?thesis
    using D2H_client_server_agree [of "new_generator 2 2 128" 64 64 3 "[0, 1, 5]" "[9, 4, 5]"] unfolding g by auto
qed

theorem DoGenerateForLargeBlock_covers_witness:
  "\<exists>tasks. DoGenerateForLargeBlock (new_generator 1 1 10) 64 64 2 [3, 1] = Ok tasks \<and> framed 0 10 tasks"
proof -
  have g: "gbuffer_size (new_generator 1 1 10) = 10" by (simp add: new_generator_def u32_def)
  have "large_ok 10 64 64 2 [3, 1]" by (simp add: large_ok_def)
  then show ?thesis
    using DoGenerateForLargeBlock_covers [of "new_generator 1 1 10" 64 64 2 "[3, 1]"] unfolding g by auto
qed

text \<open>The request of the peer with a block size of \<open>2 ^ 32\<close>.\<close>

definition bad_request :: TransferCacheReq where
  "bad_request = (demo_request CachePlacement_HOST)\<lparr>block_size := 2 ^ 32\<rparr>"

lemma bad_request_prepared:
  "request_buffer bad_request"
  "SendState_Prepare_checks (Some demo_manager) bad_request = Ok (demo_entry, 64, (7, 0), kTransferTypeD2H)"
proof -
  let ?r = "demo_request CachePlacement_HOST"
  have p: "SendState_Prepare_checks (Some demo_manager) ?r = Ok (demo_entry, 64, (7, 0), kTransferTypeD2H)"
    using demo_prepare [of CachePlacement_HOST] by (simp add: CachePlacement_HOST_def CachePlacement_DEVICE_def)
  show rb: "request_buffer bad_request"
    using demo_request_buffer [of CachePlacement_HOST] by (simp add: request_buffer_def bad_request_def)
  have q: "QueryCacheEntryAndOffset (Some demo_manager) bad_request = Ok (demo_entry, 64, (7, 0))"
    by (simp add: QueryCacheEntryAndOffset_def SendState_GetCacheKey_def GetCacheEntry_by_key_def DoGetCacheEntry_def
        bad_request_def demo_defs mul64_def Let_def)
  have fields: "dst_addr_count bad_request = dst_addr_count ?r" "buffer_info_count bad_request = buffer_info_count ?r"
    "src_tensor_indices_size bad_request = src_tensor_indices_size ?r" "src_tensor_start_index bad_request = src_tensor_start_index ?r"
    "transfer_infos bad_request = transfer_infos ?r" "pull_size bad_request = pull_size ?r"
    "dst_buffer_size bad_request = dst_buffer_size ?r" "dst_placement bad_request = dst_placement ?r"
    by (simp_all add: bad_request_def)
  have same: "ResolveTransferType bad_request demo_entry = ResolveTransferType ?r demo_entry"
    "ValidateTransferRequest bad_request t = ValidateTransferRequest ?r t" for t
    unfolding ResolveTransferType_def ValidateTransferRequest_def ValidateBufferInfoLens_def transfer_info_def fields by (rule refl)+
  have bounds: "ValidateLocalIndexBounds demo_entry bad_request kTransferTypeD2H = ValidateLocalIndexBounds demo_entry ?r kTransferTypeD2H"
    unfolding ValidateLocalIndexBounds_def ValidateSrcTensorRange_def ResolveSrcStartIndex_def ResolveSrcNumTensors_def
      ValidateBlockSpans_def ValidateD2hLocalBounds_def transfer_info_def fields by (simp add: transfer_type_defs)
  have "CheckParam demo_entry bad_request = Ok ()"
    by (simp add: CheckParam_def bad_request_def demo_defs chk_def add64_def sub64_def mul64_def CachePlacement_HOST_def)
  with p SendState_checks_D [OF p demo_request_buffer]
  show "SendState_Prepare_checks (Some demo_manager) bad_request = Ok (demo_entry, 64, (7, 0), kTransferTypeD2H)"
    by (simp add: SendState_Prepare_checks_def q same bounds Let_def)
qed

end
