(* ===== verification/Task_Batch.thy ===== *)
theory Task_Batch
  imports Transfer_Request
begin

text \<open>
  Host-to-device pulls: \<open>TaskBatcher\<close> (\<open>src/src/llm_datadist/utils/task_batcher.cc\<close>) cuts the blocks
  of all tensors into slices that fill a device buffer, and \<open>H2DDataTransferJob\<close>
  (\<open>src/src/llm_datadist/data_transfer/h2d_data_transfer_job.cc\<close>) runs two batchers in step: one says
  where the bytes of the buffer come from, the other where they go. Modelled are the batcher, the
  initialization of the job with its buffer contexts, the transition that takes the next batch, the copy
  of a slice into the buffer, the wait for the copies, and the puts of a batch out of the buffer. What
  the device runtime and the connection return is an argument; the event that ends a put is not modelled.
\<close>

section \<open>The batcher\<close>

record BufferSlice =
  buffer_offset :: nat
  data_index :: nat
  data_offset :: nat
  data_size :: nat

record BatchSliceState =
  st_buffer_offset :: nat
  remaining_buffer_len :: nat
  prev_block_end_offset :: nat
  prev_tensor_index :: nat
  num_tasks :: nat

record TaskBatcher =
  tb_buffer_size :: nat
  tb_num_tensors :: nat
  tb_block_size :: nat
  current_tensor_index :: nat
  current_transfer_info_index :: nat
  num_transfer_infos :: nat
  remaining_data_len :: nat
  remaining_data_offset :: nat
  transfer_info_num :: nat
  tb_transfer_infos :: "TransferInfo list"

definition kMaxTaskNumInBatch :: nat where "kMaxTaskNumInBatch = 64"
definition kBatchMaxBlockSize :: nat where "kBatchMaxBlockSize = 4 * 1024 * 1024"

definition new_TaskBatcher :: "nat \<Rightarrow> TaskBatcher" where
  "new_TaskBatcher bufsize =
     \<lparr>tb_buffer_size = u32 bufsize, tb_num_tensors = 0, tb_block_size = 0, current_tensor_index = 0,
      current_transfer_info_index = 0, num_transfer_infos = 0, remaining_data_len = 0, remaining_data_offset = 0,
      transfer_info_num = 0, tb_transfer_infos = []\<rparr>"

definition TaskBatcher_Initialize :: "nat \<Rightarrow> nat \<Rightarrow> nat \<Rightarrow> TransferInfo list \<Rightarrow> TaskBatcher \<Rightarrow> TaskBatcher" where
  "TaskBatcher_Initialize n bsize ninfos infos tb =
     tb\<lparr>tb_num_tensors := u32 n, tb_block_size := bsize, num_transfer_infos := u32 ninfos, tb_transfer_infos := infos\<rparr>"

text \<open>The offset and length of the next slice, and the batcher with what is left of the block.\<close>

definition GetOffsetAndLength :: "TaskBatcher \<Rightarrow> nat \<Rightarrow> (TaskBatcher \<times> nat \<times> nat) outcome" where
  "GetOffsetAndLength tb remaining =
     obind (if remaining_data_len tb > 0 then Ok (remaining_data_offset tb, remaining_data_len tb)
            else if current_transfer_info_index tb \<ge> length (tb_transfer_infos tb) then Crash
            else let info = tb_transfer_infos tb ! current_transfer_info_index tb in
                 Ok (mul64 (block_start_index info) (tb_block_size tb), buffer_len info)) (\<lambda>(toffset, sz).
     let max_data_size = min remaining kBatchMaxBlockSize in
     if max_data_size < sz
     then Ok (tb\<lparr>remaining_data_len := sz - max_data_size, remaining_data_offset := add64 toffset max_data_size\<rparr>,
              toffset, max_data_size)
     else Ok (tb\<lparr>remaining_data_len := 0, remaining_data_offset := 0\<rparr>, toffset, sz))"

definition UpdateIndices :: "TaskBatcher \<Rightarrow> TaskBatcher" where
  "UpdateIndices tb =
     (if remaining_data_len tb = 0 then
        if num_transfer_infos tb = 0 then tb\<lparr>current_tensor_index := add32 (current_tensor_index tb) 1\<rparr>
        else if current_transfer_info_index tb = num_transfer_infos tb - 1
        then tb\<lparr>current_transfer_info_index := 0, current_tensor_index := add32 (current_tensor_index tb) 1\<rparr>
        else tb\<lparr>current_transfer_info_index := add32 (current_transfer_info_index tb) 1\<rparr>
      else tb)"

type_synonym batch_acc = "TaskBatcher \<times> BufferSlice list \<times> BatchSliceState"

text \<open>The early returns of \<open>AppendNextSlice\<close>: no tensor is left, or the batch has all the tasks or
  blocks it may have.\<close>

definition batch_full :: "TaskBatcher \<Rightarrow> BatchSliceState \<Rightarrow> nat \<Rightarrow> bool" where
  "batch_full tb st max_num \<longleftrightarrow>
     current_tensor_index tb \<ge> tb_num_tensors tb \<or> (max_num = UINT32_MAX \<and> num_tasks st \<ge> kMaxTaskNumInBatch) \<or>
     transfer_info_num tb \<ge> max_num"

text \<open>\<open>AppendNextSlice\<close>, with its result.\<close>

definition AppendNextSlice :: "batch_acc \<Rightarrow> nat \<Rightarrow> (batch_acc \<times> bool) outcome" where
  "AppendNextSlice acc max_num =
     (case acc of (tb, ret, st) \<Rightarrow>
      if batch_full tb st max_num then Ok (acc, False)
      else
        obind (GetOffsetAndLength tb (remaining_buffer_len st)) (\<lambda>(tb1, toffset, sz).
        if sz = 0 then Ok ((tb1, ret, st), False)
        else
          let dsize = u32 sz in
          obind (if current_tensor_index tb1 = prev_tensor_index st \<and> toffset = prev_block_end_offset st
                 then if ret = [] then Crash
                      else Ok (add32 (data_size (last ret)) dsize \<le> kBatchMaxBlockSize)
                 else Ok False) (\<lambda>merge.
          let ret1 = (if merge then butlast ret @ [(last ret)\<lparr>data_size := add32 (data_size (last ret)) dsize\<rparr>]
                      else ret @ [\<lparr>buffer_offset = st_buffer_offset st, data_index = current_tensor_index tb1,
                                   data_offset = toffset, data_size = dsize\<rparr>]);
              st1 = \<lparr>st_buffer_offset = add32 (st_buffer_offset st) dsize,
                     remaining_buffer_len = sub32 (remaining_buffer_len st) dsize,
                     prev_block_end_offset = add64 toffset dsize, prev_tensor_index = current_tensor_index tb1,
                     num_tasks = (if merge then num_tasks st else add32 (num_tasks st) 1)\<rparr>
          in Ok ((UpdateIndices (tb1\<lparr>transfer_info_num := add32 (transfer_info_num tb1) 1\<rparr>), ret1, st1), True))))"

lemma GetOffsetAndLength_size: "GetOffsetAndLength tb r = Ok (tb', toffset, sz) \<Longrightarrow> sz \<le> r \<and> sz \<le> kBatchMaxBlockSize"
  by (auto simp: GetOffsetAndLength_def Let_def split: if_splits)

text \<open>Every slice takes some of the buffer, so that the loop of \<open>NextBatch\<close> ends.\<close>

lemma AppendNextSlice_decreases:
  assumes "AppendNextSlice (tb, ret, st) n = Ok ((tb', ret', st'), True)"
  shows "remaining_buffer_len st' < remaining_buffer_len st"
proof -
  obtain tb1 toffset sz where g: "GetOffsetAndLength tb (remaining_buffer_len st) = Ok (tb1, toffset, sz)" "0 < sz"
    and r: "remaining_buffer_len st' = sub32 (remaining_buffer_len st) (u32 sz)"
    using assms by (auto simp: AppendNextSlice_def Let_def split: if_splits)
  have sz: "sz \<le> remaining_buffer_len st" "u32 sz = sz"
    using GetOffsetAndLength_size [OF g(1)] by (simp_all add: u32_def kBatchMaxBlockSize_def)
  show ?thesis
  proof (cases "remaining_buffer_len st < 2 ^ 32")
    case True
    with r sz g(2) show ?thesis by (simp add: sub32_id)
  next
    case False
    have "sub32 (remaining_buffer_len st) sz < 2 ^ 32" unfolding sub32_def by (rule mod_less_divisor) simp
    with False r sz(2) show ?thesis by simp
  qed
qed

function NextBatch_loop :: "TaskBatcher \<Rightarrow> BufferSlice list \<Rightarrow> BatchSliceState \<Rightarrow> nat \<Rightarrow> (TaskBatcher \<times> BufferSlice list) outcome" where
  "NextBatch_loop tb ret st n =
     (if remaining_buffer_len st > 0 then
        (case AppendNextSlice (tb, ret, st) n of
           Ok ((tb', ret', st'), True) \<Rightarrow> NextBatch_loop tb' ret' st' n
         | Ok ((tb', ret', st'), False) \<Rightarrow> Ok (tb', ret')
         | Err s \<Rightarrow> Err s
         | Crash \<Rightarrow> Crash)
      else Ok (tb, ret))"
  by pat_completeness auto
termination
  by (relation "measure (\<lambda>(tb, ret, st, n). remaining_buffer_len st)") (auto dest: AppendNextSlice_decreases)

declare NextBatch_loop.simps [simp del]

definition NextBatch :: "TaskBatcher \<Rightarrow> nat \<Rightarrow> (TaskBatcher \<times> BufferSlice list) outcome" where
  "NextBatch tb max_num =
     (if tb_buffer_size tb = 0 \<or> num_transfer_infos tb = 0 then Ok (tb, [])
      else NextBatch_loop (tb\<lparr>transfer_info_num := 0\<rparr>) []
        \<lparr>st_buffer_offset = 0, remaining_buffer_len = tb_buffer_size tb, prev_block_end_offset = UINT64_MAX,
         prev_tensor_index = UINT32_MAX, num_tasks = 0\<rparr> max_num)"

definition GetTransferInfoNum :: "TaskBatcher \<Rightarrow> nat" where
  "GetTransferInfoNum tb = transfer_info_num tb"

section \<open>The job\<close>

definition kDefaultBlockSize :: nat where "kDefaultBlockSize = 2 * 1024 * 1024"
definition kH2DBufferSize :: nat where "kH2DBufferSize = 32 * 1024 * 1024"

definition H2D_block_size :: "CacheEntry \<Rightarrow> TransferCacheReq \<Rightarrow> nat" where
  "H2D_block_size entry request =
     (if num_blocks entry = 0 then u32 (min kDefaultBlockSize (pull_size request)) else u32 (stride entry))"

datatype BufferStateId = IDLE | COPY | TRANSFER | END

text \<open>The context of a device buffer. A future of a copy is still valid until its result was taken.\<close>

record BufferContext =
  buffer_index :: nat
  ctx_state :: BufferStateId
  ctx_offset :: nat
  ctx_buffer :: nat
  ctx_data_addresses :: "nat list"
  buffer_slices :: "BufferSlice list"
  dst_buffer_slices :: "BufferSlice list"
  copy_futures :: "bool list"

definition kDefaultBufferNum :: nat where "kDefaultBufferNum = 2"

text \<open>The tensors the slices index, from \<open>InitBufferContexts\<close>. A range past the end of the vector is a crash.\<close>

definition H2D_data_addresses :: "CacheEntry \<Rightarrow> TransferCacheReq \<Rightarrow> nat list outcome" where
  "H2D_data_addresses entry request =
     (if src_tensor_indices_size request = 0 then Ok (cache_addrs entry)
      else if src_tensor_start_index request + src_tensor_indices_size request > length (cache_addrs entry) then Crash
      else Ok (take (src_tensor_indices_size request) (drop (src_tensor_start_index request) (cache_addrs entry))))"

definition InitBufferContexts :: "CacheEntry \<Rightarrow> TransferCacheReq \<Rightarrow> nat \<Rightarrow> BufferContext list outcome" where
  "InitBufferContexts entry request offset =
     obind (H2D_data_addresses entry request) (\<lambda>src_cache_addrs.
     Ok (map (\<lambda>i. \<lparr>buffer_index = i, ctx_state = IDLE, ctx_offset = offset, ctx_buffer = 0, ctx_data_addresses = src_cache_addrs,
                   buffer_slices = [], dst_buffer_slices = [], copy_futures = []\<rparr>) [0 ..< kDefaultBufferNum]))"

text \<open>\<open>Initialize\<close>: the batchers for the source and the destination, and the contexts. \<open>npu_pool\<close> says
  whether the device memory pool is enabled.\<close>

definition H2D_Initialize ::
  "CacheEntry \<Rightarrow> TransferCacheReq \<Rightarrow> bool \<Rightarrow> nat \<Rightarrow> (TaskBatcher \<times> TaskBatcher \<times> BufferContext list) outcome" where
  "H2D_Initialize entry request npu_pool offset =
     obind (chk ((num_blocks entry > 0) = (block_size request > 0)) LLM_PARAM_INVALID) (\<lambda>u.
     obind (chk npu_pool LLM_PARAM_INVALID) (\<lambda>u.
     let bsize = H2D_block_size entry request;
         n = (if src_tensor_indices_size request = 0 then length (cache_addrs entry) else src_tensor_indices_size request)
     in obind (chk (n \<le> length (cache_addrs entry)) LLM_PARAM_INVALID) (\<lambda>u.
        let k = buffer_info_count request; d = dst_addr_count request in
        obind (InitBufferContexts entry request offset) (\<lambda>buffers.
        Ok (TaskBatcher_Initialize n bsize k (drop d (transfer_infos request)) (new_TaskBatcher kH2DBufferSize),
            TaskBatcher_Initialize n bsize k (drop (add32 d k) (transfer_infos request)) (new_TaskBatcher kH2DBufferSize),
            buffers)))))"

text \<open>\<open>BufferStateIdle::UpdateState\<close>: the slices to copy into the buffer and to put out of it.\<close>

definition BufferStateIdle_UpdateState ::
  "TaskBatcher \<Rightarrow> TaskBatcher \<Rightarrow> (TaskBatcher \<times> TaskBatcher \<times> BufferStateId \<times> BufferSlice list \<times> BufferSlice list) outcome" where
  "BufferStateIdle_UpdateState src dst =
     obind (NextBatch dst UINT32_MAX) (\<lambda>(dst1, dst_slices).
     if dst_slices = [] then Ok (src, dst1, END, [], [])
     else obind (NextBatch src (GetTransferInfoNum dst1)) (\<lambda>(src1, slices).
          Ok (src1, dst1, COPY, slices, dst_slices)))"

text \<open>\<open>BufferStateCopy\<close>. \<open>CopyAsync\<close> runs on the thread pool, once for each slice; the result is the copy it
  makes. \<open>set_context_ret\<close> and \<open>memcpy\<close> are what the device runtime returns.\<close>

record copy_op =
  copy_dst :: nat
  copy_src :: nat
  copy_size :: nat

definition CopyAsync ::
  "'a acl_consts_scheme \<Rightarrow> aclError \<Rightarrow> (copy_op \<Rightarrow> aclError) \<Rightarrow> BufferContext \<Rightarrow> nat \<Rightarrow> copy_op outcome" where
  "CopyAsync c set_context_ret memcpy context slice_index =
     (if set_context_ret \<noteq> ACL_ERROR_NONE then Err (ConvertAclError2Ge c set_context_ret)
      else if slice_index \<ge> length (buffer_slices context) then Crash
      else
        let task = buffer_slices context ! slice_index in
        if data_index task \<ge> length (ctx_data_addresses context) then Crash
        else
          let src_addr = add64 (add64 (ctx_data_addresses context ! data_index task) (data_offset task)) (ctx_offset context);
              dst_addr = add64 (ctx_buffer context) (buffer_offset task);
              cop = \<lparr>copy_dst = dst_addr, copy_src = src_addr, copy_size = data_size task\<rparr>
          in if memcpy cop \<noteq> ACL_ERROR_NONE then Err (ConvertAclError2Ge c (memcpy cop)) else Ok cop)"

text \<open>The scan of the futures: \<open>poll i\<close> is the status of copy \<open>i\<close>, or \<open>None\<close> while it runs. The results are
  the futures still valid and whether one has to be waited for.\<close>

fun poll_futures :: "(nat \<Rightarrow> status option) \<Rightarrow> nat \<Rightarrow> bool list \<Rightarrow> (bool list \<times> bool) outcome" where
  "poll_futures poll i [] = Ok ([], False)"
| "poll_futures poll i (valid # futs) =
     (if valid then
        (case poll i of
           None \<Rightarrow> Ok (valid # futs, True)
         | Some ret \<Rightarrow>
             if ret \<noteq> SUCCESS then Err ret
             else obind (poll_futures poll (Suc i) futs) (\<lambda>(futs1, need_wait). Ok (False # futs1, need_wait)))
      else obind (poll_futures poll (Suc i) futs) (\<lambda>(futs1, need_wait). Ok (valid # futs1, need_wait)))"

definition BufferStateCopy_UpdateState :: "(nat \<Rightarrow> status option) \<Rightarrow> BufferContext \<Rightarrow> BufferContext outcome" where
  "BufferStateCopy_UpdateState poll context =
     (if copy_futures context = [] then Ok (context\<lparr>copy_futures := replicate (length (buffer_slices context)) True\<rparr>)
      else
        obind (poll_futures poll 0 (copy_futures context)) (\<lambda>(futs, need_wait).
        Ok (if need_wait then context\<lparr>copy_futures := futs\<rparr>
            else context\<lparr>ctx_state := TRANSFER, copy_futures := []\<rparr>)))"

text \<open>\<open>BufferStateTransfer::BatchPutAsync\<close>: the puts it hands to the connection, which answers \<open>batch_put\<close>.\<close>

definition H2D_BatchPutAsync ::
  "(HcclOneSideOpDesc list \<Rightarrow> status) \<Rightarrow> TransferCacheReq \<Rightarrow> BufferContext \<Rightarrow> HcclOneSideOpDesc list outcome" where
  "H2D_BatchPutAsync batch_put request context =
     obind (collect (\<lambda>task.
        obind (transfer_info request (data_index task)) (\<lambda>info.
        Ok \<lparr>localAddr = add64 (ctx_buffer context) (buffer_offset task), remoteAddr = add64 (dst_addr info) (data_offset task),
            hcount = data_size task\<rparr>)) (dst_buffer_slices context)) (\<lambda>op_desc_batch.
     let ret = batch_put op_desc_batch in
     if ret \<noteq> SUCCESS then Err ret else Ok op_desc_batch)"


section \<open>The work of a batcher\<close>

definition block_piece :: "TaskBatcher \<Rightarrow> nat \<Rightarrow> nat \<Rightarrow> piece" where
  "block_piece tb i k = (i, block_start_index (tb_transfer_infos tb ! k) * tb_block_size tb, buffer_len (tb_transfer_infos tb ! k))"

text \<open>The pieces still to be handed out: the rest of the current block, the other blocks of the tensor,
  and all blocks of the tensors after it.\<close>

definition head_piece :: "TaskBatcher \<Rightarrow> piece" where
  "head_piece tb = (if remaining_data_len tb > 0 then (current_tensor_index tb, remaining_data_offset tb, remaining_data_len tb)
     else block_piece tb (current_tensor_index tb) (current_transfer_info_index tb))"

definition later_pieces :: "TaskBatcher \<Rightarrow> piece list" where
  "later_pieces tb =
     map (block_piece tb (current_tensor_index tb)) [Suc (current_transfer_info_index tb) ..< num_transfer_infos tb] @
     concat (map (\<lambda>i. map (block_piece tb i) [0 ..< num_transfer_infos tb]) [Suc (current_tensor_index tb) ..< tb_num_tensors tb])"

definition todo :: "TaskBatcher \<Rightarrow> piece list" where
  "todo tb = (if current_tensor_index tb \<ge> tb_num_tensors tb then [] else head_piece tb # later_pieces tb)"

definition batcher_ok :: "TaskBatcher \<Rightarrow> bool" where
  "batcher_ok tb \<longleftrightarrow>
     0 < tb_buffer_size tb \<and> tb_buffer_size tb < UINT32_MAX \<and> 0 < num_transfer_infos tb \<and> num_transfer_infos tb < 2 ^ 32 \<and>
     num_transfer_infos tb \<le> length (tb_transfer_infos tb) \<and> tb_num_tensors tb < 2 ^ 32 \<and>
     current_tensor_index tb \<le> tb_num_tensors tb \<and> current_transfer_info_index tb < num_transfer_infos tb \<and>
     (\<forall>k < num_transfer_infos tb. 0 < buffer_len (tb_transfer_infos tb ! k) \<and>
        block_start_index (tb_transfer_infos tb ! k) * tb_block_size tb + buffer_len (tb_transfer_infos tb ! k) < 2 ^ 64) \<and>
     (remaining_data_len tb > 0 \<longrightarrow> current_tensor_index tb < tb_num_tensors tb \<and>
        remaining_data_offset tb + remaining_data_len tb < 2 ^ 64)"

lemma GetOffsetAndLength_head:
  assumes "batcher_ok tb" "head_piece tb = (i, toffset, len)"
  shows "GetOffsetAndLength tb r =
      (let m = min r kBatchMaxBlockSize in
       if m < len then Ok (tb\<lparr>remaining_data_len := len - m, remaining_data_offset := add64 toffset m\<rparr>, toffset, m)
       else Ok (tb\<lparr>remaining_data_len := 0, remaining_data_offset := 0\<rparr>, toffset, len))"
    and "i = current_tensor_index tb" "0 < len" "toffset + len < 2 ^ 64"
proof -
  let ?info = "tb_transfer_infos tb ! current_transfer_info_index tb"
  have info: "current_transfer_info_index tb < length (tb_transfer_infos tb)" "0 < buffer_len ?info"
      "block_start_index ?info * tb_block_size tb + buffer_len ?info < 2 ^ 64"
    using assms(1) by (auto simp: batcher_ok_def)
  have rem: "remaining_data_len tb > 0 \<Longrightarrow> remaining_data_offset tb + remaining_data_len tb < 2 ^ 64"
    using assms(1) by (simp add: batcher_ok_def)
  from info have "mul64 (block_start_index ?info) (tb_block_size tb) = block_start_index ?info * tb_block_size tb"
    by (simp add: mul64_def)
  then have "(if remaining_data_len tb > 0 then Ok (remaining_data_offset tb, remaining_data_len tb)
      else if current_transfer_info_index tb \<ge> length (tb_transfer_infos tb) then Crash
      else let info = ?info in Ok (mul64 (block_start_index info) (tb_block_size tb), buffer_len info)) = Ok (toffset, len)"
    using assms(2) info(1) by (simp add: head_piece_def block_piece_def split: if_splits)
  then show "GetOffsetAndLength tb r =
      (let m = min r kBatchMaxBlockSize in
       if m < len then Ok (tb\<lparr>remaining_data_len := len - m, remaining_data_offset := add64 toffset m\<rparr>, toffset, m)
       else Ok (tb\<lparr>remaining_data_len := 0, remaining_data_offset := 0\<rparr>, toffset, len))"
    unfolding GetOffsetAndLength_def by (simp only: obind.simps prod.case)
  show "i = current_tensor_index tb" "0 < len" "toffset + len < 2 ^ 64"
    using assms(2) info rem by (auto simp: head_piece_def block_piece_def split: if_splits)
qed

text \<open>Moving on after a whole block.\<close>

lemma UpdateIndices_next:
  assumes "batcher_ok tb" "current_tensor_index tb < tb_num_tensors tb"
    and "tb' = UpdateIndices (tb\<lparr>remaining_data_len := 0, remaining_data_offset := 0, transfer_info_num := x\<rparr>)"
  shows "batcher_ok tb'" "todo tb' = later_pieces tb"
proof -
  have n: "current_transfer_info_index tb < num_transfer_infos tb" "num_transfer_infos tb < 2 ^ 32" "tb_num_tensors tb < 2 ^ 32"
    using assms(1) by (simp_all add: batcher_ok_def)
  then have add: "add32 (current_tensor_index tb) 1 = Suc (current_tensor_index tb)"
      "add32 (current_transfer_info_index tb) 1 = Suc (current_transfer_info_index tb)"
    using assms(2) by (simp_all add: add32_def)
  show "batcher_ok tb'"
    using assms n add by (auto simp: UpdateIndices_def batcher_ok_def)
  have bp: "block_piece tb' = block_piece tb" and f: "num_transfer_infos tb' = num_transfer_infos tb"
      "tb_num_tensors tb' = tb_num_tensors tb" "remaining_data_len tb' = 0"
    using assms(3) by (simp_all add: fun_eq_iff block_piece_def UpdateIndices_def)
  show "todo tb' = later_pieces tb"
  proof (cases "Suc (current_transfer_info_index tb) = num_transfer_infos tb")
    case True
    then have "current_transfer_info_index tb = num_transfer_infos tb - 1" by simp
    then have "current_transfer_info_index tb' = 0" "current_tensor_index tb' = Suc (current_tensor_index tb)"
      using n add assms(3) by (simp_all add: UpdateIndices_def)
    with True n assms(2) show ?thesis
      by (auto simp: todo_def later_pieces_def head_piece_def bp f upt_conv_Cons)
  next
    case False
    then have "current_transfer_info_index tb \<noteq> num_transfer_infos tb - 1" "Suc (current_transfer_info_index tb) < num_transfer_infos tb"
      using n(1) by auto
    moreover from this have "current_transfer_info_index tb' = Suc (current_transfer_info_index tb)"
        "current_tensor_index tb' = current_tensor_index tb"
      using n add assms(3) by (simp_all add: UpdateIndices_def)
    ultimately show ?thesis using assms(2)
      by (simp add: todo_def later_pieces_def head_piece_def bp f upt_conv_Cons)
  qed
qed

text \<open>One slice: the batcher hands out the beginning of its work.\<close>

definition take_slice :: "TaskBatcher \<Rightarrow> nat \<Rightarrow> TaskBatcher \<Rightarrow> nat \<Rightarrow> nat \<Rightarrow> bool" where
  "take_slice tb r tb' toffset sz \<longleftrightarrow>
     batcher_ok tb' \<and> 0 < sz \<and> sz \<le> r \<and> sz \<le> kBatchMaxBlockSize \<and> toffset + sz < 2 ^ 64 \<and>
     piece_bytes (todo tb) = piece_bytes [(current_tensor_index tb, toffset, sz)] @ piece_bytes (todo tb') \<and>
     tb_buffer_size tb' = tb_buffer_size tb"

lemma piece_bytes_Cons: "piece_bytes (p # ps) = piece_bytes [p] @ piece_bytes ps"
  by (simp add: piece_bytes_def)

lemma GetOffsetAndLength_takes:
  assumes "batcher_ok tb" "current_tensor_index tb < tb_num_tensors tb" "0 < r"
  shows "\<exists>tb1 toffset sz. GetOffsetAndLength tb r = Ok (tb1, toffset, sz) \<and> current_tensor_index tb1 = current_tensor_index tb \<and>
    transfer_info_num tb1 = transfer_info_num tb \<and>
    (\<forall>x. take_slice tb r (UpdateIndices (tb1\<lparr>transfer_info_num := x\<rparr>)) toffset sz)"
proof -
  obtain i toffset len where h: "head_piece tb = (i, toffset, len)" by (metis prod_cases3)
  note g = GetOffsetAndLength_head [OF assms(1) h]
  define m where "m = min r kBatchMaxBlockSize"
  have todo: "todo tb = (current_tensor_index tb, toffset, len) # later_pieces tb"
    using assms(2) h g(2) by (simp add: todo_def)
  have m: "0 < m" "m \<le> r" "m \<le> kBatchMaxBlockSize" using assms(3) by (simp_all add: m_def kBatchMaxBlockSize_def)
  show ?thesis
  proof (cases "m < len")
    case True
    let ?tb1 = "tb\<lparr>remaining_data_len := len - m, remaining_data_offset := toffset + m\<rparr>"
    have add: "add64 toffset m = toffset + m" using True g(4) by (simp add: add64_def)
    have eq: "GetOffsetAndLength tb r = Ok (?tb1, toffset, m)" using True add by (simp add: g(1) Let_def flip: m_def)
    have upd: "UpdateIndices (?tb1\<lparr>transfer_info_num := x\<rparr>) = ?tb1\<lparr>transfer_info_num := x\<rparr>" for x
      using True by (simp add: UpdateIndices_def)
    have "batcher_ok (?tb1\<lparr>transfer_info_num := x\<rparr>)" for x
      using assms True g(4) by (auto simp: batcher_ok_def)
    moreover have "todo (?tb1\<lparr>transfer_info_num := x\<rparr>) = (current_tensor_index tb, toffset + m, len - m) # later_pieces tb" for x
    proof -
      have "block_piece (?tb1\<lparr>transfer_info_num := x\<rparr>) = block_piece tb" by (simp add: fun_eq_iff block_piece_def)
      with assms(2) True show ?thesis by (simp add: todo_def head_piece_def later_pieces_def)
    qed
    moreover have "piece_bytes (todo tb) = piece_bytes [(current_tensor_index tb, toffset, m)] @
        piece_bytes ((current_tensor_index tb, toffset + m, len - m) # later_pieces tb)"
    proof -
      have "piece_bytes [(current_tensor_index tb, toffset, m), (current_tensor_index tb, toffset + m, len - m)]
          = piece_bytes [(current_tensor_index tb, toffset, len)]"
        using piece_bytes_split [of "current_tensor_index tb" toffset m "len - m"] True by simp
      then have "piece_bytes ([(current_tensor_index tb, toffset, m), (current_tensor_index tb, toffset + m, len - m)] @ later_pieces tb)
          = piece_bytes ([(current_tensor_index tb, toffset, len)] @ later_pieces tb)" by (simp only: piece_bytes_append)
      then show ?thesis by (simp add: todo piece_bytes_def)
    qed
    ultimately have "take_slice tb r (UpdateIndices (?tb1\<lparr>transfer_info_num := x\<rparr>)) toffset m" for x
      using m True g(4) unfolding take_slice_def upd by simp
    with eq show ?thesis by auto
  next
    case False
    let ?tb1 = "tb\<lparr>remaining_data_len := 0, remaining_data_offset := 0\<rparr>"
    have eq: "GetOffsetAndLength tb r = Ok (?tb1, toffset, len)" using False by (simp add: g(1) Let_def flip: m_def)
    have "tb_buffer_size (UpdateIndices (?tb1\<lparr>transfer_info_num := x\<rparr>)) = tb_buffer_size tb" for x
      by (simp add: UpdateIndices_def)
    moreover have "piece_bytes (todo tb) = piece_bytes [(current_tensor_index tb, toffset, len)] @ piece_bytes (later_pieces tb)"
      unfolding todo by (rule piece_bytes_Cons)
    moreover have "batcher_ok (UpdateIndices (?tb1\<lparr>transfer_info_num := x\<rparr>))"
        "todo (UpdateIndices (?tb1\<lparr>transfer_info_num := x\<rparr>)) = later_pieces tb" for x
      using UpdateIndices_next [OF assms(1,2) refl, of x] by simp_all
    ultimately have "take_slice tb r (UpdateIndices (?tb1\<lparr>transfer_info_num := x\<rparr>)) toffset len" for x
      unfolding take_slice_def using False m g(3,4) by simp
    with eq show ?thesis by auto
  qed
qed

section \<open>One batch\<close>

definition slice_piece :: "BufferSlice \<Rightarrow> piece" where
  "slice_piece s = (data_index s, data_offset s, data_size s)"

text \<open>The slices lie one behind the other in the buffer.\<close>

fun packed :: "nat \<Rightarrow> BufferSlice list \<Rightarrow> bool" where
  "packed pos [] = True"
| "packed pos (s # ss) \<longleftrightarrow> buffer_offset s = pos \<and> packed (pos + data_size s) ss"

definition total_size :: "BufferSlice list \<Rightarrow> nat" where
  "total_size ss = sum_list (map data_size ss)"

lemma packed_append: "packed pos (xs @ ys) \<longleftrightarrow> packed pos xs \<and> packed (pos + total_size xs) ys"
  by (induction xs arbitrary: pos) (simp_all add: total_size_def add.assoc)

lemma total_simps [simp]: "total_size [] = 0" "total_size (s # ss) = data_size s + total_size ss" "total_size (xs @ ys) = total_size xs + total_size ys"
  by (simp_all add: total_size_def)

definition batch_inv :: "piece list \<Rightarrow> nat \<Rightarrow> batch_acc \<Rightarrow> bool" where
  "batch_inv work bufsize acc \<longleftrightarrow>
     (case acc of (tb, ret, st) \<Rightarrow>
        batcher_ok tb \<and> tb_buffer_size tb = bufsize \<and>
        piece_bytes work = piece_bytes (map slice_piece ret) @ piece_bytes (todo tb) \<and>
        packed 0 ret \<and> st_buffer_offset st = total_size ret \<and> total_size ret + remaining_buffer_len st = bufsize \<and>
        (\<forall>s \<in> set ret. 0 < data_size s \<and> data_size s \<le> kBatchMaxBlockSize) \<and>
        (prev_tensor_index st \<noteq> UINT32_MAX \<longrightarrow> ret \<noteq> [] \<and> data_index (last ret) = prev_tensor_index st \<and>
           data_offset (last ret) + data_size (last ret) = prev_block_end_offset st) \<and>
        transfer_info_num tb \<le> total_size ret)"

text \<open>Adding a slice, as a new one or to the last one.\<close>

definition slice_added :: "BufferSlice list \<Rightarrow> nat \<Rightarrow> nat \<Rightarrow> nat \<Rightarrow> BufferSlice list \<Rightarrow> bool" where
  "slice_added ret i toffset sz ret' \<longleftrightarrow>
     packed 0 ret' \<and> total_size ret' = total_size ret + sz \<and>
     piece_bytes (map slice_piece ret') = piece_bytes (map slice_piece ret) @ piece_bytes [(i, toffset, sz)] \<and>
     (\<forall>s \<in> set ret'. 0 < data_size s \<and> data_size s \<le> kBatchMaxBlockSize) \<and>
     ret' \<noteq> [] \<and> data_index (last ret') = i \<and> data_offset (last ret') + data_size (last ret') = toffset + sz"

lemma slice_added_fresh:
  assumes "packed 0 ret" "\<forall>s \<in> set ret. 0 < data_size s \<and> data_size s \<le> kBatchMaxBlockSize" "0 < sz" "sz \<le> kBatchMaxBlockSize"
  shows "slice_added ret i toffset sz (ret @ [\<lparr>buffer_offset = total_size ret, data_index = i, data_offset = toffset, data_size = sz\<rparr>])"
  using assms by (auto simp: slice_added_def packed_append slice_piece_def)

lemma slice_added_merge:
  assumes "packed 0 ret" "\<forall>s \<in> set ret. 0 < data_size s \<and> data_size s \<le> kBatchMaxBlockSize" "0 < sz"
    and "ret \<noteq> []" "data_index (last ret) = i" "data_offset (last ret) + data_size (last ret) = toffset"
    and "data_size (last ret) + sz \<le> kBatchMaxBlockSize"
  shows "slice_added ret i toffset sz (butlast ret @ [(last ret)\<lparr>data_size := data_size (last ret) + sz\<rparr>])"
proof -
  obtain ss t where ret: "ret = ss @ [t]" using assms(4) by (metis rev_exhaust)
  have "piece_bytes [(i, data_offset t, data_size t + sz)] = piece_bytes [(i, data_offset t, data_size t)] @ piece_bytes [(i, toffset, sz)]"
    using assms(6) ret piece_bytes_split [of i "data_offset t" "data_size t" sz] by (simp flip: piece_bytes_append)
  with assms ret show ?thesis by (auto simp: slice_added_def packed_append slice_piece_def)
qed

lemma batch_inv_added:
  assumes "batch_inv work bufsize (tb, ret, st)" "take_slice tb r tb' toffset sz"
    and "slice_added ret (current_tensor_index tb) toffset sz ret'"
    and "st_buffer_offset st' = total_size ret + sz" "remaining_buffer_len st' = remaining_buffer_len st - sz" "sz \<le> remaining_buffer_len st"
    and "prev_tensor_index st' = current_tensor_index tb" "prev_block_end_offset st' = toffset + sz"
    and "transfer_info_num tb' = Suc (transfer_info_num tb)"
  shows "batch_inv work bufsize (tb', ret', st')"
  using assms by (auto simp: batch_inv_def take_slice_def slice_added_def)

lemma AppendNextSlice_inv:
  assumes inv: "batch_inv work bufsize (tb, ret, st)" and r: "0 < remaining_buffer_len st"
    and full: "\<not> batch_full tb st n"
  shows "\<exists>tb' ret' st' toffset sz. AppendNextSlice (tb, ret, st) n = Ok ((tb', ret', st'), True) \<and>
    batch_inv work bufsize (tb', ret', st') \<and> total_size ret' = total_size ret + sz \<and>
    remaining_buffer_len st' = remaining_buffer_len st - sz \<and> transfer_info_num tb' = Suc (transfer_info_num tb) \<and>
    take_slice tb (remaining_buffer_len st) tb' toffset sz"
proof -
  have more: "current_tensor_index tb < tb_num_tensors tb" using full by (simp add: batch_full_def)
  have ok: "batcher_ok tb" using inv by (simp add: batch_inv_def)
  then obtain tb1 toffset sz where g: "GetOffsetAndLength tb (remaining_buffer_len st) = Ok (tb1, toffset, sz)"
      "current_tensor_index tb1 = current_tensor_index tb" "transfer_info_num tb1 = transfer_info_num tb"
    and ts: "\<And>x. take_slice tb (remaining_buffer_len st) (UpdateIndices (tb1\<lparr>transfer_info_num := x\<rparr>)) toffset sz"
    using GetOffsetAndLength_takes [OF ok more r] by blast
  have sz: "0 < sz" "sz \<le> remaining_buffer_len st" "sz \<le> kBatchMaxBlockSize" "toffset + sz < 2 ^ 64"
    using ts [of 0] by (simp_all add: take_slice_def)
  have buf: "total_size ret + remaining_buffer_len st = bufsize" "bufsize < UINT32_MAX" "transfer_info_num tb \<le> total_size ret"
      "tb_num_tensors tb < 2 ^ 32"
    using inv ok by (auto simp: batch_inv_def batcher_ok_def)
  have w: "u32 sz = sz" "add32 (total_size ret) sz = total_size ret + sz" "sub32 (remaining_buffer_len st) sz = remaining_buffer_len st - sz"
      "add64 toffset sz = toffset + sz" "add32 (transfer_info_num tb) 1 = Suc (transfer_info_num tb)"
    using sz buf by (simp_all add: u32_def add32_def add64_def sub32_id kBatchMaxBlockSize_def)
  let ?tb' = "UpdateIndices (tb1\<lparr>transfer_info_num := Suc (transfer_info_num tb)\<rparr>)"
  have num: "transfer_info_num ?tb' = Suc (transfer_info_num tb)" by (simp add: UpdateIndices_def)
  have ct: "current_tensor_index tb \<noteq> UINT32_MAX" using more buf(4) by simp
  have i: "st_buffer_offset st = total_size ret" "packed 0 ret" "\<forall>s \<in> set ret. 0 < data_size s \<and> data_size s \<le> kBatchMaxBlockSize"
    and prev: "current_tensor_index tb = prev_tensor_index st \<Longrightarrow> ret \<noteq> [] \<and> data_index (last ret) = current_tensor_index tb \<and>
      data_offset (last ret) + data_size (last ret) = prev_block_end_offset st"
    using inv ct by (auto simp: batch_inv_def)
  let ?merge = "(current_tensor_index tb = prev_tensor_index st \<and> toffset = prev_block_end_offset st) \<and>
    data_size (last ret) + sz \<le> kBatchMaxBlockSize"
  let ?ret' = "if ?merge then butlast ret @ [(last ret)\<lparr>data_size := data_size (last ret) + sz\<rparr>]
    else ret @ [\<lparr>buffer_offset = total_size ret, data_index = current_tensor_index tb, data_offset = toffset, data_size = sz\<rparr>]"
  let ?st' = "\<lparr>st_buffer_offset = total_size ret + sz, remaining_buffer_len = remaining_buffer_len st - sz,
    prev_block_end_offset = toffset + sz, prev_tensor_index = current_tensor_index tb,
    num_tasks = (if ?merge then num_tasks st else add32 (num_tasks st) 1)\<rparr>"
  have "data_size (last ret) \<le> kBatchMaxBlockSize" if "ret \<noteq> []" using i(3) that by simp
  then have addl: "add32 (data_size (last ret)) sz = data_size (last ret) + sz" if "ret \<noteq> []"
    using sz(3) that by (simp add: add32_def kBatchMaxBlockSize_def)
  have step: "AppendNextSlice (tb, ret, st) n = Ok ((?tb', ?ret', ?st'), True)"
  proof -
    note f = full g sz(1) w i(1)
    consider (a) "current_tensor_index tb \<noteq> prev_tensor_index st"
      | (b) "current_tensor_index tb = prev_tensor_index st" "toffset \<noteq> prev_block_end_offset st"
      | (c) "current_tensor_index tb = prev_tensor_index st" "toffset = prev_block_end_offset st" "ret \<noteq> []"
          "add32 (data_size (last ret)) sz = data_size (last ret) + sz"
      using prev addl by blast
    then show ?thesis
    proof cases
      case a
      with f show ?thesis by (simp add: AppendNextSlice_def Let_def not_le)
    next
      case b
      with f show ?thesis by (simp add: AppendNextSlice_def Let_def not_le)
    next
      case c
      with f show ?thesis by (simp add: AppendNextSlice_def Let_def not_le)
    qed
  qed
  have added: "slice_added ret (current_tensor_index tb) toffset sz ?ret'"
    using prev by (auto intro!: slice_added_merge slice_added_fresh i sz)
  then have "batch_inv work bufsize (?tb', ?ret', ?st')"
    by (intro batch_inv_added [OF inv ts]) (use sz num in simp_all)
  moreover have "total_size ?ret' = total_size ret + sz" using added by (simp add: slice_added_def)
  moreover have "remaining_buffer_len ?st' = remaining_buffer_len st - sz" by simp
  ultimately show ?thesis using step num ts by blast
qed


lemma AppendNextSlice_stops:
  assumes "batch_full tb st n"
  shows "AppendNextSlice (tb, ret, st) n = Ok ((tb, ret, st), False)"
  using assms by (auto simp: AppendNextSlice_def)

text \<open>What a finished batch satisfies.\<close>

definition batch_done :: "piece list \<Rightarrow> nat \<Rightarrow> nat \<Rightarrow> TaskBatcher \<Rightarrow> BufferSlice list \<Rightarrow> bool" where
  "batch_done work bufsize n tb slices \<longleftrightarrow>
     batcher_ok tb \<and> tb_buffer_size tb = bufsize \<and>
     piece_bytes work = piece_bytes (map slice_piece slices) @ piece_bytes (todo tb) \<and>
     packed 0 slices \<and> total_size slices \<le> bufsize \<and> transfer_info_num tb \<le> total_size slices \<and>
     (\<forall>s \<in> set slices. 0 < data_size s \<and> data_size s \<le> kBatchMaxBlockSize)"

lemma NextBatch_loop_done:
  "batch_inv work bufsize (tb, ret, st) \<Longrightarrow>
   \<exists>tb' slices. NextBatch_loop tb ret st n = Ok (tb', slices) \<and> batch_done work bufsize n tb' slices \<and> total_size ret \<le> total_size slices"
proof (induction tb ret st n rule: NextBatch_loop.induct)
  case (1 tb ret st n)
  have stop: "batch_done work bufsize n tb ret" using 1(2) by (auto simp: batch_inv_def batch_done_def)
  show ?case
  proof (cases "remaining_buffer_len st > 0")
    case False
    with stop show ?thesis by (simp add: NextBatch_loop.simps)
  next
    case r: True
    show ?thesis
    proof (cases "batch_full tb st n")
      case True
      from AppendNextSlice_stops [OF this, of ret] r stop show ?thesis by (subst NextBatch_loop.simps) simp
    next
      case False
      then obtain tb' ret' st' toffset sz where s: "AppendNextSlice (tb, ret, st) n = Ok ((tb', ret', st'), True)"
          "batch_inv work bufsize (tb', ret', st')" "total_size ret' = total_size ret + sz"
        using AppendNextSlice_inv [OF 1(2) r, of n] by (auto simp: not_le)
      with 1(1) [OF r s(1) refl refl refl _ s(2)] r show ?thesis by (subst NextBatch_loop.simps) auto
    qed
  qed
qed


lemma NextBatch_done:
  assumes "batcher_ok tb"
  shows "\<exists>tb' slices. NextBatch tb n = Ok (tb', slices) \<and> batch_done (todo tb) (tb_buffer_size tb) n tb' slices"
proof -
  let ?tb = "tb\<lparr>transfer_info_num := 0\<rparr>"
  have "block_piece ?tb = block_piece tb" by (simp add: fun_eq_iff block_piece_def)
  then have "todo ?tb = todo tb" by (simp add: todo_def head_piece_def later_pieces_def)
  moreover have "batcher_ok ?tb" using assms unfolding batcher_ok_def by simp
  ultimately have "batch_inv (todo tb) (tb_buffer_size tb) (?tb, [], \<lparr>st_buffer_offset = 0, remaining_buffer_len = tb_buffer_size tb,
      prev_block_end_offset = UINT64_MAX, prev_tensor_index = UINT32_MAX, num_tasks = 0\<rparr>)"
    by (simp add: batch_inv_def piece_bytes_def)
  from NextBatch_loop_done [OF this, of n] assms show ?thesis by (simp add: NextBatch_def batcher_ok_def)
qed

text \<open>An empty batch means that nothing is left, unless the caller asked for nothing.\<close>

lemma NextBatch_empty:
  assumes "batcher_ok tb" "NextBatch tb n = Ok (tb', [])" "0 < n"
  shows "todo tb = []"
proof (rule ccontr)
  assume ne: "todo tb \<noteq> []"
  let ?tb = "tb\<lparr>transfer_info_num := 0\<rparr>" and ?st = "\<lparr>st_buffer_offset = 0, remaining_buffer_len = tb_buffer_size tb,
      prev_block_end_offset = UINT64_MAX, prev_tensor_index = UINT32_MAX, num_tasks = 0\<rparr>"
  have b: "0 < tb_buffer_size tb" "0 < num_transfer_infos tb" using assms(1) by (simp_all add: batcher_ok_def)
  have ct: "current_tensor_index tb < tb_num_tensors tb" using ne by (simp add: todo_def split: if_splits)
  have ok: "batcher_ok ?tb" using assms(1) unfolding batcher_ok_def by simp
  then have inv: "batch_inv (todo ?tb) (tb_buffer_size tb) (?tb, [], ?st)" by (simp add: batch_inv_def piece_bytes_def)
  obtain tb1 ret1 st1 toffset sz where s: "AppendNextSlice (?tb, [], ?st) n = Ok ((tb1, ret1, st1), True)"
      "batch_inv (todo ?tb) (tb_buffer_size tb) (tb1, ret1, st1)" "total_size ret1 = total_size [] + sz"
      "take_slice ?tb (remaining_buffer_len ?st) tb1 toffset sz"
    using AppendNextSlice_inv [OF inv, of n] b(1) ct assms(3) by (auto simp: kMaxTaskNumInBatch_def batch_full_def)
  obtain tb2 slices where l: "NextBatch_loop tb1 ret1 st1 n = Ok (tb2, slices)" "total_size ret1 \<le> total_size slices"
    using NextBatch_loop_done [OF s(2), of n] by blast
  have "NextBatch tb n = Ok (tb2, slices)"
    using b s(1) l(1) by (simp add: NextBatch_def) (subst NextBatch_loop.simps, simp)
  with assms(2) l(2) s(3,4) show False by (simp add: take_slice_def)
qed

section \<open>Two batchers in step\<close>

text \<open>The same position in lists of blocks with the same lengths.\<close>

definition in_step :: "TaskBatcher \<Rightarrow> TaskBatcher \<Rightarrow> bool" where
  "in_step a b \<longleftrightarrow>
     tb_buffer_size a = tb_buffer_size b \<and> tb_num_tensors a = tb_num_tensors b \<and>
     num_transfer_infos a = num_transfer_infos b \<and> current_tensor_index a = current_tensor_index b \<and>
     current_transfer_info_index a = current_transfer_info_index b \<and> remaining_data_len a = remaining_data_len b \<and>
     (\<forall>k < num_transfer_infos b. buffer_len (tb_transfer_infos a ! k) = buffer_len (tb_transfer_infos b ! k))"

lemma UpdateIndices_in_step: "in_step a b \<Longrightarrow> in_step (UpdateIndices (a\<lparr>transfer_info_num := x\<rparr>)) (UpdateIndices (b\<lparr>transfer_info_num := y\<rparr>))"
  by (auto simp: in_step_def UpdateIndices_def)

lemma GetOffsetAndLength_in_step:
  assumes "in_step a b" "batcher_ok a" "batcher_ok b"
    and "GetOffsetAndLength a r = Ok (a1, oa, sa)" "GetOffsetAndLength b r = Ok (b1, ob, sb)"
  shows "sa = sb" "in_step a1 b1"
proof -
  obtain ia ta la ib tb lb where h: "head_piece a = (ia, ta, la)" "head_piece b = (ib, tb, lb)" by (metis prod_cases3)
  have k: "current_transfer_info_index b < num_transfer_infos b" using assms(3) by (simp add: batcher_ok_def)
  then have "buffer_len (tb_transfer_infos a ! current_transfer_info_index a) = buffer_len (tb_transfer_infos b ! current_transfer_info_index b)"
      "remaining_data_len a = remaining_data_len b"
    using assms(1) by (simp_all add: in_step_def)
  then have "la = lb" using h by (cases "remaining_data_len b > 0") (simp_all add: head_piece_def block_piece_def)
  then have "sa = sb \<and> in_step a1 b1"
    using assms(1,4,5) unfolding GetOffsetAndLength_head(1) [OF assms(2) h(1)] GetOffsetAndLength_head(1) [OF assms(3) h(2)] Let_def
    by (cases "min r kBatchMaxBlockSize < lb") (auto simp: in_step_def)
  then show "sa = sb" "in_step a1 b1" by blast+
qed

lemma AppendNextSlice_True:
  assumes "AppendNextSlice (tb, ret, st) n = Ok ((tb', ret', st'), True)"
  shows "\<exists>tb1 toffset sz. GetOffsetAndLength tb (remaining_buffer_len st) = Ok (tb1, toffset, sz) \<and>
    tb' = UpdateIndices (tb1\<lparr>transfer_info_num := add32 (transfer_info_num tb1) 1\<rparr>) \<and>
    remaining_buffer_len st' = sub32 (remaining_buffer_len st) (u32 sz)"
proof -
  have c: "\<not> batch_full tb st n" using assms AppendNextSlice_stops [of tb st n ret] by auto
  then obtain tb1 toffset sz where g: "GetOffsetAndLength tb (remaining_buffer_len st) = Ok (tb1, toffset, sz)"
    using assms by (auto simp: AppendNextSlice_def)
  moreover have "sz \<noteq> 0" using assms c g by (cases "sz = 0") (simp_all add: AppendNextSlice_def)
  ultimately show ?thesis using assms c by (auto simp: AppendNextSlice_def Let_def)
qed

lemma AppendNextSlice_in_step:
  assumes "in_step src dst" "batch_inv works bufsize (src, rets, sts)" "batch_inv workd bufsize (dst, retd, std)"
    and "remaining_buffer_len sts = remaining_buffer_len std" "0 < remaining_buffer_len std"
    and "\<not> batch_full dst std UINT32_MAX"
    and "transfer_info_num src = transfer_info_num dst" "transfer_info_num dst < c" "c < UINT32_MAX"
  shows "\<exists>src' rets' sts' dst' retd' std'. AppendNextSlice (src, rets, sts) c = Ok ((src', rets', sts'), True) \<and>
    AppendNextSlice (dst, retd, std) UINT32_MAX = Ok ((dst', retd', std'), True) \<and> in_step src' dst' \<and>
    batch_inv works bufsize (src', rets', sts') \<and> batch_inv workd bufsize (dst', retd', std') \<and>
    remaining_buffer_len sts' = remaining_buffer_len std' \<and> transfer_info_num src' = transfer_info_num dst' \<and>
    transfer_info_num dst' = Suc (transfer_info_num dst)"
proof -
  have ok: "batcher_ok src" "batcher_ok dst" using assms(2,3) by (simp_all add: batch_inv_def)
  have s: "\<not> batch_full src sts c" "0 < remaining_buffer_len sts"
    using assms by (auto simp: in_step_def batch_full_def)
  obtain src' rets' sts' os ss where S: "AppendNextSlice (src, rets, sts) c = Ok ((src', rets', sts'), True)"
      "batch_inv works bufsize (src', rets', sts')" "remaining_buffer_len sts' = remaining_buffer_len sts - ss"
      "transfer_info_num src' = Suc (transfer_info_num src)" "total_size rets' = total_size rets + ss"
    using AppendNextSlice_inv [OF assms(2) s(2,1)] by blast
  obtain dst' retd' std' od sd where D: "AppendNextSlice (dst, retd, std) UINT32_MAX = Ok ((dst', retd', std'), True)"
      "batch_inv workd bufsize (dst', retd', std')" "remaining_buffer_len std' = remaining_buffer_len std - sd"
      "transfer_info_num dst' = Suc (transfer_info_num dst)" "total_size retd' = total_size retd + sd"
    using AppendNextSlice_inv [OF assms(3,5,6)] by blast
  obtain a1 oa sa where A: "GetOffsetAndLength src (remaining_buffer_len std) = Ok (a1, oa, sa)"
      "src' = UpdateIndices (a1\<lparr>transfer_info_num := add32 (transfer_info_num a1) 1\<rparr>)"
      "remaining_buffer_len sts' = sub32 (remaining_buffer_len sts) (u32 sa)"
    using AppendNextSlice_True [OF S(1)] assms(4) by auto
  obtain b1 ob sb where B: "GetOffsetAndLength dst (remaining_buffer_len std) = Ok (b1, ob, sb)"
      "dst' = UpdateIndices (b1\<lparr>transfer_info_num := add32 (transfer_info_num b1) 1\<rparr>)"
      "remaining_buffer_len std' = sub32 (remaining_buffer_len std) (u32 sb)"
    using AppendNextSlice_True [OF D(1)] by auto
  note eq = GetOffsetAndLength_in_step [OF assms(1) ok A(1) B(1)]
  have "in_step src' dst'" unfolding A(2) B(2) by (rule UpdateIndices_in_step [OF eq(2)])
  moreover have "remaining_buffer_len sts' = remaining_buffer_len std'" using A(3) B(3) eq(1) assms(4) by simp
  moreover have "transfer_info_num src' = transfer_info_num dst'" using S(4) D(4) assms(7) by simp
  ultimately show ?thesis using S(1,2) D(1,2,4) by blast
qed

text \<open>The cases of the loop of \<open>NextBatch\<close>.\<close>

lemma NextBatch_loop_cases [consumes 1, case_names stop step]:
  assumes "batch_inv work bufsize (tb, ret, st)"
  obtains "remaining_buffer_len st = 0 \<or> batch_full tb st n" "NextBatch_loop tb ret st n = Ok (tb, ret)"
  | tb' ret' st' where "0 < remaining_buffer_len st" "\<not> batch_full tb st n"
      "AppendNextSlice (tb, ret, st) n = Ok ((tb', ret', st'), True)" "batch_inv work bufsize (tb', ret', st')"
      "transfer_info_num tb' = Suc (transfer_info_num tb)" "NextBatch_loop tb ret st n = NextBatch_loop tb' ret' st' n"
proof (cases "remaining_buffer_len st = 0 \<or> batch_full tb st n")
  case True
  then have "NextBatch_loop tb ret st n = Ok (tb, ret)"
    using AppendNextSlice_stops [of tb st n ret] by (subst NextBatch_loop.simps) auto
  with True that(1) show thesis by blast
next
  case False
  then have f: "0 < remaining_buffer_len st" "\<not> batch_full tb st n" by auto
  obtain tb' ret' st' where s: "AppendNextSlice (tb, ret, st) n = Ok ((tb', ret', st'), True)"
      "batch_inv work bufsize (tb', ret', st')" "transfer_info_num tb' = Suc (transfer_info_num tb)"
    using AppendNextSlice_inv [OF assms f] by blast
  have "NextBatch_loop tb ret st n = NextBatch_loop tb' ret' st' n"
    using f(1) s(1) by (subst NextBatch_loop.simps) simp
  with f s that(2) show thesis by blast
qed

lemma NextBatch_loop_count:
  "batch_inv work bufsize (tb, ret, st) \<Longrightarrow> NextBatch_loop tb ret st n = Ok (tb', slices) \<Longrightarrow>
   transfer_info_num tb \<le> transfer_info_num tb'"
proof (induction "remaining_buffer_len st" arbitrary: tb ret st rule: less_induct)
  case less
  from less(2) show ?case
  proof (cases rule: NextBatch_loop_cases [where n = n])
    case stop
    with less(3) show ?thesis by simp
  next
    case (step tb1 ret1 st1)
    with less(1) [OF AppendNextSlice_decreases [OF step(3)] step(4)] less(3) show ?thesis by simp
  qed
qed

lemma NextBatch_loop_in_step:
  "in_step src dst \<Longrightarrow> batch_inv works bufsize (src, rets, sts) \<Longrightarrow> batch_inv workd bufsize (dst, retd, std) \<Longrightarrow>
   remaining_buffer_len sts = remaining_buffer_len std \<Longrightarrow> transfer_info_num src = transfer_info_num dst \<Longrightarrow>
   NextBatch_loop dst retd std UINT32_MAX = Ok (dst', slicesd) \<Longrightarrow> transfer_info_num dst' < UINT32_MAX \<Longrightarrow>
   \<exists>src' slices. NextBatch_loop src rets sts (transfer_info_num dst') = Ok (src', slices) \<and> in_step src' dst' \<and>
     total_size slices = total_size slicesd"
proof (induction "remaining_buffer_len std" arbitrary: src rets sts dst retd std rule: less_induct)
  case less
  from less(4) show ?case
  proof (cases rule: NextBatch_loop_cases [where n = UINT32_MAX])
    case stop
    then have "dst' = dst" "slicesd = retd" using less(7) by simp_all
    moreover have "NextBatch_loop src rets sts (transfer_info_num src) = Ok (src, rets)"
      using AppendNextSlice_stops [of src sts "transfer_info_num src" rets] by (subst NextBatch_loop.simps) (simp add: batch_full_def)
    moreover have "total_size rets = total_size retd" using less(3-5) by (simp add: batch_inv_def)
    ultimately show ?thesis using less(2,6) by simp
  next
    case (step dst1 retd1 std1)
    have run: "NextBatch_loop dst1 retd1 std1 UINT32_MAX = Ok (dst', slicesd)" using step(6) less(7) by simp
    have c: "transfer_info_num dst < transfer_info_num dst'"
      using NextBatch_loop_count [OF step(4) run] step(5) by simp
    from AppendNextSlice_in_step [OF less(2,3,4,5) step(1,2) less(6) c less(8)] step(3)
    obtain src1 rets1 sts1 where n: "AppendNextSlice (src, rets, sts) (transfer_info_num dst') = Ok ((src1, rets1, sts1), True)"
        "in_step src1 dst1" "batch_inv works bufsize (src1, rets1, sts1)" "remaining_buffer_len sts1 = remaining_buffer_len std1"
        "transfer_info_num src1 = transfer_info_num dst1" by auto
    from less(1) [OF AppendNextSlice_decreases [OF step(3)] n(2,3) step(4) n(4,5) run less(8)]
    obtain src' slices where "NextBatch_loop src1 rets1 sts1 (transfer_info_num dst') = Ok (src', slices)" "in_step src' dst'"
      "total_size slices = total_size slicesd" by blast
    moreover have "NextBatch_loop src rets sts (transfer_info_num dst') = NextBatch_loop src1 rets1 sts1 (transfer_info_num dst')"
      using step(1) less(5) n(1) by (subst NextBatch_loop.simps) simp
    ultimately show ?thesis by simp
  qed
qed


section \<open>The whole transfer\<close>

lemma NextBatch_start:
  assumes "batcher_ok tb"
  shows "batch_inv (todo tb) (tb_buffer_size tb) (tb\<lparr>transfer_info_num := 0\<rparr>, [],
      \<lparr>st_buffer_offset = 0, remaining_buffer_len = tb_buffer_size tb, prev_block_end_offset = UINT64_MAX,
       prev_tensor_index = UINT32_MAX, num_tasks = 0\<rparr>)"
    and "NextBatch tb n = NextBatch_loop (tb\<lparr>transfer_info_num := 0\<rparr>) []
      \<lparr>st_buffer_offset = 0, remaining_buffer_len = tb_buffer_size tb, prev_block_end_offset = UINT64_MAX,
       prev_tensor_index = UINT32_MAX, num_tasks = 0\<rparr> n"
proof -
  let ?tb = "tb\<lparr>transfer_info_num := 0\<rparr>"
  have "block_piece ?tb = block_piece tb" by (simp add: fun_eq_iff block_piece_def)
  then have "todo ?tb = todo tb" by (simp add: todo_def head_piece_def later_pieces_def)
  moreover have "batcher_ok ?tb" using assms unfolding batcher_ok_def by simp
  ultimately show "batch_inv (todo tb) (tb_buffer_size tb) (tb\<lparr>transfer_info_num := 0\<rparr>, [],
      \<lparr>st_buffer_offset = 0, remaining_buffer_len = tb_buffer_size tb, prev_block_end_offset = UINT64_MAX,
       prev_tensor_index = UINT32_MAX, num_tasks = 0\<rparr>)"
    by (simp add: batch_inv_def piece_bytes_def)
  show "NextBatch tb n = NextBatch_loop (tb\<lparr>transfer_info_num := 0\<rparr>) []
      \<lparr>st_buffer_offset = 0, remaining_buffer_len = tb_buffer_size tb, prev_block_end_offset = UINT64_MAX,
       prev_tensor_index = UINT32_MAX, num_tasks = 0\<rparr> n"
    using assms by (simp add: NextBatch_def batcher_ok_def)
qed

text \<open>One pair of batches: the buffer is filled from the source and emptied to the destination.\<close>

definition matching :: "nat \<Rightarrow> BufferSlice list \<Rightarrow> BufferSlice list \<Rightarrow> bool" where
  "matching bufsize slices dst_slices \<longleftrightarrow>
     packed 0 slices \<and> packed 0 dst_slices \<and> total_size slices = total_size dst_slices \<and>
     0 < total_size slices \<and> total_size slices \<le> bufsize"

lemma total_size_pos: "slices \<noteq> [] \<Longrightarrow> \<forall>s \<in> set slices. 0 < data_size s \<Longrightarrow> 0 < total_size slices"
  by (cases slices) auto

lemma BufferStateIdle_step:
  assumes "batcher_ok src" "batcher_ok dst" "in_step src dst"
  obtains src' dst' slices dst_slices where
      "BufferStateIdle_UpdateState src dst = Ok (src', dst', COPY, slices, dst_slices)"
      "batcher_ok src'" "batcher_ok dst'" "in_step src' dst'" "matching (tb_buffer_size dst) slices dst_slices"
      "tb_buffer_size dst' = tb_buffer_size dst"
      "piece_bytes (todo src) = piece_bytes (map slice_piece slices) @ piece_bytes (todo src')"
      "piece_bytes (todo dst) = piece_bytes (map slice_piece dst_slices) @ piece_bytes (todo dst')"
  | dst' where "BufferStateIdle_UpdateState src dst = Ok (src, dst', END, [], [])" "todo src = []" "todo dst = []"
proof -
  obtain dst' dslices where d: "NextBatch dst UINT32_MAX = Ok (dst', dslices)"
      "batch_done (todo dst) (tb_buffer_size dst) UINT32_MAX dst' dslices"
    using NextBatch_done [OF assms(2)] by blast
  show thesis
  proof (cases "dslices = []")
    case True
    with d(1) have e: "todo dst = []" using NextBatch_empty [OF assms(2), of UINT32_MAX dst'] by simp
    then have "todo src = []" using assms(3) by (simp add: todo_def in_step_def split: if_splits)
    with True e d(1) that(2) show thesis by (simp add: BufferStateIdle_UpdateState_def)
  next
    case False
    have c: "transfer_info_num dst' < UINT32_MAX"
      using d(2) assms(2) by (auto simp: batch_done_def batcher_ok_def)
    have eq: "tb_buffer_size src = tb_buffer_size dst" using assms(3) by (simp add: in_step_def)
    have st: "in_step (src\<lparr>transfer_info_num := 0\<rparr>) (dst\<lparr>transfer_info_num := 0\<rparr>)" using assms(3) by (simp add: in_step_def)
    from NextBatch_loop_in_step [OF st NextBatch_start(1) [OF assms(1), unfolded eq] NextBatch_start(1) [OF assms(2)] _ _ _ c] d(1)
    obtain src' slices where s: "NextBatch src (transfer_info_num dst') = Ok (src', slices)" "in_step src' dst'"
        "total_size slices = total_size dslices"
      by (auto simp: NextBatch_start(2) [OF assms(1)] NextBatch_start(2) [OF assms(2)] eq)
    have sd: "batch_done (todo src) (tb_buffer_size src) (transfer_info_num dst') src' slices"
      using NextBatch_done [OF assms(1), of "transfer_info_num dst'"] s(1) by auto
    have "0 < total_size dslices" using False d(2) by (intro total_size_pos) (simp_all add: batch_done_def)
    then have "matching (tb_buffer_size dst) slices dslices" using d(2) sd s(3) eq by (simp add: matching_def batch_done_def)
    moreover have "BufferStateIdle_UpdateState src dst = Ok (src', dst', COPY, slices, dslices)"
      using False d(1) s(1) by (simp add: BufferStateIdle_UpdateState_def GetTransferInfoNum_def)
    ultimately show thesis using that(1) s(2) d(2) sd by (simp add: batch_done_def)
  qed
qed

text \<open>Batches are taken, by whichever buffer is idle, until the end state is reached.\<close>

fun H2D_run :: "nat \<Rightarrow> TaskBatcher \<Rightarrow> TaskBatcher \<Rightarrow> (BufferSlice list \<times> BufferSlice list) list option" where
  "H2D_run 0 src dst = None"
| "H2D_run (Suc fuel) src dst =
     (case BufferStateIdle_UpdateState src dst of
        Ok (src', dst', state, slices, dst_slices) \<Rightarrow>
          if state = END then Some [] else map_option (Cons (slices, dst_slices)) (H2D_run fuel src' dst')
      | _ \<Rightarrow> None)"

lemma length_piece_bytes: "length (piece_bytes (map slice_piece ss)) = total_size ss"
  by (induction ss) (simp_all add: piece_bytes_def slice_piece_def)

text \<open>Two batchers in step are worked off together.\<close>

lemma H2D_run_complete:
  assumes "batcher_ok src" "batcher_ok dst" "in_step src dst" "length (piece_bytes (todo dst)) < fuel"
  shows "\<exists>batches. H2D_run fuel src dst = Some batches \<and>
    (\<forall>(slices, dst_slices) \<in> set batches. matching (tb_buffer_size dst) slices dst_slices) \<and>
    concat (map (\<lambda>(slices, dst_slices). piece_bytes (map slice_piece slices)) batches) = piece_bytes (todo src) \<and>
    concat (map (\<lambda>(slices, dst_slices). piece_bytes (map slice_piece dst_slices)) batches) = piece_bytes (todo dst)"
  using assms
proof (induction fuel arbitrary: src dst)
  case (Suc fuel)
  from Suc.prems(1-3) show ?case
  proof (cases rule: BufferStateIdle_step)
    case (1 src' dst' slices dst_slices)
    have "0 < length (piece_bytes (map slice_piece dst_slices))"
      using 1(5) by (simp add: length_piece_bytes matching_def)
    moreover have "length (piece_bytes (todo dst)) = length (piece_bytes (map slice_piece dst_slices)) + length (piece_bytes (todo dst'))"
      using 1(8) by simp
    ultimately have "length (piece_bytes (todo dst')) < fuel" using Suc.prems(4) by linarith
    from Suc.IH [OF 1(2-4) this] 1 show ?thesis by auto
  next
    case (2 dst')
    then show ?thesis by (auto simp: piece_bytes_def)
  qed
qed simp

text \<open>Without equal lengths the destination is still worked off, and the source as far as it goes.\<close>

definition batch_sound :: "nat \<Rightarrow> (nat \<times> nat) set \<Rightarrow> BufferSlice list \<times> BufferSlice list \<Rightarrow> bool" where
  "batch_sound bufsize bytes batch \<longleftrightarrow>
     packed 0 (fst batch) \<and> packed 0 (snd batch) \<and> total_size (snd batch) \<le> bufsize \<and>
     (\<forall>s \<in> set (snd batch). 0 < data_size s) \<and> set (piece_bytes (map slice_piece (snd batch))) \<subseteq> bytes"

lemma batch_sound_mono: "bytes \<subseteq> bytes' \<Longrightarrow> batch_sound bufsize bytes b \<Longrightarrow> batch_sound bufsize bytes' b"
  by (auto simp: batch_sound_def)

lemma H2D_run_total:
  assumes "batcher_ok src" "batcher_ok dst" "length (piece_bytes (todo dst)) < fuel"
  shows "\<exists>batches. H2D_run fuel src dst = Some batches \<and>
    (\<forall>batch \<in> set batches. batch_sound (tb_buffer_size dst) (set (piece_bytes (todo dst))) batch) \<and>
    (\<Sum>batch\<leftarrow>batches. total_size (snd batch)) = length (piece_bytes (todo dst)) \<and>
    (\<Sum>batch\<leftarrow>batches. total_size (fst batch)) \<le> length (piece_bytes (todo src))"
  using assms
proof (induction fuel arbitrary: src dst)
  case (Suc fuel)
  obtain dst' ds where D: "NextBatch dst UINT32_MAX = Ok (dst', ds)" "batch_done (todo dst) (tb_buffer_size dst) UINT32_MAX dst' ds"
    using NextBatch_done [OF Suc.prems(2)] by blast
  show ?case
  proof (cases "ds = []")
    case True
    with D(1) have "todo dst = []" using NextBatch_empty [OF Suc.prems(2), of UINT32_MAX dst'] by simp
    with True D(1) show ?thesis by (simp add: BufferStateIdle_UpdateState_def piece_bytes_def)
  next
    case False
    obtain src' ss where S: "NextBatch src (GetTransferInfoNum dst') = Ok (src', ss)"
        "batch_done (todo src) (tb_buffer_size src) (GetTransferInfoNum dst') src' ss"
      using NextBatch_done [OF Suc.prems(1)] by blast
    have bytes: "piece_bytes (todo dst) = piece_bytes (map slice_piece ds) @ piece_bytes (todo dst')"
        "piece_bytes (todo src) = piece_bytes (map slice_piece ss) @ piece_bytes (todo src')"
      using D(2) S(2) by (simp_all add: batch_done_def)
    have "0 < total_size ds" using False D(2) by (intro total_size_pos) (simp_all add: batch_done_def)
    then have fuel: "length (piece_bytes (todo dst')) < fuel" using Suc.prems(3) bytes(1) by (simp add: length_piece_bytes)
    have ok: "batcher_ok src'" "batcher_ok dst'" "tb_buffer_size dst' = tb_buffer_size dst" using D(2) S(2) by (simp_all add: batch_done_def)
    obtain batches where B: "H2D_run fuel src' dst' = Some batches"
        "\<forall>batch \<in> set batches. batch_sound (tb_buffer_size dst) (set (piece_bytes (todo dst'))) batch"
        "(\<Sum>batch\<leftarrow>batches. total_size (snd batch)) = length (piece_bytes (todo dst'))"
        "(\<Sum>batch\<leftarrow>batches. total_size (fst batch)) \<le> length (piece_bytes (todo src'))"
      using Suc.IH [OF ok(1,2) fuel] ok(3) by auto
    have "batch_sound (tb_buffer_size dst) (set (piece_bytes (todo dst))) (ss, ds)"
      using D(2) S(2) bytes(1) by (simp add: batch_sound_def batch_done_def)
    moreover have "batch_sound (tb_buffer_size dst) (set (piece_bytes (todo dst))) batch" if "batch \<in> set batches" for batch
      using B(2) that bytes(1) by (auto intro: batch_sound_mono)
    moreover have "H2D_run (Suc fuel) src dst = Some ((ss, ds) # batches)"
      using False D(1) S(1) B(1) by (simp add: BufferStateIdle_UpdateState_def)
    ultimately show ?thesis using B(3,4) bytes by (simp add: length_piece_bytes)
  qed
qed simp

section \<open>Source addresses\<close>

text \<open>The batchers that taking batches leads to.\<close>

inductive batches_from :: "TaskBatcher \<Rightarrow> TaskBatcher \<Rightarrow> bool" for tb where
  start: "batches_from tb tb"
| batch: "batches_from tb tb1 \<Longrightarrow> NextBatch tb1 n = Ok (tb2, slices) \<Longrightarrow> batches_from tb tb2"

lemma batches_from_ok:
  "batches_from tb tb' \<Longrightarrow> batcher_ok tb \<Longrightarrow> batcher_ok tb' \<and> set (piece_bytes (todo tb')) \<subseteq> set (piece_bytes (todo tb))"
proof (induction rule: batches_from.induct)
  case (batch tb1 n tb2 slices)
  then have "batch_done (todo tb1) (tb_buffer_size tb1) n tb2 slices" using NextBatch_done [of tb1 n] by auto
  with batch show ?case by (auto simp: batch_done_def)
qed simp

lemma slice_in_bytes:
  assumes "s \<in> set slices" "x < data_size s"
  shows "(data_index s, data_offset s + x) \<in> set (piece_bytes (map slice_piece slices))"
  using assms by (auto simp: piece_bytes_def slice_piece_def intro!: bexI [of _ s])

lemma batch_slice_bounds:
  assumes "batcher_ok tb" "batches_from tb tb'" "NextBatch tb' n = Ok (tb2, slices)" "s \<in> set slices"
    and bound: "\<And>i x. (i, x) \<in> set (piece_bytes (todo tb)) \<Longrightarrow> i < m \<and> x < region"
  shows "data_index s < m \<and> data_offset s + data_size s \<le> region"
proof -
  note ok = batches_from_ok [OF assms(2,1)]
  have d: "batch_done (todo tb') (tb_buffer_size tb') n tb2 slices" using NextBatch_done [of tb' n] ok assms(3) by auto
  then have sz: "0 < data_size s" using assms(4) by (simp add: batch_done_def)
  then have "(data_index s, data_offset s + (data_size s - 1)) \<in> set (piece_bytes (map slice_piece slices))"
    by (intro slice_in_bytes [OF assms(4)]) simp
  then have "(data_index s, data_offset s + (data_size s - 1)) \<in> set (piece_bytes (todo tb))"
    using d ok by (auto simp: batch_done_def)
  from bound [OF this] have "data_index s < m" "data_offset s + (data_size s - 1) < region" by blast+
  with sz show ?thesis by arith
qed

text \<open>The blocks a request names: for each tensor, all blocks of the list.\<close>

definition request_pieces :: "nat \<Rightarrow> nat \<Rightarrow> TransferInfo list \<Rightarrow> piece list" where
  "request_pieces n bsize infos =
     concat (map (\<lambda>i. map (\<lambda>info. (i, block_start_index info * bsize, buffer_len info)) infos) [0 ..< n])"

text \<open>The pieces of a new batcher.\<close>

lemma map_take_nth: "k \<le> length xs \<Longrightarrow> map (\<lambda>j. f (xs ! j)) [0 ..< k] = map f (take k xs)"
  by (rule nth_equalityI) simp_all

lemma todo_new_pieces:
  assumes "tb = TaskBatcher_Initialize n bsize k infos (new_TaskBatcher kH2DBufferSize)" "n < 2 ^ 32" "0 < k" "k < 2 ^ 32" "k \<le> length infos"
  shows "todo tb = request_pieces n bsize (take k infos)"
proof -
  have f: "current_tensor_index tb = 0" "current_transfer_info_index tb = 0" "tb_num_tensors tb = n" "num_transfer_infos tb = k"
      "remaining_data_len tb = 0" "tb_block_size tb = bsize" "tb_transfer_infos tb = infos"
    using assms(1,2,4) by (simp_all add: TaskBatcher_Initialize_def new_TaskBatcher_def u32_def)
  have "todo tb = concat (map (\<lambda>i. map (block_piece tb i) [0 ..< k]) [0 ..< n])"
    using assms(3) by (auto simp: todo_def head_piece_def later_pieces_def f upt_conv_Cons)
  moreover have "map (block_piece tb i) [0 ..< k] = map (\<lambda>info. (i, block_start_index info * bsize, buffer_len info)) (take k infos)" for i
    unfolding map_take_nth [OF assms(5), symmetric] by (simp add: block_piece_def f)
  ultimately show ?thesis by (simp add: request_pieces_def)
qed

lemma todo_new:
  assumes "tb = TaskBatcher_Initialize n bsize k infos (new_TaskBatcher kH2DBufferSize)" "n < 2 ^ 32" "0 < k" "k < 2 ^ 32" "k \<le> length infos"
    and "(i, x) \<in> set (piece_bytes (todo tb))"
  shows "i < n \<and> (\<exists>j < k. x < block_start_index (infos ! j) * bsize + buffer_len (infos ! j))"
  using assms(6) unfolding todo_new_pieces [OF assms(1-5)]
  by (fastforce simp: piece_bytes_def request_pieces_def in_set_conv_nth)

lemma new_batcher_ok:
  assumes "0 < k" "k < 2 ^ 32" "n < 2 ^ 32" "k \<le> length infos"
    and "\<And>j. j < k \<Longrightarrow> 0 < buffer_len (infos ! j) \<and> block_start_index (infos ! j) * bsize + buffer_len (infos ! j) < 2 ^ 64"
  shows "batcher_ok (TaskBatcher_Initialize n bsize k infos (new_TaskBatcher kH2DBufferSize))"
  using assms by (auto simp: batcher_ok_def TaskBatcher_Initialize_def new_TaskBatcher_def u32_def kH2DBufferSize_def)

lemma H2D_Initialize_D:
  assumes "H2D_Initialize entry request pool offset = Ok (src, dst, contexts)"
  defines "bsize \<equiv> H2D_block_size entry request"
  shows "src = TaskBatcher_Initialize (ResolveSrcNumTensors entry request) bsize (buffer_info_count request)
      (drop (dst_addr_count request) (transfer_infos request)) (new_TaskBatcher kH2DBufferSize)"
    and "dst = TaskBatcher_Initialize (ResolveSrcNumTensors entry request) bsize (buffer_info_count request)
      (drop (add32 (dst_addr_count request) (buffer_info_count request)) (transfer_infos request)) (new_TaskBatcher kH2DBufferSize)"
    and "InitBufferContexts entry request offset = Ok contexts"
  using assms(1) unfolding H2D_Initialize_def ResolveSrcNumTensors_def bsize_def by (auto simp: Let_def)

text \<open>The tensors of a context are those of the request, from the first one on.\<close>

lemma InitBufferContexts_D:
  assumes "InitBufferContexts entry request offset = Ok contexts" "context \<in> set contexts"
    and "ResolveSrcStartIndex request + ResolveSrcNumTensors entry request \<le> length (cache_addrs entry)"
  shows "ctx_offset context = offset" "length (ctx_data_addresses context) = ResolveSrcNumTensors entry request"
    "i < ResolveSrcNumTensors entry request \<Longrightarrow> ctx_data_addresses context ! i = cache_addrs entry ! (ResolveSrcStartIndex request + i)"
    "copy_futures context = []"
  using assms by (auto simp: InitBufferContexts_def H2D_data_addresses_def ResolveSrcStartIndex_def ResolveSrcNumTensors_def split: if_splits)

lemma CheckParam_tensors: "CheckParam entry request = Ok () \<Longrightarrow> cache_addrs entry \<noteq> []"
  by (auto simp: CheckParam_def Let_def split: if_splits)

text \<open>The source blocks of a prepared request lie in the local tensor for the block size of the job too.\<close>

lemma H2D_source_blocks:
  assumes "request_buffer request" "SendState_Prepare_checks cm request = Ok (entry, offset, key, kTransferTypeH2D)"
    and "j < buffer_info_count request"
  defines "info \<equiv> drop (dst_addr_count request) (transfer_infos request) ! j"
    and "bsize \<equiv> H2D_block_size entry request"
  shows "block_start_index info * bsize + buffer_len info \<le> (if num_blocks entry > 0 then tensor_size entry else stride entry)"
    and "0 < buffer_len info"
proof -
  note d = SendState_checks_D [OF assms(2,1)] and v = ValidateLocalIndexBounds_D [OF SendState_checks_D(7) [OF assms(2,1)]]
  have reads: "add32 (dst_addr_count request) j = dst_addr_count request + j" "dst_addr_count request + j < length (transfer_infos request)"
    using counts_ok_reads(1,2) [OF assms(1) d(5) multiplier_of_bounds(1) assms(3)] by simp_all
  have info: "info = transfer_infos request ! (dst_addr_count request + j)" using reads(2) by (simp add: info_def)
  have "block_start_index info * (if num_blocks entry > 0 then stride entry else pull_size request) + buffer_len info
      \<le> (if num_blocks entry > 0 then tensor_size entry else stride entry)"
    using ValidateBlockSpans_D [OF v(3) assms(1) d(5) multiplier_of_bounds(1) _ assms(3)]
    by (simp add: info transfer_type_defs)
  moreover have "bsize \<le> (if num_blocks entry > 0 then stride entry else pull_size request)"
    by (auto simp: bsize_def H2D_block_size_def u32_def intro: order_trans [OF mod_less_eq_dividend])
  then have "block_start_index info * bsize \<le> block_start_index info * (if num_blocks entry > 0 then stride entry else pull_size request)"
    by (rule mult_le_mono2)
  ultimately show "block_start_index info * bsize + buffer_len info \<le> (if num_blocks entry > 0 then tensor_size entry else stride entry)"
    by linarith
  have "buffer_info_count request \<noteq> 0" "j \<in> set [0 ..< buffer_info_count request]" using assms(3) by simp_all
  with d(6) have "\<exists>src. transfer_info request (add32 (dst_addr_count request) j) = Ok src \<and> buffer_len src > 0"
    unfolding ValidateBufferInfoLens_def by (simp add: for_each_Ok del: set_upt split del: if_split) blast
  then show "0 < buffer_len info" using reads by (simp add: transfer_info_def info)
qed

lemma H2D_source_batcher:
  assumes "request_buffer request" "SendState_Prepare_checks cm request = Ok (entry, offset, key, kTransferTypeH2D)"
    and "H2D_Initialize entry request pool offset = Ok (src, dst, contexts)" "0 < buffer_info_count request"
    and "tensor_size entry < 2 ^ 64" "stride entry < 2 ^ 64"
  shows "batcher_ok src" "ResolveSrcNumTensors entry request < 2 ^ 32"
    "dst_addr_count request + buffer_info_count request * 2 \<le> length (transfer_infos request)"
    "add32 (dst_addr_count request) (buffer_info_count request) = dst_addr_count request + buffer_info_count request"
proof -
  let ?k = "buffer_info_count request" and ?infos = "drop (dst_addr_count request) (transfer_infos request)"
    and ?region = "if num_blocks entry > 0 then tensor_size entry else stride entry"
  note d = SendState_checks_D [OF assms(2,1)] and v = ValidateLocalIndexBounds_D [OF SendState_checks_D(7) [OF assms(2,1)]]
  note blocks = H2D_source_blocks [OF assms(1,2)]
  show n: "ResolveSrcNumTensors entry request < 2 ^ 32" using v(2) assms(1) by (auto simp: request_buffer_def)
  have k: "?k < 2 ^ 32" using assms(1) by (simp add: request_buffer_def)
  show room: "dst_addr_count request + ?k * 2 \<le> length (transfer_infos request)" using d(5) assms(1)
    by (simp add: counts_ok_def request_buffer_def multiplier_of_def transfer_type_defs)
  show "add32 (dst_addr_count request) ?k = dst_addr_count request + ?k" using d(5)
    by (simp add: counts_ok_def limit_values add32_def multiplier_of_def transfer_type_defs)
  have "?region < 2 ^ 64" using assms(5,6) by simp
  then have "block_start_index (?infos ! j) * H2D_block_size entry request + buffer_len (?infos ! j) < 2 ^ 64" if "j < ?k" for j
    by (rule le_less_trans [OF blocks(1) [OF that]])
  then show "batcher_ok src" unfolding H2D_Initialize_D(1) [OF assms(3)]
    using blocks(2) room by (intro new_batcher_ok [OF assms(4) k n]) simp_all
qed

lemma packed_bound:
  "packed pos slices \<Longrightarrow> s \<in> set slices \<Longrightarrow> pos \<le> buffer_offset s \<and> buffer_offset s + data_size s \<le> pos + total_size slices"
  by (induction slices arbitrary: pos) fastforce+

text \<open>Every batch lies in the buffer.\<close>

lemma batch_slice_buffer:
  assumes "batcher_ok tb" "batches_from tb tb'" "NextBatch tb' n = Ok (tb2, slices)" "s \<in> set slices"
  shows "buffer_offset s + data_size s \<le> tb_buffer_size tb"
proof -
  have size: "tb_buffer_size tb' = tb_buffer_size tb"
    using assms(2,1)
  proof (induction rule: batches_from.induct)
    case (batch tb1 n tb2 slices)
    with batches_from_ok [OF batch(1,4)] NextBatch_done [of tb1 n] show ?case by (auto simp: batch_done_def)
  qed simp
  have "batch_done (todo tb') (tb_buffer_size tb') n tb2 slices"
    using NextBatch_done [of tb' n] batches_from_ok [OF assms(2,1)] assms(3) by auto
  with packed_bound [of 0 slices s] assms(4) size show ?thesis by (simp add: batch_done_def)
qed

text \<open>Where the slices of a checked request lie.\<close>

lemma H2D_slice_bounds:
  assumes "request_buffer request" "SendState_Prepare_checks cm request = Ok (entry, offset, key, kTransferTypeH2D)"
    and "H2D_Initialize entry request pool offset = Ok (src, dst, contexts)" "0 < buffer_info_count request"
    and "tensor_size entry < 2 ^ 64" "stride entry < 2 ^ 64"
    and "batches_from src src1" "NextBatch src1 n = Ok (src2, slices)" "s \<in> set slices"
  shows "data_index s < ResolveSrcNumTensors entry request"
    and "data_offset s + data_size s \<le> (if num_blocks entry > 0 then tensor_size entry else stride entry)"
    and "buffer_offset s + data_size s \<le> kH2DBufferSize"
proof -
  let ?nt = "ResolveSrcNumTensors entry request" and ?k = "buffer_info_count request"
    and ?infos = "drop (dst_addr_count request) (transfer_infos request)"
    and ?region = "if num_blocks entry > 0 then tensor_size entry else stride entry"
  note ok = H2D_source_batcher [OF assms(1-6)]
  have k: "?k < 2 ^ 32" using assms(1) by (simp add: request_buffer_def)
  have len: "?k \<le> length ?infos" using ok(3) by simp
  have "i < ?nt \<and> x < ?region" if byte: "(i, x) \<in> set (piece_bytes (todo src))" for i x
  proof -
    obtain j where "i < ?nt" "j < ?k" "x < block_start_index (?infos ! j) * H2D_block_size entry request + buffer_len (?infos ! j)"
      using todo_new [OF H2D_Initialize_D(1) [OF assms(3)] ok(2) assms(4) k len byte] by blast
    with H2D_source_blocks(1) [OF assms(1,2), of j] show ?thesis by linarith
  qed
  from batch_slice_bounds [OF ok(1) assms(7-9) this]
  show "data_index s < ?nt" "data_offset s + data_size s \<le> ?region" by blast+
  have "tb_buffer_size src = kH2DBufferSize" unfolding H2D_Initialize_D(1) [OF assms(3)]
    by (simp add: TaskBatcher_Initialize_def new_TaskBatcher_def u32_def kH2DBufferSize_def)
  with batch_slice_buffer [OF ok(1) assms(7-9)] show "buffer_offset s + data_size s \<le> kH2DBufferSize" by simp
qed

text \<open>The copy of a slice, when no address wraps around.\<close>

lemma CopyAsync_eq:
  assumes "i < length (buffer_slices context)" "s = buffer_slices context ! i" "data_index s < length (ctx_data_addresses context)"
    and "a = ctx_data_addresses context ! data_index s" "a + data_offset s + ctx_offset context < 2 ^ 64"
    and "ctx_buffer context + buffer_offset s < 2 ^ 64"
  defines "cop \<equiv> \<lparr>copy_dst = ctx_buffer context + buffer_offset s, copy_src = a + data_offset s + ctx_offset context, copy_size = data_size s\<rparr>"
  shows "CopyAsync c r memcpy context i =
    (if r \<noteq> ACL_ERROR_NONE then Err (ConvertAclError2Ge c r)
     else if memcpy cop \<noteq> ACL_ERROR_NONE then Err (ConvertAclError2Ge c (memcpy cop)) else Ok cop)"
proof -
  have "add64 (add64 a (data_offset s)) (ctx_offset context) = a + data_offset s + ctx_offset context"
    "add64 (ctx_buffer context) (buffer_offset s) = ctx_buffer context + buffer_offset s"
    using assms(5,6) by (simp_all add: add64_def)
  with assms(1-4) show ?thesis by (simp add: CopyAsync_def Let_def cop_def)
qed


text \<open>The first byte of a batch is the first one that is left.\<close>

lemma first_slice:
  assumes "batcher_ok tb" "todo tb = (i, toffset, len) # ps" "0 < n"
  obtains tb' s ss where "NextBatch tb n = Ok (tb', s # ss)" "data_index s = i" "data_offset s = toffset" "0 < data_size s"
proof -
  obtain tb' slices where d: "NextBatch tb n = Ok (tb', slices)" "batch_done (todo tb) (tb_buffer_size tb) n tb' slices"
    using NextBatch_done [OF assms(1)] by blast
  have "slices \<noteq> []" using NextBatch_empty [OF assms(1) _ assms(3)] d(1) assms(2) by fastforce
  then obtain s ss where s: "slices = s # ss" by (cases slices) auto
  have sz: "0 < data_size s" using d(2) s by (simp add: batch_done_def)
  have "head_piece tb = (i, toffset, len)" using assms(2) by (simp add: todo_def split: if_splits)
  then have "0 < len" by (rule GetOffsetAndLength_head(3) [OF assms(1)])
  then have "hd (piece_bytes (todo tb)) = (i, toffset)" using assms(2) by (simp add: piece_bytes_def upt_conv_Cons)
  moreover have "hd (piece_bytes (todo tb)) = (data_index s, data_offset s)"
    using d(2) sz s by (simp add: batch_done_def piece_bytes_def slice_piece_def upt_conv_Cons)
  ultimately show thesis using that d(1) s sz by simp
qed


section \<open>The transfer of a request\<close>

definition H2D_src_blocks :: "TransferCacheReq \<Rightarrow> TransferInfo list" where
  "H2D_src_blocks request = take (buffer_info_count request) (drop (dst_addr_count request) (transfer_infos request))"

definition H2D_dst_blocks :: "TransferCacheReq \<Rightarrow> TransferInfo list" where
  "H2D_dst_blocks request =
     take (buffer_info_count request) (drop (dst_addr_count request + buffer_info_count request) (transfer_infos request))"

text \<open>C18: A host-to-device transfer completes. For a prepared request whose source and destination blocks
  have the same lengths, taking batches reaches the end state after at most as many batches as the
  request has bytes; in each batch the slices copied in and the slices put out fill the same part of the
  device buffer without gaps; and the batches together copy every byte of the source blocks of every
  tensor, counted from the offset of the job, in order and put every byte of the destination blocks in the same order, so that each byte
  goes where it belongs.\<close>

theorem H2D_transfer_complete:
  assumes "request_buffer request" "SendState_Prepare_checks cm request = Ok (entry, offset, key, kTransferTypeH2D)"
    and "H2D_Initialize entry request pool offset = Ok (src, dst, contexts)" "0 < buffer_info_count request"
    and "tensor_size entry < 2 ^ 64" "stride entry < 2 ^ 64"
    and "map buffer_len (H2D_src_blocks request) = map buffer_len (H2D_dst_blocks request)"
    and "\<forall>info \<in> set (H2D_dst_blocks request). block_start_index info * H2D_block_size entry request + buffer_len info < 2 ^ 64"
  defines "from \<equiv> request_pieces (ResolveSrcNumTensors entry request) (H2D_block_size entry request) (H2D_src_blocks request)"
    and "to \<equiv> request_pieces (ResolveSrcNumTensors entry request) (H2D_block_size entry request) (H2D_dst_blocks request)"
  shows "\<exists>batches. H2D_run (length (piece_bytes to) + 1) src dst = Some batches \<and>
    (\<forall>(slices, dst_slices) \<in> set batches. matching kH2DBufferSize slices dst_slices) \<and>
    concat (map (\<lambda>(slices, dst_slices). piece_bytes (map slice_piece slices)) batches) = piece_bytes from \<and>
    concat (map (\<lambda>(slices, dst_slices). piece_bytes (map slice_piece dst_slices)) batches) = piece_bytes to"
proof -
  let ?k = "buffer_info_count request" and ?d = "dst_addr_count request" and ?t = "transfer_infos request"
  note ok = H2D_source_batcher [OF assms(1-6)] and src = H2D_Initialize_D(1) [OF assms(3)]
    and dst = H2D_Initialize_D(2) [OF assms(3), unfolded H2D_source_batcher(4) [OF assms(1-6)]]
  have k: "?k < 2 ^ 32" using assms(1) by (simp add: request_buffer_def)
  have len: "?k \<le> length (drop ?d ?t)" "?k \<le> length (drop (?d + ?k) ?t)" using ok(3) by simp_all
  have same: "buffer_len (drop ?d ?t ! j) = buffer_len (drop (?d + ?k) ?t ! j)" if "j < ?k" for j
    using arg_cong [OF assms(7), of "\<lambda>xs. xs ! j"] that len by (simp add: H2D_src_blocks_def H2D_dst_blocks_def)
  have fits: "block_start_index (drop (?d + ?k) ?t ! j) * H2D_block_size entry request + buffer_len (drop (?d + ?k) ?t ! j) < 2 ^ 64"
    if "j < ?k" for j
  proof -
    have "H2D_dst_blocks request ! j \<in> set (H2D_dst_blocks request)" using that len by (intro nth_mem) (simp add: H2D_dst_blocks_def)
    with assms(8) have "block_start_index (H2D_dst_blocks request ! j) * H2D_block_size entry request + buffer_len (H2D_dst_blocks request ! j) < 2 ^ 64"
      by blast
    with that len show ?thesis by (simp add: H2D_dst_blocks_def)
  qed
  have "batcher_ok dst" unfolding dst
    using fits same H2D_source_blocks(2) [OF assms(1,2)] by (intro new_batcher_ok [OF assms(4) k ok(2) len(2)]) fastforce
  moreover have "in_step src dst" unfolding src dst using same k
    by (simp add: in_step_def TaskBatcher_Initialize_def new_TaskBatcher_def u32_def)
  moreover have "todo src = from" "todo dst = to"
    using todo_new_pieces [OF src ok(2) assms(4) k len(1)] todo_new_pieces [OF dst ok(2) assms(4) k len(2)]
    by (simp_all add: from_def to_def H2D_src_blocks_def H2D_dst_blocks_def)
  moreover have "tb_buffer_size dst = kH2DBufferSize"
    unfolding dst by (simp add: TaskBatcher_Initialize_def new_TaskBatcher_def u32_def kH2DBufferSize_def)
  ultimately show ?thesis using H2D_run_complete [of src dst "length (piece_bytes to) + 1"] ok(1) by simp
qed



section \<open>Different lengths\<close>

text \<open>Of two packings the shorter one does not reach the last byte of the longer one.\<close>

lemma packed_covers:
  "packed pos slices \<Longrightarrow> pos \<le> x \<Longrightarrow> x < pos + total_size slices \<Longrightarrow>
   \<exists>s \<in> set slices. buffer_offset s \<le> x \<and> x < buffer_offset s + data_size s"
proof (induction slices arbitrary: pos)
  case (Cons s ss)
  show ?case
  proof (cases "x < pos + data_size s")
    case True
    with Cons.prems show ?thesis by auto
  next
    case False
    with Cons.IH [of "pos + data_size s"] Cons.prems show ?thesis by (auto simp: add.assoc)
  qed
qed simp

text \<open>A batch whose destination is longer puts a byte of the buffer that it did not copy.\<close>

lemma stale_byte:
  assumes "packed 0 (buffer_slices context)" "packed 0 (dst_buffer_slices context)"
    and "total_size (buffer_slices context) < total_size (dst_buffer_slices context)"
    and "ctx_buffer context + total_size (dst_buffer_slices context) < 2 ^ 64"
    and "\<forall>s \<in> set (dst_buffer_slices context). data_index s < length (transfer_infos request)"
  shows "\<exists>ops op address. H2D_BatchPutAsync (\<lambda>ops. SUCCESS) request context = Ok ops \<and> op \<in> set ops \<and>
    localAddr op \<le> address \<and> address < localAddr op + hcount op \<and>
    (\<forall>i cop. CopyAsync c r memcpy context i = Ok cop \<longrightarrow> \<not> (copy_dst cop \<le> address \<and> address < copy_dst cop + copy_size cop))"
proof -
  let ?x = "total_size (buffer_slices context)" and ?b = "ctx_buffer context"
  let ?op = "\<lambda>task. \<lparr>localAddr = add64 ?b (buffer_offset task),
    remoteAddr = add64 (dst_addr (transfer_infos request ! data_index task)) (data_offset task), hcount = data_size task\<rparr>"
  obtain s where s: "s \<in> set (dst_buffer_slices context)" "buffer_offset s \<le> ?x" "?x < buffer_offset s + data_size s"
    using packed_covers [OF assms(2), of ?x] assms(3) by auto
  have "collect (\<lambda>task. obind (transfer_info request (data_index task)) (\<lambda>info.
        Ok \<lparr>localAddr = add64 ?b (buffer_offset task), remoteAddr = add64 (dst_addr info) (data_offset task),
            hcount = data_size task\<rparr>)) (dst_buffer_slices context) = Ok (map ?op (dst_buffer_slices context))"
    using assms(5) by (auto simp: collect_Ok list_all2_conv_all_nth transfer_info_def prod_eq_iff)
  then have put: "H2D_BatchPutAsync (\<lambda>ops. SUCCESS) request context = Ok (map ?op (dst_buffer_slices context))"
    by (simp add: H2D_BatchPutAsync_def Let_def del: obind_Ok)
  have "buffer_offset s + data_size s \<le> total_size (dst_buffer_slices context)" using packed_bound [OF assms(2) s(1)] by simp
  then have "add64 ?b (buffer_offset s) = ?b + buffer_offset s" using assms(4) by (simp add: add64_def)
  with s have op: "localAddr (?op s) \<le> ?b + ?x" "?b + ?x < localAddr (?op s) + hcount (?op s)" by simp_all
  have "\<not> (copy_dst cop \<le> ?b + ?x \<and> ?b + ?x < copy_dst cop + copy_size cop)" if "CopyAsync c r memcpy context i = Ok cop" for i cop
  proof -
    have i: "i < length (buffer_slices context)" and
      cop: "copy_dst cop = add64 ?b (buffer_offset (buffer_slices context ! i))" "copy_size cop = data_size (buffer_slices context ! i)"
      using that by (auto simp: CopyAsync_def Let_def split: if_splits)
    have "buffer_offset (buffer_slices context ! i) + data_size (buffer_slices context ! i) \<le> ?x"
      using packed_bound [OF assms(1) nth_mem [OF i]] by simp
    moreover from this have "add64 ?b (buffer_offset (buffer_slices context ! i)) = ?b + buffer_offset (buffer_slices context ! i)"
      using assms(3,4) by (simp add: add64_def)
    ultimately show ?thesis using cop by simp
  qed
  with put op s(1) show ?thesis by (intro exI [of _ "map ?op (dst_buffer_slices context)"] exI [of _ "?op s"] exI [of _ "?b + ?x"]) simp
qed

lemma length_request_pieces:
  "length (piece_bytes (request_pieces n bsize infos)) = n * sum_list (map buffer_len infos)"
proof -
  have "length (piece_bytes (map (\<lambda>info. (i, block_start_index info * bsize, buffer_len info)) infos)) = sum_list (map buffer_len infos)" for i
    by (induction infos) (simp_all add: piece_bytes_def)
  then show ?thesis unfolding request_pieces_def
    by (induction n) (simp_all add: piece_bytes_def)
qed

lemma H2D_destination_lengths:
  assumes "request_buffer request" "SendState_Prepare_checks cm request = Ok (entry, offset, key, kTransferTypeH2D)"
    and "j < buffer_info_count request"
  shows "0 < buffer_len (transfer_infos request ! (dst_addr_count request + buffer_info_count request + j))"
proof -
  note d = SendState_checks_D [OF assms(2,1)]
  have m: "multiplier_of kTransferTypeH2D = 2" by (simp add: multiplier_of_def transfer_type_defs)
  note reads = counts_ok_reads [OF assms(1) d(5) multiplier_of_bounds(1) assms(3)]
  have "buffer_info_count request \<noteq> 0" "j \<in> set [0 ..< buffer_info_count request]" using assms(3) by simp_all
  with d(6) have "\<exists>info. transfer_info request (add32 (add32 (dst_addr_count request) (buffer_info_count request)) j) = Ok info \<and> buffer_len info > 0"
    unfolding ValidateBufferInfoLens_def m kBufferInfoMultiplierD2h_def by (simp add: for_each_Ok del: set_upt) blast
  then show ?thesis using reads(3,4) [OF m] by (auto simp: transfer_info_def)
qed

lemma H2D_destination_batcher:
  assumes "request_buffer request" "SendState_Prepare_checks cm request = Ok (entry, offset, key, kTransferTypeH2D)"
    and "H2D_Initialize entry request pool offset = Ok (src, dst, contexts)" "0 < buffer_info_count request"
    and "tensor_size entry < 2 ^ 64" "stride entry < 2 ^ 64"
    and "\<forall>info \<in> set (H2D_dst_blocks request). block_start_index info * H2D_block_size entry request + buffer_len info < 2 ^ 64"
  shows "batcher_ok dst" "todo dst = request_pieces (ResolveSrcNumTensors entry request) (H2D_block_size entry request) (H2D_dst_blocks request)"
    "todo src = request_pieces (ResolveSrcNumTensors entry request) (H2D_block_size entry request) (H2D_src_blocks request)"
    "tb_buffer_size dst = kH2DBufferSize"
proof -
  let ?n = "ResolveSrcNumTensors entry request" and ?k = "buffer_info_count request" and ?d = "dst_addr_count request" and ?t = "transfer_infos request"
  note ok = H2D_source_batcher [OF assms(1-6)] and src = H2D_Initialize_D(1) [OF assms(3)]
    and dst = H2D_Initialize_D(2) [OF assms(3), unfolded H2D_source_batcher(4) [OF assms(1-6)]]
  note d = SendState_checks_D [OF assms(2,1)]
  have k: "?k < 2 ^ 32" using assms(1) by (simp add: request_buffer_def)
  have len: "?k \<le> length (drop ?d ?t)" "?k \<le> length (drop (?d + ?k) ?t)" using ok(3) by simp_all
  have "0 < buffer_len (drop (?d + ?k) ?t ! j) \<and>
      block_start_index (drop (?d + ?k) ?t ! j) * H2D_block_size entry request + buffer_len (drop (?d + ?k) ?t ! j) < 2 ^ 64" if j: "j < ?k" for j
  proof -
    have "H2D_dst_blocks request ! j \<in> set (H2D_dst_blocks request)" using j len by (intro nth_mem) (simp add: H2D_dst_blocks_def)
    moreover have "H2D_dst_blocks request ! j = drop (?d + ?k) ?t ! j" using j len by (simp add: H2D_dst_blocks_def)
    moreover have "0 < buffer_len (?t ! (?d + ?k + j))" by (rule H2D_destination_lengths [OF assms(1,2) j])
    ultimately show ?thesis using assms(7) j len by simp
  qed
  then show "batcher_ok dst" unfolding dst by (intro new_batcher_ok [OF assms(4) k ok(2) len(2)])
  show "todo dst = request_pieces ?n (H2D_block_size entry request) (H2D_dst_blocks request)"
    "todo src = request_pieces ?n (H2D_block_size entry request) (H2D_src_blocks request)"
    using todo_new_pieces [OF src ok(2) assms(4) k len(1)] todo_new_pieces [OF dst ok(2) assms(4) k len(2)]
    by (simp_all add: H2D_src_blocks_def H2D_dst_blocks_def)
  show "tb_buffer_size dst = kH2DBufferSize"
    unfolding dst by (simp add: TaskBatcher_Initialize_def new_TaskBatcher_def u32_def kH2DBufferSize_def)
qed


section \<open>A request on a host cache\<close>

definition host_entry :: CacheEntry where
  "host_entry = demo_entry\<lparr>placement := CachePlacement_HOST\<rparr>"

definition host_manager :: CacheManager where
  "host_manager = demo_manager\<lparr>cache_id_to_entry := [5 \<mapsto> host_entry]\<rparr>"

text \<open>The peer pulls \<open>len\<close> bytes of each of the two tensors into 64 bytes of its own.\<close>

definition h2d_request :: "nat \<Rightarrow> TransferCacheReq" where
  "h2d_request len = (demo_request CachePlacement_DEVICE)\<lparr>transfer_infos :=
     [(65536, 0), (131072, 0), (0, len), (0, 64)] @ replicate (kMaxTransferInfoCount - 4) (0, 0)\<rparr>"

lemmas host_defs = host_entry_def host_manager_def h2d_request_def demo_defs

lemma h2d_request_buffer: "len < 2 ^ 64 \<Longrightarrow> request_buffer (h2d_request len)"
  using demo_request_buffer [of CachePlacement_DEVICE]
  by (auto simp: request_buffer_def h2d_request_def demo_request_def)

lemma h2d_transfer_info:
  "transfer_info (h2d_request len) 2 = Ok (0, len)" "transfer_info (h2d_request len) 3 = Ok (0, 64)"
  by (simp_all add: transfer_info_def h2d_request_def limit_values nth_append)

lemma h2d_fields:
  "buffer_info_count (h2d_request len) = 1" "dst_addr_count (h2d_request len) = 2" "src_tensor_indices_size (h2d_request len) = 0"
  "pull_size (h2d_request len) = 64" "num_blocks host_entry = 0" "stride host_entry = 64" "cache_addrs host_entry = [4096, 8192]"
  "add32 2 0 = 2" "add32 2 1 = 3" "add32 3 0 = 3"
  by (simp_all add: host_defs add32_def)

lemma h2d_prepare:
  assumes "0 < len" "len \<le> 64"
  shows "SendState_Prepare_checks (Some host_manager) (h2d_request len) = Ok (host_entry, 64, (7, 0), kTransferTypeH2D)"
proof -
  let ?r = "h2d_request len"
  have "QueryCacheEntryAndOffset (Some host_manager) ?r = Ok (host_entry, 64, (7, 0))"
    by (simp add: QueryCacheEntryAndOffset_def SendState_GetCacheKey_def GetCacheEntry_by_key_def DoGetCacheEntry_def
        host_defs mul64_def Let_def)
  moreover have "ResolveTransferType ?r host_entry = kTransferTypeH2D"
    by (simp add: ResolveTransferType_def host_defs CachePlacement_DEVICE_def CachePlacement_HOST_def)
  moreover have "CheckParam host_entry ?r = Ok ()"
    by (simp add: CheckParam_def host_defs chk_def)
  moreover have "ValidateTransferRequest ?r kTransferTypeH2D = Ok ()"
  proof -
    have "counts_ok ?r (multiplier_of kTransferTypeH2D)"
      by (simp add: counts_ok_def h2d_request_def demo_request_def limit_values multiplier_of_def transfer_type_defs)
    moreover have "ValidateBufferInfoLens ?r m = Ok ()" for m
      using assms by (simp add: ValidateBufferInfoLens_def for_each_Ok h2d_transfer_info h2d_fields del: One_nat_def)
    ultimately show ?thesis using h2d_request_buffer assms by (simp add: ValidateTransferRequest_unfold)
  qed
  moreover have "ValidateLocalIndexBounds host_entry ?r kTransferTypeH2D = Ok ()"
    using assms by (auto simp: ValidateLocalIndexBounds_def ValidateSrcTensorRange_def CheckSrcTensorRange_def
        CheckTensorCountWithinDstAddr_def ResolveSrcStartIndex_def ResolveSrcNumTensors_def ValidateBlockSpans_def
        CheckBlockSpanWithinRegion_def for_each_Ok h2d_transfer_info h2d_fields Let_def transfer_type_defs chk_def)
  ultimately show ?thesis by (simp add: SendState_Prepare_checks_def Let_def transfer_type_defs)
qed


text \<open>The batches of this request: a batcher over one block of \<open>len\<close> bytes of two tensors.\<close>

definition demo_batcher :: "TransferInfo list \<Rightarrow> TaskBatcher" where
  "demo_batcher infos = TaskBatcher_Initialize 2 64 1 infos (new_TaskBatcher kH2DBufferSize)"

definition demo_slices :: "nat \<Rightarrow> BufferSlice list" where
  "demo_slices len = [\<lparr>buffer_offset = 0, data_index = 0, data_offset = 0, data_size = len\<rparr>,
                      \<lparr>buffer_offset = len, data_index = 1, data_offset = 0, data_size = len\<rparr>]"

lemma demo_batch:
  assumes "0 < len" "len \<le> 64" "2 \<le> n" "n \<le> UINT32_MAX"
  shows "\<exists>tb. NextBatch (demo_batcher ((0, len) # infos)) n = Ok (tb, demo_slices len) \<and> GetTransferInfoNum tb = 2"
proof -
  have u: "u32 len = len" "mul64 0 64 = 0" "add32 0 len = len" "add32 1 1 = 2" "add32 0 1 = 1" "add64 0 len = len"
    using assms(2) by (simp_all add: u32_def mul64_def add32_def add64_def)
  have s: "sub32 33554432 len = 33554432 - len" "sub32 (33554432 - len) len = 33554432 - 2 * len" using assms(2) by (simp_all add: sub32_id)
  have m: "min (33554432::nat) 4194304 = 4194304" "min (33554432 - len) (4194304::nat) = 4194304" using assms(2) by simp_all
  show ?thesis
    using assms u s m
    by (simp add: NextBatch_def NextBatch_loop.simps AppendNextSlice_def batch_full_def GetOffsetAndLength_def UpdateIndices_def
        GetTransferInfoNum_def demo_batcher_def TaskBatcher_Initialize_def new_TaskBatcher_def demo_slices_def
        kH2DBufferSize_def kBatchMaxBlockSize_def kMaxTaskNumInBatch_def Let_def  u32_def
        del: One_nat_def)
qed

definition demo_contexts :: "nat \<Rightarrow> BufferContext list" where
  "demo_contexts offset = map (\<lambda>i. \<lparr>buffer_index = i, ctx_state = IDLE, ctx_offset = offset, ctx_buffer = 0,
     ctx_data_addresses = [4096, 8192], buffer_slices = [], dst_buffer_slices = [], copy_futures = []\<rparr>) [0, 1]"

lemma h2d_batchers:
  "H2D_Initialize host_entry (h2d_request len) True 64
    = Ok (demo_batcher ((0, len) # (0, 64) # replicate (kMaxTransferInfoCount - 4) (0, 0)),
          demo_batcher ((0, 64) # replicate (kMaxTransferInfoCount - 4) (0, 0)), demo_contexts 64)"
proof -
  have "drop 2 (transfer_infos (h2d_request len)) = (0, len) # (0, 64) # replicate (kMaxTransferInfoCount - 4) (0, 0)"
    "drop 3 (transfer_infos (h2d_request len)) = (0, 64) # replicate (kMaxTransferInfoCount - 4) (0, 0)"
    by (simp_all add: h2d_request_def)
  moreover have "H2D_block_size host_entry (h2d_request len) = 64"
    by (simp add: H2D_block_size_def h2d_fields kDefaultBlockSize_def u32_def)
  moreover have "block_size (h2d_request len) = 0" by (simp add: h2d_request_def demo_request_def)
  moreover have "length [4096, 8192::nat] = 2" by simp
  moreover have "InitBufferContexts host_entry (h2d_request len) 64 = Ok (demo_contexts 64)"
    by (simp add: InitBufferContexts_def H2D_data_addresses_def h2d_fields demo_contexts_def kDefaultBufferNum_def upt_rec)
  ultimately show ?thesis
    by (simp add: H2D_Initialize_def h2d_fields demo_batcher_def chk_def Let_def del: obind_Ok One_nat_def list.size)
qed

lemma host_entry_ok: "batches_in_tensor host_entry" "stride host_entry < 2 ^ 64" "tensor_size host_entry < 2 ^ 64" "cache_in_memory host_entry"
  by (simp_all add: batches_in_tensor_def cache_in_memory_def host_entry_def demo_entry_def)


theorem H2D_transfer_complete_witness:
  "\<exists>src dst batches. H2D_Initialize host_entry (h2d_request 64) True 64 = Ok (src, dst, demo_contexts 64) \<and>
     H2D_run (length (piece_bytes (request_pieces 2 64 [(0, 64)])) + 1) src dst = Some batches \<and>
     concat (map (\<lambda>(slices, dst_slices). piece_bytes (map slice_piece dst_slices)) batches)
       = piece_bytes (request_pieces 2 64 [(0, 64)])"
proof -
  have b: "H2D_block_size host_entry (h2d_request 64) = 64" by (simp add: H2D_block_size_def h2d_fields kDefaultBlockSize_def u32_def)
  have s: "H2D_src_blocks (h2d_request 64) = [(0, 64)]" "H2D_dst_blocks (h2d_request 64) = [(0, 64)]"
    by (simp_all add: H2D_src_blocks_def H2D_dst_blocks_def h2d_request_def demo_request_def)
  have n: "ResolveSrcNumTensors host_entry (h2d_request 64) = 2" by (simp add: ResolveSrcNumTensors_def h2d_fields)
  have e: "tensor_size host_entry < 2 ^ 64" "stride host_entry < 2 ^ 64" by (simp_all add: host_entry_def demo_entry_def)
  have "\<exists>batches. H2D_run (length (piece_bytes (request_pieces 2 64 [(0, 64)])) + 1)
      (demo_batcher ((0, 64) # (0, 64) # replicate (kMaxTransferInfoCount - 4) (0, 0)))
      (demo_batcher ((0, 64) # replicate (kMaxTransferInfoCount - 4) (0, 0))) = Some batches \<and>
     concat (map (\<lambda>(slices, dst_slices). piece_bytes (map slice_piece dst_slices)) batches)
       = piece_bytes (request_pieces 2 64 [(0, 64)])"
    using H2D_transfer_complete [where request = "h2d_request 64", OF h2d_request_buffer h2d_prepare h2d_batchers _ e, unfolded b s n h2d_fields]
    by (simp only: order_refl zero_less_one list.map list.set ball_simps HOL.simp_thms fst_conv snd_conv) auto
  with h2d_batchers [of 64] show ?thesis by auto
qed


section \<open>A request on a block cache\<close>

text \<open>A cache of two tensors with two blocks of 64 bytes, which count as batches too, and a peer that pulls
  the second block with the second batch as offset.\<close>

definition block_entry :: CacheEntry where
  "block_entry = host_entry\<lparr>num_blocks := 2, id_to_batch_index_and_size := [], cache_mem_type := MIX\<rparr>"

definition block_manager :: CacheManager where
  "block_manager = (CacheManager_init False)\<lparr>cache_id_to_entry := [5 \<mapsto> block_entry]\<rparr>"

definition block_request :: TransferCacheReq where
  "block_request = (demo_request CachePlacement_DEVICE)\<lparr>is_pull_block := 2, cache_id := 5, batch_index := 1, block_size := 64,
     transfer_infos := [(65536, 0), (131072, 0), (1, 64), (0, 64)] @ replicate (kMaxTransferInfoCount - 4) (0, 0)\<rparr>"

lemmas block_defs = block_entry_def block_manager_def block_request_def host_defs

lemma block_request_buffer: "request_buffer block_request"
  using demo_request_buffer [of CachePlacement_DEVICE]
  by (auto simp: request_buffer_def block_request_def demo_request_def)

lemma block_transfer_info:
  "transfer_info block_request 2 = Ok (1, 64)" "transfer_info block_request 3 = Ok (0, 64)"
  by (simp_all add: transfer_info_def block_request_def limit_values nth_append)

lemma block_fields:
  "buffer_info_count block_request = 1" "dst_addr_count block_request = 2" "src_tensor_indices_size block_request = 0"
  "pull_size block_request = 64" "num_blocks block_entry = 2" "stride block_entry = 64" "cache_addrs block_entry = [4096, 8192]"
  "tensor_size block_entry = 128" "batch_size block_entry = 2" "is_pull_block block_request = 2" "batch_index block_request = 1"
  "add32 2 0 = 2" "add32 2 1 = 3" "add32 3 0 = 3"
  by (simp_all add: block_defs add32_def)

lemma block_prepare:
  "SendState_Prepare_checks (Some block_manager) block_request = Ok (block_entry, 64, no_key, kTransferTypeH2D)"
proof -
  have "QueryCacheEntryAndOffset (Some block_manager) block_request = Ok (block_entry, 64, no_key)"
    by (simp add: QueryCacheEntryAndOffset_def SendState_GetCacheKey_def QueryCacheByCacheId_def GetCacheEntry_by_id_def
        GetCacheKey_def DoGetCacheEntry_def block_defs mul64_def Let_def)
  moreover have "ResolveTransferType block_request block_entry = kTransferTypeH2D"
    by (simp add: ResolveTransferType_def block_defs CachePlacement_DEVICE_def CachePlacement_HOST_def)
  moreover have "CheckParam block_entry block_request = Ok ()"
    by (simp add: CheckParam_def block_defs chk_def CachePlacement_DEVICE_def CachePlacement_HOST_def)
  moreover have "ValidateTransferRequest block_request kTransferTypeH2D = Ok ()"
  proof -
    have "counts_ok block_request (multiplier_of kTransferTypeH2D)"
      by (simp add: counts_ok_def block_request_def demo_request_def limit_values multiplier_of_def transfer_type_defs)
    moreover have "ValidateBufferInfoLens block_request m = Ok ()" for m
      by (simp add: ValidateBufferInfoLens_def for_each_Ok block_transfer_info block_fields del: One_nat_def)
    ultimately show ?thesis using block_request_buffer by (simp add: ValidateTransferRequest_unfold)
  qed
  moreover have "ValidateLocalIndexBounds block_entry block_request kTransferTypeH2D = Ok ()"
    by (auto simp: ValidateLocalIndexBounds_def ValidateSrcTensorRange_def CheckSrcTensorRange_def
        CheckTensorCountWithinDstAddr_def ResolveSrcStartIndex_def ResolveSrcNumTensors_def ValidateBlockSpans_def
        CheckBlockSpanWithinRegion_def for_each_Ok block_transfer_info block_fields Let_def transfer_type_defs chk_def)
  ultimately show ?thesis by (simp add: SendState_Prepare_checks_def Let_def transfer_type_defs)
qed

definition block_batcher :: "TransferInfo list \<Rightarrow> TaskBatcher" where
  "block_batcher infos = TaskBatcher_Initialize 2 64 1 infos (new_TaskBatcher kH2DBufferSize)"

lemma block_batchers:
  "H2D_Initialize block_entry block_request True 64
    = Ok (block_batcher (drop 2 (transfer_infos block_request)), block_batcher (drop 3 (transfer_infos block_request)), demo_contexts 64)"
proof -
  have "H2D_block_size block_entry block_request = 64" by (simp add: H2D_block_size_def block_fields u32_def)
  moreover have "block_size block_request = 64" by (simp add: block_request_def)
  moreover have "InitBufferContexts block_entry block_request 64 = Ok (demo_contexts 64)"
    by (simp add: InitBufferContexts_def H2D_data_addresses_def block_fields demo_contexts_def kDefaultBufferNum_def upt_rec)
  ultimately show ?thesis
    by (simp add: H2D_Initialize_def block_fields block_batcher_def chk_def Let_def numeral_2_eq_2 [symmetric] del: obind_Ok One_nat_def)
qed


end
