(* ===== verification/Send_State.thy ===== *)
theory Send_State
  imports D2H_Transfer Task_Batch
begin

text \<open>
  The whole of \<open>SendState::Prepare\<close> (\<open>src/src/llm_datadist/fsm/send_state.cc\<close>): the lookup and the checks
  of theory \<open>Transfer_Request\<close>, the creation of the job for the transfer type, and its initialization with
  the offset of the batch (\<open>D2HDataTransferJob\<close>, \<open>H2DDataTransferJob\<close> and \<open>D2DDataTransferJob\<close>). The
  timeout point and the statistics are left out.
\<close>

section \<open>Preparation\<close>

datatype DataTransferJob =
    D2DJob "HcclOneSideOpDesc list"
  | D2HJob D2HDataTransferJob
  | H2DJob TaskBatcher TaskBatcher "BufferContext list"

text \<open>What the entity and the device give to the job: the addresses of the connection, whether the job
  object could be made and the device memory pool is enabled, what the copy of the sync flag returns, and
  the status of sending a response.\<close>

record job_env =
  entity_info :: EntityInfo
  job_made :: bool
  npu_mem_pool :: bool
  sync_memcpy_ret :: aclError
  send_response_ret :: "ResponseInfo \<Rightarrow> status"

text \<open>The call of \<open>Initialize\<close> of the job. That of the device-to-device job passes the request on to
  \<open>GenerateCacheTask\<close> and takes the time.\<close>

definition DataTransferJob_Initialize ::
  "'a acl_consts_scheme \<Rightarrow> job_env \<Rightarrow> int \<Rightarrow> CacheEntry \<Rightarrow> TransferCacheReq \<Rightarrow> nat \<Rightarrow> DataTransferJob outcome" where
  "DataTransferJob_Initialize c env transfer_type entry request offset =
     (if transfer_type = kTransferTypeD2H then
        obind (D2H_Initialize c (entity_info env) (sync_memcpy_ret env) (send_response_ret env) entry request offset) (\<lambda>job.
        Ok (D2HJob job))
      else if transfer_type = kTransferTypeH2D then
        obind (H2D_Initialize entry request (npu_mem_pool env) offset) (\<lambda>(src, dst, buffers). Ok (H2DJob src dst buffers))
      else
        obind (GenerateCacheTask entry request offset) (\<lambda>send_tasks. Ok (D2DJob send_tasks)))"

text \<open>The result is the job and the key to remove once the pull is done.\<close>

definition SendState_Prepare ::
  "'a acl_consts_scheme \<Rightarrow> job_env \<Rightarrow> CacheManager option \<Rightarrow> TransferCacheReq \<Rightarrow> (DataTransferJob \<times> DataCacheKey) outcome" where
  "SendState_Prepare c env cache_manager request =
     obind (SendState_Prepare_checks cache_manager request) (\<lambda>(entry, offset, to_remove, transfer_type).
     if \<not> job_made env then Err LLM_PARAM_INVALID
     else
       obind (DataTransferJob_Initialize c env transfer_type entry request offset) (\<lambda>job.
       Ok (job, to_remove)))"

section \<open>Lemmas\<close>

lemma Query_entry:
  "QueryCacheEntryAndOffset (Some m) request = Ok (entry, offset, key) \<Longrightarrow> \<exists>ci. cache_id_to_entry m ci = Some entry"
  by (auto simp: QueryCacheEntryAndOffset_def QueryBlocksCache_def QueryCacheByCacheId_def GetCacheEntry_by_key_def
      GetCacheEntry_by_id_def DoGetCacheEntry_def split: option.splits if_splits)

lemma H2D_Initialize_no_crash:
  assumes "request_buffer request" "SendState_Prepare_checks cm request = Ok (entry, offset, key, kTransferTypeH2D)"
  shows "H2D_Initialize entry request pool offset \<noteq> Crash"
  using ValidateLocalIndexBounds_D(1) [OF SendState_checks_D(7) [OF assms(2,1)]]
  by (auto simp: H2D_Initialize_def InitBufferContexts_def H2D_data_addresses_def ResolveSrcStartIndex_def ResolveSrcNumTensors_def
      Let_def split: if_splits)

lemma ResolveTransferType_cases:
  "0 \<le> ResolveTransferType request entry \<Longrightarrow> ResolveTransferType request entry \<in> {kTransferTypeD2D, kTransferTypeD2H, kTransferTypeH2D}"
  by (auto simp: ResolveTransferType_def Let_def split: if_splits)

lemma DataTransferJob_Initialize_crash_iff:
  assumes "request_buffer request" "SendState_Prepare_checks cm request = Ok (entry, offset, key, t)"
    and "stride entry < 2 ^ 60" "tensor_size entry < 2 ^ 64"
  shows "DataTransferJob_Initialize c env t entry request offset = Crash \<longleftrightarrow>
    t = kTransferTypeD2H \<and> sync_memcpy_ret env = ACL_ERROR_NONE \<and> D2H_crash_condition entry request"
proof -
  note d = SendState_checks_D [OF assms(2,1)]
  have "t \<in> {kTransferTypeD2D, kTransferTypeD2H, kTransferTypeH2D}" using ResolveTransferType_cases d(3,4) by blast
  then consider (D2D) "t = kTransferTypeD2D" | (D2H) "t = kTransferTypeD2H" | (H2D) "t = kTransferTypeH2D" by blast
  then show ?thesis
  proof cases
    case D2D
    with GenerateCacheTask_no_crash [OF assms(1)] assms(2) show ?thesis
      by (auto simp: DataTransferJob_Initialize_def transfer_type_defs)
  next
    case D2H
    with D2H_Initialize_crash_iff [OF assms(1) _ assms(3,4)] assms(2) show ?thesis
      by (simp add: DataTransferJob_Initialize_def)
  next
    case H2D
    with H2D_Initialize_no_crash [OF assms(1)] assms(2) show ?thesis
      by (auto simp: DataTransferJob_Initialize_def transfer_type_defs)
  qed
qed

section \<open>Theorems\<close>

text \<open>C3: Exactly which requests crash the server while it prepares the answer, over everything that a peer may
  write into the request buffer. On a node whose caches have strides below \<open>2 ^ 60\<close> and tensors below
  \<open>2 ^ 64\<close> bytes, the checks and the initialization of a device-to-device or host-to-device job read no
  array out of range and never divide by zero. A device-to-host job, once it is
  made and its sync flag copied, crashes in two cases, which no check excludes. Either the block size of
  the request is not 0 and a multiple of \<open>2 ^ 32\<close>, so that the 32-bit block size is 0 and divides; for a
  block cache it has to be the local block size too, with at least one block named. Or the cache is
  continuous and the size to pull, read as a signed number, is at most minus the 32-bit block size, so
  that the number of blocks is negative.\<close>

theorem SendState_Prepare_crash_iff:
  assumes "request_buffer request"
    and "\<forall>ci e. cache_id_to_entry m ci = Some e \<longrightarrow> stride e < 2 ^ 60 \<and> tensor_size e < 2 ^ 64"
  shows "SendState_Prepare c env (Some m) request = Crash \<longleftrightarrow>
    (\<exists>entry offset key. SendState_Prepare_checks (Some m) request = Ok (entry, offset, key, kTransferTypeD2H) \<and>
       job_made env \<and> sync_memcpy_ret env = ACL_ERROR_NONE \<and> block_size request \<noteq> 0 \<and>
       (if num_blocks entry > 0
        then block_size request = stride entry \<and> 0 < buffer_info_count request \<and> block_size request mod 2 ^ 32 = 0
        else block_size request mod 2 ^ 32 = 0 \<or> to_int64 (pull_size request) \<le> - int (block_size request mod 2 ^ 32)))"
proof (cases "SendState_Prepare_checks (Some m) request")
  case (Ok r)
  obtain entry offset key t where r: "r = (entry, offset, key, t)" by (metis prod_cases4)
  obtain ci where "cache_id_to_entry m ci = Some entry"
    using Query_entry SendState_checks_D(1) [OF _ assms(1)] Ok r by blast
  with assms(2) have e: "stride entry < 2 ^ 60" "tensor_size entry < 2 ^ 64" by blast+
  from DataTransferJob_Initialize_crash_iff [OF assms(1) _ e, where cm = "Some m" and t = t and offset = offset and key = key and c = c and env = env] Ok r
  have "SendState_Prepare c env (Some m) request = Crash \<longleftrightarrow>
      job_made env \<and> t = kTransferTypeD2H \<and> sync_memcpy_ret env = ACL_ERROR_NONE \<and> D2H_crash_condition entry request"
    by (simp add: SendState_Prepare_def)
  then show ?thesis unfolding D2H_crash_condition_def [symmetric] using Ok r by auto
next
  case Crash
  with SendState_checks_no_crash [OF assms(1)] show ?thesis by blast
qed (simp add: SendState_Prepare_def)

section \<open>Instances\<close>

definition demo_env :: job_env where
  "demo_env = \<lparr>entity_info = \<lparr>local_resp_ptr = 0, remote_req_ptr = 0, send_dev_buffer_resp_ptr = 0\<rparr>, job_made = True,
     npu_mem_pool = True, sync_memcpy_ret = 0, send_response_ret = (\<lambda>resp. SUCCESS)\<rparr>"

text \<open>A peer crashes the server with a block size of \<open>2 ^ 32\<close>; the device-to-device pull of the same cache is
  answered.\<close>

theorem SendState_Prepare_crash_iff_witness:
  "SendState_Prepare demo_consts demo_env (Some demo_manager) bad_request = Crash \<and>
   SendState_Prepare demo_consts demo_env (Some demo_manager) (demo_request CachePlacement_DEVICE) \<noteq> Crash"
proof -
  have e: "\<forall>ci e. cache_id_to_entry demo_manager ci = Some e \<longrightarrow> stride e < 2 ^ 60 \<and> tensor_size e < 2 ^ 64"
    by (simp add: demo_manager_def demo_entry_def)
  have p: "SendState_Prepare_checks (Some demo_manager) (demo_request CachePlacement_DEVICE) = Ok (demo_entry, 64, (7, 0), kTransferTypeD2D)"
    using demo_prepare [of CachePlacement_DEVICE] by simp
  have b: "block_size bad_request = 2 ^ 32" "num_blocks demo_entry = 0" by (simp_all add: bad_request_def demo_entry_def)
  have "SendState_Prepare demo_consts demo_env (Some demo_manager) bad_request = Crash"
    unfolding SendState_Prepare_crash_iff [OF bad_request_prepared(1) e] bad_request_prepared(2) b
    by (simp add: demo_env_def ACL_ERROR_NONE_def b)
  moreover have "SendState_Prepare demo_consts demo_env (Some demo_manager) (demo_request CachePlacement_DEVICE) \<noteq> Crash"
    unfolding SendState_Prepare_crash_iff [OF demo_request_buffer e] p by (simp add: transfer_type_defs)
  ultimately show ?thesis by blast
qed

end
