(* ===== verification/Cache_Table.thy ===== *)
theory Cache_Table
  imports Transfer_Request
begin

text \<open>
  The cache access table (\<open>src/src/llm_datadist/utils/cache_access_table.cc\<close>). A node writes its caches
  and their keys into a device buffer; a peer reads the buffer with a one-sided transfer, parses it and
  then looks up caches without asking the node. Modelled are the writer \<open>CacheAccessTableUpdater\<close>, the
  reader \<open>CacheAccessTable\<close> and the shared device buffer, on the level of bytes. The parsed buffer comes from
  the peer, so every number in it is arbitrary; a read outside the buffer is a \<open>Crash\<close>. Answers of the
  device runtime and of the transfer function are arguments. A \<open>std::map\<close> that is iterated is a list of
  pairs in key order, one that is only searched is a HOL map.
\<close>

section \<open>The layout\<close>

definition kCacheAccessTableBufferSize :: nat where "kCacheAccessTableBufferSize = 1024 * 1024"
definition sizeof_CacheIndex :: nat where "sizeof_CacheIndex = 24"
definition sizeof_CacheSummary :: nat where "sizeof_CacheSummary = 64"
definition sizeof_CacheTableHeader :: nat where "sizeof_CacheTableHeader = 24"

lemmas table_sizes = kCacheAccessTableBufferSize_def sizeof_CacheIndex_def sizeof_CacheSummary_def sizeof_CacheTableHeader_def

text \<open>An \<open>int64_t\<close> and an enum as the unsigned numbers their bytes spell.\<close>

definition int64_bits :: "int \<Rightarrow> nat" where "int64_bits x = nat (x mod 2 ^ 64)"
definition int64_of :: "nat \<Rightarrow> int" where "int64_of n = (if n < 2 ^ 63 then int n else int n - 2 ^ 64)"

fun mem_type_bits :: "CacheMemType \<Rightarrow> nat" where
  "mem_type_bits CACHE = 0"
| "mem_type_bits BLOCKS = 1"
| "mem_type_bits MIX = 2"
| "mem_type_bits (CacheMemType_other n) = n"

definition mem_type_of :: "nat \<Rightarrow> CacheMemType" where
  "mem_type_of n = (if n = 0 then CACHE else if n = 1 then BLOCKS else if n = 2 then MIX else CacheMemType_other n)"

section \<open>Writing\<close>

type_synonym cache_list = "(int \<times> CacheEntry) list"
type_synonym key_list = "((nat \<times> nat) \<times> int) list"

text \<open>The fields of a summary at \<open>off\<close>: seven 64-bit words, a flag, an enum at the next multiple of four,
  and the addresses.\<close>

definition FillCacheSummary :: "int \<Rightarrow> CacheEntry \<Rightarrow> 8 word list \<Rightarrow> nat \<Rightarrow> 8 word list outcome" where
  "FillCacheSummary cid e buf off =
     obind (write_bytes buf off (concat (map (le_bytes 8)
       [int64_bits cid, num_blocks e, batch_size e, tensor_size e, stride e, placement e, length (cache_addrs e)]))) (\<lambda>buf1.
     obind (write_bytes buf1 (off + 56) [if remote_accessible e then 1 else 0]) (\<lambda>buf2.
     obind (write_bytes buf2 (off + 60) (le_bytes 4 (mem_type_bits (cache_mem_type e)))) (\<lambda>buf3.
     write_bytes buf3 (off + 64) (concat (map (le_bytes 8) (cache_addrs e))))))"

definition summary_size :: "CacheEntry \<Rightarrow> nat" where
  "summary_size e = add64 sizeof_CacheSummary (mul64 8 (length (cache_addrs e)))"

definition ToBuffer :: "nat \<Rightarrow> cache_list \<Rightarrow> key_list \<Rightarrow> 8 word list outcome" where
  "ToBuffer version_num caches keys =
     (let sizes = map (\<lambda>(cid, e). (cid, summary_size e)) caches;
          total_size = fold (\<lambda>(cid, n) t. add64 t n) sizes
            (add64 sizeof_CacheTableHeader (mul64 sizeof_CacheIndex (length keys)))
      in if \<not> total_size \<le> kCacheAccessTableBufferSize then Err LLM_PARAM_INVALID
         else
           obind (write_bytes (replicate total_size 0) 0
             (concat (map (le_bytes 8) [version_num, length caches, length keys]))) (\<lambda>buf.
           obind (ofold (\<lambda>(cid, e) (buf, off).
               obind (FillCacheSummary cid e buf off) (\<lambda>buf'.
               Ok (buf', off + (case map_of sizes cid of Some n \<Rightarrow> n | None \<Rightarrow> 0))))
             caches (buf, sizeof_CacheTableHeader)) (\<lambda>(buf, off).
           obind (ofold (\<lambda>((rid, mid), cid) (buf, off).
               obind (write_bytes buf off (concat (map (le_bytes 8) [int64_bits cid, rid, mid]))) (\<lambda>buf'.
               Ok (buf', off + sizeof_CacheIndex)))
             keys (buf, off)) (\<lambda>(buf, off). Ok buf))))"

text \<open>The updater; \<open>upd_dev_mem\<close> is what the device buffer holds.\<close>

record CacheAccessTableUpdater =
  upd_version_num :: nat
  upd_dev_buffer :: nat
  upd_buffer_size :: nat
  upd_dev_mem :: "8 word list"

definition copy_to_device :: "8 word list \<Rightarrow> 8 word list \<Rightarrow> 8 word list" where
  "copy_to_device data dev_mem = data @ drop (length data) dev_mem"

text \<open>\<open>Initialize\<close>: \<open>malloc\<close> is the answer of \<open>aclrtMalloc\<close>, with what the memory happens to hold, \<open>copy_ret\<close>
  that of \<open>aclrtMemcpy\<close>.\<close>

definition CacheAccessTableUpdater_Initialize ::
  "'a acl_consts_scheme \<Rightarrow> aclError \<times> nat \<times> 8 word list \<Rightarrow> aclError \<Rightarrow> bool \<Rightarrow> CacheAccessTableUpdater \<Rightarrow>
   status \<times> CacheAccessTableUpdater" where
  "CacheAccessTableUpdater_Initialize c malloc copy_ret enable u =
     (case malloc of (ret, ptr, mem) \<Rightarrow>
      if upd_dev_buffer u \<noteq> 0 then (SUCCESS, u)
      else
        let u1 = u\<lparr>upd_buffer_size := (if enable then kCacheAccessTableBufferSize else sizeof_CacheTableHeader)\<rparr> in
        if ret \<noteq> ACL_ERROR_NONE then (ConvertAclError2Ge c ret, u1)
        else
          let u2 = u1\<lparr>upd_dev_buffer := ptr, upd_dev_mem := mem\<rparr> in
          if enable then (SUCCESS, u2)
          else if copy_ret \<noteq> ACL_ERROR_NONE then (ConvertAclError2Ge c copy_ret, u2)
          else (SUCCESS, u2\<lparr>upd_dev_mem := copy_to_device (concat (map (le_bytes 8) [UINT64_MAX, 0, 0])) mem\<rparr>))"

definition CacheAccessTableUpdater_Finalize :: "CacheAccessTableUpdater \<Rightarrow> CacheAccessTableUpdater" where
  "CacheAccessTableUpdater_Finalize u = (if upd_dev_buffer u \<noteq> 0 then u\<lparr>upd_dev_buffer := 0, upd_dev_mem := []\<rparr> else u)"

definition UpdateTableBuffer ::
  "'a acl_consts_scheme \<Rightarrow> aclError \<Rightarrow> cache_list \<Rightarrow> key_list \<Rightarrow> CacheAccessTableUpdater \<Rightarrow> unit outcome \<times> CacheAccessTableUpdater" where
  "UpdateTableBuffer c copy_ret caches keys u =
     (let version_num = add64 (upd_version_num u) 1; u1 = u\<lparr>upd_version_num := version_num\<rparr> in
      if version_num = UINT64_MAX then (Err GE_FAILED, u1)
      else case ToBuffer version_num caches keys of
             Err s \<Rightarrow> (Err s, u1)
           | Crash \<Rightarrow> (Crash, u1)
           | Ok buf \<Rightarrow>
               if copy_ret \<noteq> ACL_ERROR_NONE then (Err (ConvertAclError2Ge c copy_ret), u1)
               else (Ok (), u1\<lparr>upd_dev_mem := copy_to_device buf (upd_dev_mem u1)\<rparr>))"

section \<open>The shared device buffer\<close>

text \<open>The buffer the readers of a process share; \<open>sdb_size\<close> is the size it was allocated with.\<close>

record SharedDevBuffer =
  sdb_buffer :: nat
  sdb_mem_register_handle :: nat
  sdb_ref_count :: int
  sdb_size :: nat

text \<open>The result is the buffer, or null. \<open>malloc\<close> and \<open>register\<close> are the answers of \<open>aclrtMalloc\<close> and
  \<open>RegisterMem\<close>.\<close>

definition GetOrCreateBuffer ::
  "aclError \<times> nat \<Rightarrow> status \<times> nat \<Rightarrow> nat \<Rightarrow> SharedDevBuffer \<Rightarrow> nat \<times> SharedDevBuffer" where
  "GetOrCreateBuffer malloc reg n sb =
     (if sdb_buffer sb = 0 then
        if fst malloc \<noteq> ACL_ERROR_NONE then (0, sb)
        else if fst reg \<noteq> SUCCESS then (0, sb\<lparr>sdb_buffer := 0\<rparr>)
        else (snd malloc, sb\<lparr>sdb_buffer := snd malloc, sdb_mem_register_handle := snd reg, sdb_size := n,
                sdb_ref_count := sdb_ref_count sb + 1\<rparr>)
      else (sdb_buffer sb, sb\<lparr>sdb_ref_count := sdb_ref_count sb + 1\<rparr>))"

definition Unref :: "SharedDevBuffer \<Rightarrow> SharedDevBuffer" where
  "Unref sb =
     (if sdb_ref_count sb > 0 then
        let sb1 = sb\<lparr>sdb_ref_count := sdb_ref_count sb - 1\<rparr> in
        if sdb_ref_count sb1 = 0 then sb1\<lparr>sdb_mem_register_handle := 0, sdb_buffer := 0\<rparr> else sb1
      else sb)"

section \<open>Reading\<close>

record CacheAccessTable =
  cat_version_num :: nat
  cat_dev_buffer :: nat
  cat_buffer_size :: nat
  cat_id_to_entry :: "int \<rightharpoonup> CacheEntry"
  cat_key_to_id :: "nat \<times> nat \<rightharpoonup> int"

definition new_CacheAccessTable :: CacheAccessTable where
  "new_CacheAccessTable = \<lparr>cat_version_num = 0, cat_dev_buffer = 0, cat_buffer_size = 0,
     cat_id_to_entry = Map.empty, cat_key_to_id = Map.empty\<rparr>"

definition CacheAccessTable_Initialize ::
  "aclError \<times> nat \<Rightarrow> status \<times> nat \<Rightarrow> bool \<Rightarrow> SharedDevBuffer \<Rightarrow> CacheAccessTable \<Rightarrow> status \<times> SharedDevBuffer \<times> CacheAccessTable" where
  "CacheAccessTable_Initialize malloc reg remote_cache_accessible sb t =
     (if cat_dev_buffer t \<noteq> 0 then (SUCCESS, sb, t)
      else
        let n = (if remote_cache_accessible then kCacheAccessTableBufferSize else sizeof_CacheTableHeader) in
        case GetOrCreateBuffer malloc reg n sb of (ptr, sb') \<Rightarrow>
          let t' = t\<lparr>cat_buffer_size := n, cat_dev_buffer := ptr\<rparr> in
          if ptr = 0 then (LLM_PARAM_INVALID, sb', t') else (SUCCESS, sb', t'))"

definition ToCacheEntry :: "8 word list \<Rightarrow> nat \<Rightarrow> nat \<Rightarrow> CacheEntry outcome" where
  "ToCacheEntry buf off n =
     obind (collect (\<lambda>k. read_le 8 buf (off + k)) [8, 16, 24, 32, 40]) (\<lambda>f.
     obind (read_le 1 buf (off + 56)) (\<lambda>flag.
     obind (read_le 4 buf (off + 60)) (\<lambda>mt.
     obind (collect (\<lambda>i. read_le 8 buf (off + 64 + 8 * i)) [0 ..< n]) (\<lambda>addrs.
     Ok \<lparr>num_blocks = f ! 0, batch_size = u32 (f ! 1), seq_len_dim_index = -1, tensor_size = f ! 2, stride = f ! 3,
         ext_ref_count = 0, placement = u32 (f ! 4), cache_addrs = addrs, id_to_batch_index_and_size = [],
         is_owned = False, remote_accessible = (flag \<noteq> 0), cache_mem_type = mem_type_of mt\<rparr>))))"

text \<open>One round of the loop over the summaries: the offset and the caches so far.\<close>

definition load_cache :: "8 word list \<Rightarrow> nat \<Rightarrow> nat \<times> (int \<rightharpoonup> CacheEntry) \<Rightarrow> (nat \<times> (int \<rightharpoonup> CacheEntry)) outcome" where
  "load_cache buf i s =
     (case s of (off, entries) \<Rightarrow>
      obind (read_le 8 buf (off + 48)) (\<lambda>n.
      if MulOverflow n 8 then Err LLM_PARAM_INVALID
      else if AddOverflow sizeof_CacheSummary (n * 8) then Err LLM_PARAM_INVALID
      else if AddOverflow off (sizeof_CacheSummary + n * 8) then Err LLM_PARAM_INVALID
      else if \<not> off + (sizeof_CacheSummary + n * 8) \<le> length buf then Err LLM_PARAM_INVALID
      else
        obind (ToCacheEntry buf off n) (\<lambda>e.
        obind (read_le 8 buf off) (\<lambda>bits.
        let cid = int64_of bits in
        if entries cid \<noteq> None then Err LLM_PARAM_INVALID
        else Ok (off + (sizeof_CacheSummary + n * 8), entries(cid \<mapsto> e))))))"

definition load_index :: "8 word list \<Rightarrow> nat \<Rightarrow> (int \<rightharpoonup> CacheEntry) \<Rightarrow> nat \<Rightarrow> (nat \<times> nat \<rightharpoonup> int) \<Rightarrow> (nat \<times> nat \<rightharpoonup> int) outcome" where
  "load_index buf off entries i keys =
     obind (collect (\<lambda>k. read_le 8 buf (off + sizeof_CacheIndex * i + k)) [0, 8, 16]) (\<lambda>f.
     let cid = int64_of (f ! 0); key = (f ! 1, f ! 2) in
     if entries cid = None then Err GE_FAILED
     else if keys key \<noteq> None then Err LLM_PARAM_INVALID
     else Ok (keys(key \<mapsto> cid)))"

definition LoadFromBuffer :: "8 word list \<Rightarrow> CacheAccessTable \<Rightarrow> CacheAccessTable outcome" where
  "LoadFromBuffer buf t =
     (if \<not> length buf \<ge> sizeof_CacheTableHeader then Err LLM_PARAM_INVALID
      else
        obind (collect (\<lambda>k. read_le 8 buf k) [0, 8, 16]) (\<lambda>header.
        let version_num = header ! 0; num_caches = header ! 1; num_cache_indices = header ! 2 in
        if \<not> num_caches \<le> (length buf - sizeof_CacheTableHeader) div sizeof_CacheSummary then Err LLM_PARAM_INVALID
        else
          obind (ofold (load_cache buf) [0 ..< num_caches] (sizeof_CacheTableHeader, Map.empty)) (\<lambda>(off, entries).
          if \<not> off \<le> length buf then Err LLM_PARAM_INVALID
          else if MulOverflow num_cache_indices sizeof_CacheIndex then Err LLM_PARAM_INVALID
          else if AddOverflow off (num_cache_indices * sizeof_CacheIndex) then Err LLM_PARAM_INVALID
          else if \<not> off + num_cache_indices * sizeof_CacheIndex \<le> length buf then Err LLM_PARAM_INVALID
          else
            obind (ofold (load_index buf off entries) [0 ..< num_cache_indices] Map.empty) (\<lambda>keys.
            Ok (t\<lparr>cat_id_to_entry := entries, cat_key_to_id := keys, cat_version_num := version_num\<rparr>)))))"

text \<open>What a transfer from the peer gave: the status of the transfer, that of the copy to the host, and the
  bytes.\<close>

type_synonym fetched = "status \<times> aclError \<times> 8 word list"

definition SyncFromRemote :: "'a acl_consts_scheme \<Rightarrow> fetched \<Rightarrow> CacheAccessTable \<Rightarrow> CacheAccessTable outcome" where
  "SyncFromRemote c fetched t =
     (case fetched of (ret, copy_ret, bytes) \<Rightarrow>
      if ret \<noteq> SUCCESS then Err ret
      else if copy_ret \<noteq> ACL_ERROR_NONE then Err (ConvertAclError2Ge c copy_ret)
      else LoadFromBuffer (take kCacheAccessTableBufferSize bytes) t)"

definition FindCacheEntry_lookup :: "TransferCacheReq \<Rightarrow> CacheAccessTable \<Rightarrow> CacheEntry outcome" where
  "FindCacheEntry_lookup request t =
     (if cache_id request > 0 then
        (case cat_id_to_entry t (cache_id request) of None \<Rightarrow> Err LLM_KV_CACHE_NOT_EXIST | Some e \<Rightarrow> Ok e)
      else
        (case cat_key_to_id t (req_id request, model_id request) of
           None \<Rightarrow> Err LLM_KV_CACHE_NOT_EXIST
         | Some i \<Rightarrow> (case cat_id_to_entry t i of None \<Rightarrow> Crash | Some e \<Rightarrow> Ok e)))"

definition FindCacheEntry ::
  "'a acl_consts_scheme \<Rightarrow> fetched \<Rightarrow> TransferCacheReq \<Rightarrow> CacheAccessTable \<Rightarrow> CacheEntry outcome \<times> CacheAccessTable" where
  "FindCacheEntry c fetched request t =
     (if cat_version_num t = 0 then
        (case SyncFromRemote c fetched t of
           Ok t' \<Rightarrow> (FindCacheEntry_lookup request t', t')
         | Err s \<Rightarrow> (Err s, t)
         | Crash \<Rightarrow> (Crash, t))
      else (FindCacheEntry_lookup request t, t))"

definition CheckRemoteFlag :: "'a acl_consts_scheme \<Rightarrow> fetched \<Rightarrow> bool \<Rightarrow> unit outcome" where
  "CheckRemoteFlag c fetched expected_flag =
     (case fetched of (ret, copy_ret, bytes) \<Rightarrow>
      if ret \<noteq> SUCCESS then Err ret
      else if copy_ret \<noteq> ACL_ERROR_NONE then Err (ConvertAclError2Ge c copy_ret)
      else
        obind (read_le 8 (take sizeof_CacheTableHeader bytes) 0) (\<lambda>version_num.
        chk (expected_flag = (version_num \<noteq> UINT64_MAX)) LLM_PARAM_INVALID))"


section \<open>What the writer writes\<close>

definition words :: "nat list \<Rightarrow> 8 word list" where
  "words xs = concat (map (le_bytes 8) xs)"

lemma length_words [simp]: "length (words xs) = 8 * length xs"
  by (induction xs) (simp_all add: words_def)

lemma words_simps [simp]: "words [] = []" "words (x # xs) = le_bytes 8 x @ words xs" "words (xs @ ys) = words xs @ words ys"
  by (simp_all add: words_def)

definition summary_bytes :: "int \<times> CacheEntry \<Rightarrow> 8 word list" where
  "summary_bytes = (\<lambda>(cid, e).
     words [int64_bits cid, num_blocks e, batch_size e, tensor_size e, stride e, placement e, length (cache_addrs e)] @
     [if remote_accessible e then 1 else 0] @ replicate 3 0 @ le_bytes 4 (mem_type_bits (cache_mem_type e)) @ words (cache_addrs e))"

definition index_bytes :: "(nat \<times> nat) \<times> int \<Rightarrow> 8 word list" where
  "index_bytes = (\<lambda>((rid, mid), cid). words [int64_bits cid, rid, mid])"

definition table_bytes :: "nat \<Rightarrow> cache_list \<Rightarrow> key_list \<Rightarrow> 8 word list" where
  "table_bytes v caches keys =
     words [v, length caches, length keys] @ concat (map summary_bytes caches) @ concat (map index_bytes keys)"

definition table_size :: "cache_list \<Rightarrow> key_list \<Rightarrow> nat" where
  "table_size caches keys = 24 + 24 * length keys + (\<Sum>(cid, e) \<leftarrow> caches. 64 + 8 * length (cache_addrs e))"

lemma length_summary_bytes [simp]: "length (summary_bytes (cid, e)) = 64 + 8 * length (cache_addrs e)"
  by (simp add: summary_bytes_def)

lemma length_index_bytes [simp]: "length (index_bytes k) = 24"
  by (simp add: index_bytes_def split: prod.splits)

lemma length_summaries: "length (concat (map summary_bytes caches)) = (\<Sum>(cid, e) \<leftarrow> caches. 64 + 8 * length (cache_addrs e))"
  by (induction caches) auto

lemma length_indices [simp]: "length (concat (map index_bytes keys)) = 24 * length keys"
  by (induction keys) auto

lemma length_table_bytes: "length (table_bytes v caches keys) = table_size caches keys"
  by (simp add: table_bytes_def table_size_def length_summaries)

lemma write_at:
  assumes "length bs = k" "off = length pre" "n = k + m"
  shows "write_bytes (pre @ replicate n 0) off bs = Ok ((pre @ bs) @ replicate m 0)"
  using write_bytes_zeros [OF assms(1,2), of m] assms(3) by simp

lemma write_gap:
  assumes "length bs = k" "off = length pre + g" "n = k + m"
  shows "write_bytes (pre @ replicate (g + n) 0) off bs = Ok ((pre @ replicate g 0 @ bs) @ replicate m 0)"
  using write_at [of bs k off "pre @ replicate g 0" n m] assms by (simp add: replicate_add)

lemma FillCacheSummary_bytes:
  assumes "off = length pre" "n = 64 + 8 * length (cache_addrs e) + m"
  shows "FillCacheSummary cid e (pre @ replicate n 0) off = Ok (pre @ summary_bytes (cid, e) @ replicate m 0)"
proof -
  let ?h = "words [int64_bits cid, num_blocks e, batch_size e, tensor_size e, stride e, placement e, length (cache_addrs e)]"
  let ?f = "[if remote_accessible e then 1 else 0] :: 8 word list" and ?t = "8 * length (cache_addrs e)"
  let ?m = "le_bytes 4 (mem_type_bits (cache_mem_type e))" and ?w = "words (cache_addrs e)"
  have 1: "write_bytes (pre @ replicate n 0) off ?h = Ok ((pre @ ?h) @ replicate (8 + ?t + m) 0)"
    using assms by (intro write_at) simp_all
  have 2: "write_bytes ((pre @ ?h) @ replicate (8 + ?t + m) 0) (off + 56) ?f = Ok ((pre @ ?h @ ?f) @ replicate (3 + (4 + ?t + m)) 0)"
    using write_at [of ?f 1 "off + 56" "pre @ ?h" "8 + ?t + m" "3 + (4 + ?t + m)"] assms(1) by simp
  have 3: "write_bytes ((pre @ ?h @ ?f) @ replicate (3 + (4 + ?t + m)) 0) (off + 60) ?m
      = Ok ((pre @ ?h @ ?f @ replicate 3 0 @ ?m) @ replicate (?t + m) 0)"
    using write_gap [of ?m 4 "off + 60" "pre @ ?h @ ?f" 3 "4 + ?t + m" "?t + m"] assms(1) unfolding append_assoc by simp
  have 4: "write_bytes ((pre @ ?h @ ?f @ replicate 3 0 @ ?m) @ replicate (?t + m) 0) (off + 64) ?w
      = Ok ((pre @ ?h @ ?f @ replicate 3 0 @ ?m @ ?w) @ replicate m 0)"
    using write_at [of ?w ?t "off + 64" "pre @ ?h @ ?f @ replicate 3 0 @ ?m" "?t + m" m] assms(1) by simp
  show ?thesis unfolding FillCacheSummary_def words_def [symmetric] 1 obind.simps 2 3 4 by (simp add: summary_bytes_def)
qed

lemma write_summaries:
  assumes "off = length pre" "n = length (concat (map summary_bytes cs)) + m"
    and "\<forall>(cid, e) \<in> set cs. sz cid = 64 + 8 * length (cache_addrs e)"
  shows "ofold (\<lambda>(cid, e) (buf, off). obind (FillCacheSummary cid e buf off) (\<lambda>buf'. Ok (buf', off + sz cid))) cs (pre @ replicate n 0, off)
    = Ok (pre @ concat (map summary_bytes cs) @ replicate m 0, off + length (concat (map summary_bytes cs)))"
  using assms
proof (induction cs arbitrary: pre off n)
  case (Cons c cs)
  obtain cid e where c: "c = (cid, e)" by (cases c)
  let ?k = "length (concat (map summary_bytes cs)) + m"
  have "FillCacheSummary cid e (pre @ replicate n 0) off = Ok ((pre @ summary_bytes c) @ replicate ?k 0)"
    using FillCacheSummary_bytes [of off pre n e ?k cid] Cons.prems(1,2) by (simp add: c)
  moreover have "sz cid = length (summary_bytes c)" using Cons.prems(3) by (simp add: c)
  ultimately show ?case
    using Cons.IH [of "off + length (summary_bytes c)" "pre @ summary_bytes c" ?k] Cons.prems(1,3) by (simp add: c)
qed simp

lemma write_indices:
  assumes "off = length pre"
  shows "ofold (\<lambda>((rid, mid), cid) (buf, off). obind (write_bytes buf off (concat (map (le_bytes 8) [int64_bits cid, rid, mid])))
      (\<lambda>buf'. Ok (buf', off + sizeof_CacheIndex))) ks (pre @ replicate (24 * length ks) 0, off)
    = Ok (pre @ concat (map index_bytes ks), off + 24 * length ks)"
  using assms
proof (induction ks arbitrary: pre off)
  case (Cons k ks)
  obtain rid mid cid where k: "k = ((rid, mid), cid)" by (cases k) auto
  have eq: "index_bytes k = words [int64_bits cid, rid, mid]" by (simp add: k index_bytes_def)
  have "write_bytes (pre @ replicate (24 * length (k # ks)) 0) off (words [int64_bits cid, rid, mid])
      = Ok ((pre @ index_bytes k) @ replicate (24 * length ks) 0)"
    unfolding eq using Cons.prems by (intro write_at) simp_all
  then show ?case
    using Cons.IH [of "off + 24" "pre @ index_bytes k"] Cons.prems by (simp add: k sizeof_CacheIndex_def add.assoc)
qed simp

lemma fold_add64: "t + sum_list (map snd xs) < 2 ^ 64 \<Longrightarrow> fold (\<lambda>(cid, n) t. add64 t n) xs t = t + sum_list (map snd xs)"
  by (induction xs arbitrary: t) (auto simp: add64_id)


lemma summary_size_eq: "64 + 8 * length (cache_addrs e) < 2 ^ 64 \<Longrightarrow> summary_size e = 64 + 8 * length (cache_addrs e)"
  by (simp add: summary_size_def mul64_id add64_id sizeof_CacheSummary_def)

lemma table_size_Cons:
  "table_size ((cid, e) # caches) keys = 64 + 8 * length (cache_addrs e) + table_size caches keys"
  by (simp add: table_size_def)

lemma table_size_member: "(cid, e) \<in> set caches \<Longrightarrow> 64 + 8 * length (cache_addrs e) \<le> table_size caches keys"
  by (induction caches) (auto simp: table_size_Cons)

text \<open>The total that the code computes is the size of the table as long as that fits a machine word.\<close>

lemma ToBuffer_total:
  assumes "table_size caches keys < 2 ^ 64"
  shows "fold (\<lambda>(cid, n) t. add64 t n) (map (\<lambda>(cid, e). (cid, summary_size e)) caches)
     (add64 sizeof_CacheTableHeader (mul64 sizeof_CacheIndex (length keys))) = table_size caches keys"
proof -
  have k: "24 * length keys + 24 < 2 ^ 64" using assms unfolding table_size_def by linarith
  then have start: "add64 sizeof_CacheTableHeader (mul64 sizeof_CacheIndex (length keys)) = 24 + 24 * length keys"
    by (simp add: table_sizes mul64_id add64_id)
  have sizes: "map snd (map (\<lambda>(cid, e). (cid, summary_size e)) caches) = map (\<lambda>(cid, e). 64 + 8 * length (cache_addrs e)) caches"
    using table_size_member [of _ _ caches keys] assms by (force intro!: summary_size_eq)
  show ?thesis using assms unfolding start by (subst fold_add64) (simp_all only: sizes table_size_def)
qed

lemma ToBuffer_bytes:
  assumes "distinct (map fst caches)" "table_size caches keys < 2 ^ 64"
  shows "ToBuffer v caches keys =
    (if table_size caches keys \<le> kCacheAccessTableBufferSize then Ok (table_bytes v caches keys) else Err LLM_PARAM_INVALID)"
proof -
  let ?sizes = "map (\<lambda>(cid, e). (cid, summary_size e)) caches"
  let ?sz = "\<lambda>cid. case map_of ?sizes cid of Some n \<Rightarrow> n | None \<Rightarrow> 0"
  let ?h = "words [v, length caches, length keys]" and ?c = "concat (map summary_bytes caches)"
  have m: "\<forall>(cid, e) \<in> set caches. ?sz cid = 64 + 8 * length (cache_addrs e)"
  proof clarify
    fix cid e assume c: "(cid, e) \<in> set caches"
    then have "map_of ?sizes cid = Some (summary_size e)"
      using assms(1) by (intro map_of_is_SomeI) (force simp: comp_def case_prod_unfold)+
    moreover have "summary_size e = 64 + 8 * length (cache_addrs e)"
      using table_size_member [OF c, of keys] assms(2) by (intro summary_size_eq) linarith
    ultimately show "?sz cid = 64 + 8 * length (cache_addrs e)" by simp
  qed
  have n: "table_size caches keys = 24 + (length ?c + 24 * length keys)"
    by (simp add: table_size_def length_summaries)
  have 1: "write_bytes (replicate (table_size caches keys) 0) 0 ?h = Ok (?h @ replicate (length ?c + 24 * length keys) 0)"
    using write_at [of ?h 24 0 "[]" "table_size caches keys" "length ?c + 24 * length keys"] unfolding n by simp
  note 2 = write_summaries [of 24 ?h "length ?c + 24 * length keys" caches "24 * length keys" ?sz, OF _ _ m]
  note 3 = write_indices [of "24 + length ?c" "?h @ ?c" keys]
  show ?thesis unfolding ToBuffer_def Let_def ToBuffer_total [OF assms(2)]
    using 1 2 3 by (simp add: table_bytes_def sizeof_CacheTableHeader_def)
qed


section \<open>Reading back\<close>

lemma read_word:
  assumes "buf = pre @ words xs @ rest" "off = length pre + 8 * i" "i < length xs" "xs ! i < 2 ^ 64"
  shows "read_le 8 buf off = Ok (xs ! i)"
proof -
  have "words xs = words (take i xs) @ le_bytes 8 (xs ! i) @ words (drop (Suc i) xs)"
    using id_take_nth_drop [OF assms(3)] by (metis words_simps(2,3))
  then have "buf = (pre @ words (take i xs)) @ le_bytes 8 (xs ! i) @ (words (drop (Suc i) xs) @ rest)" using assms(1) by simp
  then show ?thesis using read_le_here [of off "pre @ words (take i xs)" "xs ! i" 8] assms(2-4) by simp
qed

lemma int64_roundtrip: "- (2 ^ 63) \<le> x \<Longrightarrow> x < 2 ^ 63 \<Longrightarrow> int64_of (int64_bits x) = x"
proof -
  assume b: "- (2 ^ 63) \<le> x" "x < 2 ^ 63"
  show ?thesis
  proof (cases "0 \<le> x")
    case True
    then have "x mod 2 ^ 64 = x" using b(2) by (intro mod_pos_pos_trivial) simp_all
    with True b(2) show ?thesis by (simp add: int64_of_def int64_bits_def nat_less_iff)
  next
    case False
    have "x mod 2 ^ 64 = (x + 2 ^ 64) mod 2 ^ 64" by simp
    also have "\<dots> = x + 2 ^ 64" using False b(1) by (intro mod_pos_pos_trivial) simp_all
    finally have "x mod 2 ^ 64 = x + 2 ^ 64" .
    with False b(1) show ?thesis by (simp add: int64_of_def int64_bits_def nat_less_iff)
  qed
qed

lemma int64_bits_bound [simp]: "int64_bits x < 18446744073709551616"
  by (simp add: int64_bits_def nat_less_iff)

text \<open>Entries as the machine has them, and what a reader sees of an entry.\<close>

definition entry_fits :: "CacheEntry \<Rightarrow> bool" where
  "entry_fits e \<longleftrightarrow> num_blocks e < 2 ^ 64 \<and> batch_size e < 2 ^ 32 \<and> tensor_size e < 2 ^ 64 \<and> stride e < 2 ^ 64 \<and>
     placement e < 2 ^ 32 \<and> length (cache_addrs e) < 2 ^ 64 \<and> (\<forall>a \<in> set (cache_addrs e). a < 2 ^ 64) \<and>
     mem_type_bits (cache_mem_type e) < 2 ^ 32 \<and> mem_type_of (mem_type_bits (cache_mem_type e)) = cache_mem_type e"

definition as_seen :: "CacheEntry \<Rightarrow> CacheEntry" where
  "as_seen e = e\<lparr>seq_len_dim_index := -1, ext_ref_count := 0, id_to_batch_index_and_size := [], is_owned := False\<rparr>"

lemma ToCacheEntry_summary:
  assumes "buf = pre @ summary_bytes (cid, e) @ rest" "off = length pre" "entry_fits e"
  shows "ToCacheEntry buf off (length (cache_addrs e)) = Ok (as_seen e)"
    and "read_le 8 buf off = Ok (int64_bits cid)" "read_le 8 buf (off + 48) = Ok (length (cache_addrs e))"
proof -
  let ?xs = "[int64_bits cid, num_blocks e, batch_size e, tensor_size e, stride e, placement e, length (cache_addrs e)]"
  let ?f = "[if remote_accessible e then 1 else 0] :: 8 word list" and ?m = "le_bytes 4 (mem_type_bits (cache_mem_type e))"
  have b: "buf = pre @ words ?xs @ (?f @ replicate 3 0 @ ?m @ words (cache_addrs e) @ rest)"
    using assms(1) by (simp add: summary_bytes_def)
  have r: "read_le 8 buf (off + 8 * i) = Ok (?xs ! i)" if "i < 7" for i
  proof (rule read_word [OF b])
    have "\<forall>x \<in> set ?xs. x < 2 ^ 64" using assms(3) by (auto simp: entry_fits_def)
    moreover have "?xs ! i \<in> set ?xs" using that by (intro nth_mem) simp
    ultimately show "?xs ! i < 2 ^ 64" by blast
  qed (use assms(2) that in simp_all)
  show "read_le 8 buf off = Ok (int64_bits cid)" "read_le 8 buf (off + 48) = Ok (length (cache_addrs e))"
    using r [of 0] r [of 6] by simp_all
  have "collect (\<lambda>k. read_le 8 buf (off + k)) [8, 16, 24, 32, 40] = Ok [num_blocks e, batch_size e, tensor_size e, stride e, placement e]"
    using r [of 1] r [of 2] r [of 3] r [of 4] r [of 5] by simp
  moreover have "read_le 1 buf (off + 56) = Ok (if remote_accessible e then 1 else 0)"
    using b assms(2) by (simp add: read_le_def)
  moreover have "read_le 4 buf (off + 60) = Ok (mem_type_bits (cache_mem_type e))"
    using read_le_here [of "off + 60" "pre @ words ?xs @ ?f @ replicate 3 0" "mem_type_bits (cache_mem_type e)" 4 "words (cache_addrs e) @ rest"]
      assms(2,3) b by (simp add: entry_fits_def)
  moreover have "collect (\<lambda>i. read_le 8 buf (off + 64 + 8 * i)) [0 ..< length (cache_addrs e)] = Ok (cache_addrs e)"
    unfolding collect_Ok
  proof (rule list_all2_all_nthI)
    fix i assume i: "i < length [0 ..< length (cache_addrs e)]"
    have "buf = (pre @ words ?xs @ ?f @ replicate 3 0 @ ?m) @ words (cache_addrs e) @ rest" using b by simp
    from read_word [OF this, of "off + 64 + 8 * i" i] assms(2,3) i
    show "read_le 8 buf (off + 64 + 8 * ([0 ..< length (cache_addrs e)] ! i)) = Ok (cache_addrs e ! i)"
      by (simp add: entry_fits_def)
  qed simp
  ultimately show "ToCacheEntry buf off (length (cache_addrs e)) = Ok (as_seen e)"
    using assms(3) by (simp add: ToCacheEntry_def as_seen_def entry_fits_def)
qed


lemma map_add_upd_left: "m2 k = None \<Longrightarrow> m1(k \<mapsto> v) ++ m2 = m1 ++ m2(k \<mapsto> v)"
  by (auto simp: fun_eq_iff map_add_def split: option.splits)

lemma load_cache_summary:
  assumes "buf = pre @ summary_bytes (cid, e) @ rest" "off = length pre" "entry_fits e" "- (2 ^ 63) \<le> cid" "cid < 2 ^ 63"
    and "entries cid = None" "length buf < 2 ^ 64"
  shows "load_cache buf i (off, entries) = Ok (off + length (summary_bytes (cid, e)), entries(cid \<mapsto> as_seen e))"
proof -
  let ?n = "length (cache_addrs e)"
  note r = ToCacheEntry_summary [OF assms(1-3)]
  have fits: "off + (64 + ?n * 8) \<le> length buf" using assms(1,2) by simp
  then have "?n * 8 < 2 ^ 64" "64 + ?n * 8 < 2 ^ 64" "off + (64 + ?n * 8) < 2 ^ 64" using assms(7) by linarith+
  then have "\<not> MulOverflow ?n 8" "\<not> AddOverflow 64 (?n * 8)" "\<not> AddOverflow off (64 + ?n * 8)"
    by (simp_all only: not_MulOverflow not_AddOverflow)
  with r fits assms(6) int64_roundtrip [OF assms(4,5)] show ?thesis
    by (simp add: load_cache_def sizeof_CacheSummary_def Let_def mult.commute)
qed

definition caches_fit :: "cache_list \<Rightarrow> bool" where
  "caches_fit cs \<longleftrightarrow> distinct (map fst cs) \<and> (\<forall>(cid, e) \<in> set cs. - (2 ^ 63) \<le> cid \<and> cid < 2 ^ 63 \<and> entry_fits e)"

definition seen_caches :: "cache_list \<Rightarrow> int \<rightharpoonup> CacheEntry" where
  "seen_caches cs = map_of (map (\<lambda>(cid, e). (cid, as_seen e)) cs)"

lemma dom_seen_caches: "dom (seen_caches cs) = fst ` set cs"
  by (force simp: seen_caches_def dom_map_of_conv_image_fst)

lemma load_caches_summaries:
  assumes "buf = pre @ concat (map summary_bytes cs) @ rest" "off = length pre" "caches_fit cs" "length buf < 2 ^ 64"
    and "dom entries \<inter> fst ` set cs = {}"
  shows "ofold (load_cache buf) [i ..< i + length cs] (off, entries)
    = Ok (off + length (concat (map summary_bytes cs)), entries ++ seen_caches cs)"
  using assms
proof (induction cs arbitrary: pre off entries i)
  case Nil
  then show ?case by (simp add: seen_caches_def)
next
  case (Cons c cs)
  obtain cid e where c: "c = (cid, e)" by (cases c)
  let ?k = "length (summary_bytes c)" and ?m = "entries(cid \<mapsto> as_seen e)"
  have fit: "entry_fits e" "- (2 ^ 63) \<le> cid" "cid < 2 ^ 63" "cid \<notin> fst ` set cs" "caches_fit cs" "entries cid = None"
    using Cons.prems(3,5) by (auto simp: c caches_fit_def)
  have "load_cache buf i (off, entries) = Ok (off + ?k, ?m)"
    using load_cache_summary [of buf pre cid e "concat (map summary_bytes cs) @ rest" off entries i] Cons.prems fit by (simp add: c)
  moreover have "ofold (load_cache buf) [Suc i ..< Suc i + length cs] (off + ?k, ?m)
      = Ok (off + ?k + length (concat (map summary_bytes cs)), ?m ++ seen_caches cs)"
  proof (rule Cons.IH [of "pre @ summary_bytes c", OF _ _ fit(5) Cons.prems(4)])
    show "dom ?m \<inter> fst ` set cs = {}" using Cons.prems(5) fit(4) unfolding dom_fun_upd by auto
  qed (use Cons.prems(1,2) in \<open>simp_all add: c\<close>)
  moreover have "?m ++ seen_caches cs = entries ++ seen_caches (c # cs)"
  proof -
    have "seen_caches cs cid = None" using fit(4) dom_seen_caches [of cs] by blast
    then show ?thesis by (simp add: map_add_upd_left seen_caches_def c)
  qed
  moreover have "[i ..< i + length (c # cs)] = i # [Suc i ..< Suc i + length cs]" by (simp add: upt_conv_Cons del: upt_Suc)
  moreover have "off + length (concat (map summary_bytes (c # cs))) = off + ?k + length (concat (map summary_bytes cs))" by simp
  ultimately show ?case by (simp only: ofold.simps obind.simps)
qed

definition keys_fit :: "cache_list \<Rightarrow> key_list \<Rightarrow> bool" where
  "keys_fit cs ks \<longleftrightarrow> distinct (map fst ks) \<and>
     (\<forall>((rid, mid), cid) \<in> set ks. rid < 2 ^ 64 \<and> mid < 2 ^ 64 \<and> - (2 ^ 63) \<le> cid \<and> cid < 2 ^ 63 \<and> cid \<in> fst ` set cs)"

lemma load_index_bytes:
  assumes "buf = pre @ index_bytes ((rid, mid), cid) @ rest" "length pre = off + 24 * i"
    and "rid < 2 ^ 64" "mid < 2 ^ 64" "- (2 ^ 63) \<le> cid" "cid < 2 ^ 63" "entries cid \<noteq> None" "keys (rid, mid) = None"
  shows "load_index buf off entries i keys = Ok (keys((rid, mid) \<mapsto> cid))"
proof -
  let ?xs = "[int64_bits cid, rid, mid]"
  have b: "buf = pre @ words ?xs @ rest" using assms(1) by (simp add: index_bytes_def)
  have "read_le 8 buf (off + 24 * i + 8 * k) = Ok (?xs ! k)" if "k < 3" for k
    using that assms(2,3,4) by (intro read_word [OF b]) (auto simp: nth_Cons' less_Suc_eq numeral_3_eq_3)
  from this [of 0] this [of 1] this [of 2]
  have "collect (\<lambda>k. read_le 8 buf (off + sizeof_CacheIndex * i + k)) [0, 8, 16] = Ok ?xs"
    by (simp add: sizeof_CacheIndex_def)
  with assms(7,8) int64_roundtrip [OF assms(5,6)] show ?thesis by (simp add: load_index_def Let_def)
qed

lemma load_indices_bytes:
  assumes "buf = pre @ concat (map index_bytes ks) @ rest" "length pre = off + 24 * i" "distinct (map fst ks)"
    and "\<forall>((rid, mid), cid) \<in> set ks. rid < 2 ^ 64 \<and> mid < 2 ^ 64 \<and> - (2 ^ 63) \<le> cid \<and> cid < 2 ^ 63 \<and> entries cid \<noteq> None"
    and "dom keys \<inter> fst ` set ks = {}"
  shows "ofold (load_index buf off entries) [i ..< i + length ks] keys = Ok (keys ++ map_of ks)"
  using assms
proof (induction ks arbitrary: pre i keys)
  case (Cons k ks)
  obtain rid mid cid where k: "k = ((rid, mid), cid)" by (cases k) auto
  let ?m = "keys((rid, mid) \<mapsto> cid)"
  have "load_index buf off entries i keys = Ok ?m"
    using load_index_bytes [of buf pre rid mid cid "concat (map index_bytes ks) @ rest" off i entries keys] Cons.prems
    by (auto simp: k)
  moreover have "ofold (load_index buf off entries) [Suc i ..< Suc i + length ks] ?m = Ok (?m ++ map_of ks)"
  proof (rule Cons.IH [of "pre @ index_bytes k"])
    show "dom ?m \<inter> fst ` set ks = {}" using Cons.prems(3,5) unfolding dom_fun_upd by (auto simp: k)
  qed (use Cons.prems in \<open>simp_all add: k\<close>)
  moreover have "map_of ks (rid, mid) = None" using Cons.prems(3) by (simp add: k map_of_eq_None_iff)
  then have "?m ++ map_of ks = keys ++ map_of (k # ks)" by (simp add: k map_add_upd_left)
  moreover have "[i ..< i + length (k # ks)] = i # [Suc i ..< Suc i + length ks]" by (simp add: upt_conv_Cons del: upt_Suc)
  ultimately show ?case by (simp only: ofold.simps obind.simps)
qed simp

text \<open>The reader gets back what the writer wrote, whatever follows in the buffer.\<close>

lemma LoadFromBuffer_table:
  assumes "caches_fit caches" "keys_fit caches keys" "v < 2 ^ 64" "table_size caches keys + length rest < 2 ^ 64"
  shows "LoadFromBuffer (table_bytes v caches keys @ rest) t
    = Ok (t\<lparr>cat_id_to_entry := seen_caches caches, cat_key_to_id := map_of keys, cat_version_num := v\<rparr>)"
proof -
  let ?buf = "table_bytes v caches keys @ rest" and ?xs = "[v, length caches, length keys]"
  let ?c = "concat (map summary_bytes caches)"
  have len: "length ?buf = 24 + length ?c + 24 * length keys + length rest" and lt: "length ?buf < 2 ^ 64"
    using assms(4) by (simp_all add: length_table_bytes table_size_def length_summaries)
  have c: "length caches * 64 \<le> length ?c" unfolding length_summaries by (induction caches) auto
  have b: "?buf = [] @ words ?xs @ (?c @ concat (map index_bytes keys) @ rest)" by (simp add: table_bytes_def)
  have "length caches < 2 ^ 64" "length keys < 2 ^ 64" using len lt c by linarith+
  then have "read_le 8 ?buf (8 * i) = Ok (?xs ! i)" if "i < 3" for i
    using that assms(3) by (intro read_word [OF b]) (auto simp: nth_Cons' less_Suc_eq numeral_3_eq_3)
  from this [of 0] this [of 1] this [of 2]
  have h: "collect (\<lambda>k. read_le 8 ?buf k) [0, 8, 16] = Ok ?xs" by simp
  have nc: "length caches \<le> (length ?buf - 24) div 64" using len c by (simp add: less_eq_div_iff_mult_less_eq)
  have l: "ofold (load_cache ?buf) [0 ..< length caches] (24, Map.empty) = Ok (24 + length ?c, seen_caches caches)"
    using load_caches_summaries [of ?buf "words ?xs" caches "concat (map index_bytes keys) @ rest" 24 Map.empty 0] assms(1) lt
    by (simp add: table_bytes_def)
  have "\<forall>((rid, mid), cid) \<in> set keys. rid < 2 ^ 64 \<and> mid < 2 ^ 64 \<and> - (2 ^ 63) \<le> cid \<and> cid < 2 ^ 63 \<and> seen_caches caches cid \<noteq> None"
    using assms(2) dom_seen_caches [of caches] by (fastforce simp: keys_fit_def domIff [symmetric])
  then have x: "ofold (load_index ?buf (24 + length ?c) (seen_caches caches)) [0 ..< length keys] Map.empty = Ok (map_of keys)"
    using load_indices_bytes [of ?buf "words ?xs @ ?c" keys rest "24 + length ?c" 0 "seen_caches caches" Map.empty] assms(2)
    by (simp add: table_bytes_def keys_fit_def)
  have "length keys * 24 < 2 ^ 64" "24 + length ?c + length keys * 24 < 2 ^ 64" using len lt by linarith+
  then have o: "\<not> MulOverflow (length keys) 24" "\<not> AddOverflow (24 + length ?c) (length keys * 24)"
    by (simp_all only: not_MulOverflow not_AddOverflow)
  show ?thesis unfolding LoadFromBuffer_def table_sizes h obind.simps Let_def
    using nc l x o len by simp
qed


section \<open>Lookups\<close>

text \<open>The keys of a table name caches of the table, so that \<open>at\<close> does not throw.\<close>

definition table_ok :: "CacheAccessTable \<Rightarrow> bool" where
  "table_ok t \<longleftrightarrow> ran (cat_key_to_id t) \<subseteq> dom (cat_id_to_entry t)"

lemma load_index_ran: "ran keys \<subseteq> dom entries \<Longrightarrow> load_index buf off entries i keys = Ok keys' \<Longrightarrow> ran keys' \<subseteq> dom entries"
  by (fastforce simp: load_index_def Let_def ran_def subset_iff split: if_splits)

lemma LoadFromBuffer_ok: "LoadFromBuffer buf t = Ok t' \<Longrightarrow> table_ok t'"
proof -
  assume "LoadFromBuffer buf t = Ok t'"
  then obtain off xs where "ofold (load_index buf off (cat_id_to_entry t')) xs Map.empty = Ok (cat_key_to_id t')"
    by (auto simp: LoadFromBuffer_def Let_def split: if_splits)
  moreover have "ran keys' \<subseteq> dom entries" if "ofold (load_index buf off entries) xs keys = Ok keys'" "ran keys \<subseteq> dom entries" for keys keys' entries
    using that
  proof (induction xs arbitrary: keys)
    case (Cons x xs)
    then obtain k where "load_index buf off entries x keys = Ok k" "ofold (load_index buf off entries) xs k = Ok keys'" by auto
    with Cons.IH [of k] load_index_ran [OF Cons.prems(2)] show ?case by blast
  qed simp
  ultimately show ?thesis by (simp add: table_ok_def)
qed

lemma FindCacheEntry_lookup_no_crash: "table_ok t \<Longrightarrow> FindCacheEntry_lookup request t \<noteq> Crash"
  by (auto simp: FindCacheEntry_lookup_def table_ok_def ran_def split: option.splits)

lemma FindCacheEntry_ok:
  assumes "table_ok t" "FindCacheEntry c (ret, copy_ret, bytes) request t = (r, t')"
  shows "table_ok t'" "r = Crash \<Longrightarrow> LoadFromBuffer (take kCacheAccessTableBufferSize bytes) t = Crash"
  using assms LoadFromBuffer_ok FindCacheEntry_lookup_no_crash
  by (auto simp: FindCacheEntry_def SyncFromRemote_def split: if_splits outcome.splits)

definition published :: "cache_list \<Rightarrow> key_list \<Rightarrow> TransferCacheReq \<Rightarrow> CacheEntry outcome" where
  "published caches keys request =
     (case (if cache_id request > 0 then Some (cache_id request) else map_of keys (req_id request, model_id request)) of
        None \<Rightarrow> Err LLM_KV_CACHE_NOT_EXIST
      | Some i \<Rightarrow> (case map_of caches i of None \<Rightarrow> Err LLM_KV_CACHE_NOT_EXIST | Some e \<Rightarrow> Ok (as_seen e)))"

text \<open>C17: A published cache table is read back exactly. When a node writes its caches and keys, they fit
  the buffer and every key names a listed cache, a peer that fetches the buffer finds by cache id and by key just the caches of the node,
  each with the layout, placement and tensor addresses it has there; anything else does not exist.\<close>

theorem CacheTable_published:
  assumes "caches_fit caches" "keys_fit caches keys" "table_size caches keys \<le> kCacheAccessTableBufferSize"
    and "upd_version_num u < UINT64_MAX - 1" "length (upd_dev_mem u) = kCacheAccessTableBufferSize" "cat_version_num t = 0"
  shows "\<exists>u'. UpdateTableBuffer c ACL_ERROR_NONE caches keys u = (Ok (), u') \<and>
    fst (FindCacheEntry c (SUCCESS, ACL_ERROR_NONE, upd_dev_mem u') request t) = published caches keys request"
proof -
  define v where "v = add64 (upd_version_num u) 1"
  define mem where "mem = copy_to_device (table_bytes v caches keys) (upd_dev_mem u)"
  let ?rest = "drop (table_size caches keys) (upd_dev_mem u)"
  have small: "table_size caches keys < 2 ^ 64" using assms(3) by (simp add: kCacheAccessTableBufferSize_def)
  have "distinct (map fst caches)" using assms(1) by (simp add: caches_fit_def)
  then have buf: "ToBuffer v caches keys = Ok (table_bytes v caches keys)" using small assms(3) by (simp add: ToBuffer_bytes)
  have v: "v = upd_version_num u + 1" using assms(4) by (simp add: v_def add64_def)
  then have "v \<noteq> UINT64_MAX" using assms(4) by linarith
  then have upd: "UpdateTableBuffer c ACL_ERROR_NONE caches keys u = (Ok (), u\<lparr>upd_version_num := v, upd_dev_mem := mem\<rparr>)"
    using buf by (simp add: UpdateTableBuffer_def Let_def v_def [symmetric] mem_def [symmetric] del: One_nat_def)
  have eq: "mem = table_bytes v caches keys @ ?rest" by (simp add: mem_def copy_to_device_def length_table_bytes)
  have all: "take kCacheAccessTableBufferSize mem = mem" unfolding eq using assms(3,5) by (simp add: length_table_bytes)
  have load: "LoadFromBuffer mem t
      = Ok (t\<lparr>cat_id_to_entry := seen_caches caches, cat_key_to_id := map_of keys, cat_version_num := v\<rparr>)"
    unfolding eq using assms(1,2,3,5) by (intro LoadFromBuffer_table) (simp_all add: kCacheAccessTableBufferSize_def v_def add64_def)
  have seen: "seen_caches caches i = map_option as_seen (map_of caches i)" for i by (simp add: seen_caches_def map_of_map)
  have known: "\<exists>e. map_of caches i = Some e" if "map_of keys k = Some i" for k i
  proof -
    have "i \<in> fst ` set caches" using map_of_SomeD [OF that] assms(2) unfolding keys_fit_def by (cases k) blast
    then show ?thesis using map_of_eq_None_iff [of caches i] by blast
  qed
  show ?thesis unfolding upd
    using assms(6) known [of "(req_id request, model_id request)"] by (auto simp: FindCacheEntry_def SyncFromRemote_def all load FindCacheEntry_lookup_def published_def seen
        split: option.splits)
qed

section \<open>Tables that crash the reader\<close>

lemma collect_total: "(\<And>x. x \<in> set xs \<Longrightarrow> \<exists>y. f x = Ok y) \<Longrightarrow> \<exists>ys. collect f xs = Ok ys"
  by (induction xs) auto

lemma read_le_total: "off + k \<le> length buf \<Longrightarrow> \<exists>n. read_le k buf off = Ok n"
  by (simp add: read_le_def)

lemma ToCacheEntry_total: "off + (64 + n * 8) \<le> length buf \<Longrightarrow> \<exists>e. ToCacheEntry buf off n = Ok e"
proof -
  assume r: "off + (64 + n * 8) \<le> length buf"
  then obtain addrs where "collect (\<lambda>i. read_le 8 buf (off + 64 + 8 * i)) [0 ..< n] = Ok addrs"
    using collect_total [of "[0 ..< n]" "\<lambda>i. read_le 8 buf (off + 64 + 8 * i)"] by (fastforce simp: read_le_def)
  with r show ?thesis by (simp add: ToCacheEntry_def read_le_def)
qed

text \<open>A table of two caches, the first of which takes up the whole rest of the buffer.\<close>

lemma LoadFromBuffer_past_end:
  assumes "buf = words [v, 2, k] @ words [cid, nb, bs, ts, sd, pl, n] @ rest" "length buf = 88 + n * 8" "8 \<le> n" "length buf < 2 ^ 64"
    and "v < 2 ^ 64" "k < 2 ^ 64"
  shows "LoadFromBuffer buf t = Crash"
proof -
  have "read_le 8 buf (8 * i) = Ok ([v, 2, k] ! i)" if "i < 3" for i
    using that assms by (intro read_word [of _ "[]"]) (auto simp: nth_Cons' less_Suc_eq numeral_3_eq_3)
  from this [of 0] this [of 1] this [of 2] have h: "collect (\<lambda>k. read_le 8 buf k) [0, 8, 16] = Ok [v, 2, k]" by simp
  have "n < 2 ^ 64" using assms(2,4) by linarith
  then have n: "read_le 8 buf 72 = Ok n"
    using read_word [of buf "words [v, 2, k]" "[cid, nb, bs, ts, sd, pl, n]" rest 72 6] assms(1) by simp
  obtain e where e: "ToCacheEntry buf 24 n = Ok e" using ToCacheEntry_total [of 24 n buf] assms(2) by auto
  obtain bits where bits: "read_le 8 buf 24 = Ok bits" using read_le_total [of 24 8 buf] assms(2) by auto
  have "n * 8 < 2 ^ 64" "64 + n * 8 < 2 ^ 64" "24 + (64 + n * 8) < 2 ^ 64" using assms(2,4) by linarith+
  then have "\<not> MulOverflow n 8" "\<not> AddOverflow 64 (n * 8)" "\<not> AddOverflow 24 (64 + n * 8)"
    by (simp_all only: not_MulOverflow not_AddOverflow)
  then have 1: "load_cache buf 0 (24, Map.empty) = Ok (length buf, [int64_of bits \<mapsto> e])"
    using n e bits assms(2) by (simp add: load_cache_def Let_def table_sizes)
  have 2: "load_cache buf 1 (length buf, m) = Crash" for m by (simp add: load_cache_def read_le_def)
  have "2 \<le> (length buf - 24) div 64" using assms(2,3) by simp
  then show ?thesis
    using h 1 2 assms(2) by (simp add: LoadFromBuffer_def Let_def table_sizes upt_conv_Cons numeral_2_eq_2 del: upt_Suc)
qed

definition full_table :: "8 word list" where
  "full_table = words [1, 2, 0] @ words [0, 0, 0, 0, 0, 0, 131061] @ replicate 1048496 0"

text \<open>C39: A peer can make the reader of its table read outside the buffer. The check on the number of caches
  counts summaries without their addresses, and the number of tensors of a summary is read before it is
  known that the summary lies in the buffer. A table of the full buffer size that announces two caches
  and whose first cache fills the rest makes the lookup read past the end.\<close>

theorem FindCacheEntry_reads_past_end:
  "length full_table = kCacheAccessTableBufferSize \<and>
   fst (FindCacheEntry c (SUCCESS, ACL_ERROR_NONE, full_table) request new_CacheAccessTable) = Crash"
proof -
  have len: "length full_table = kCacheAccessTableBufferSize" by (simp add: full_table_def kCacheAccessTableBufferSize_def)
  have "LoadFromBuffer full_table t = Crash" for t
    by (rule LoadFromBuffer_past_end [OF full_table_def]) (simp_all add: len kCacheAccessTableBufferSize_def)
  with len show ?thesis by (simp add: FindCacheEntry_def SyncFromRemote_def new_CacheAccessTable_def)
qed

text \<open>The shared buffer keeps the size of its first user: a reader without remote access that comes first
  makes the buffer of every later reader as small as a header.\<close>

lemma SharedDevBuffer_keeps_first_size:
  assumes "sdb_buffer sb = 0" "cat_dev_buffer t1 = 0" "cat_dev_buffer t2 = 0" "p \<noteq> 0"
    and "CacheAccessTable_Initialize (ACL_ERROR_NONE, p) (SUCCESS, h) False sb t1 = (s1, sb1, t1')"
    and "CacheAccessTable_Initialize m2 r2 True sb1 t2 = (s2, sb2, t2')"
  shows "s2 = SUCCESS" "cat_dev_buffer t2' = p" "cat_buffer_size t2' = kCacheAccessTableBufferSize" "sdb_size sb2 = sizeof_CacheTableHeader"
  using assms by (auto simp: CacheAccessTable_Initialize_def GetOrCreateBuffer_def Let_def)

text \<open>A node with one cache of two tensors, found by request 7.\<close>

definition demo_caches :: cache_list where "demo_caches = [(5, demo_entry)]"
definition demo_keys :: key_list where "demo_keys = [((7, 0), 5)]"

definition demo_updater :: CacheAccessTableUpdater where
  "demo_updater = \<lparr>upd_version_num = 0, upd_dev_buffer = 4096, upd_buffer_size = kCacheAccessTableBufferSize,
     upd_dev_mem = replicate kCacheAccessTableBufferSize 0\<rparr>"

theorem CacheTable_published_witness:
  "\<exists>u'. UpdateTableBuffer \<lparr>ACL_ERROR_RT_STREAM_SYNC_TIMEOUT = 507046, ACL_ERROR_RT_FEATURE_NOT_SUPPORT = 207000\<rparr>
       ACL_ERROR_NONE demo_caches demo_keys demo_updater = (Ok (), u') \<and>
     fst (FindCacheEntry \<lparr>ACL_ERROR_RT_STREAM_SYNC_TIMEOUT = 507046, ACL_ERROR_RT_FEATURE_NOT_SUPPORT = 207000\<rparr>
       (SUCCESS, ACL_ERROR_NONE, upd_dev_mem u') (demo_request CachePlacement_DEVICE) new_CacheAccessTable)
       = Ok (as_seen demo_entry)"
proof -
  have fit: "caches_fit demo_caches" "keys_fit demo_caches demo_keys"
    by (simp_all add: caches_fit_def keys_fit_def demo_caches_def demo_keys_def entry_fits_def demo_entry_def mem_type_of_def
        CachePlacement_DEVICE_def)
  have size: "table_size demo_caches demo_keys \<le> kCacheAccessTableBufferSize"
    by (simp add: table_size_def demo_caches_def demo_keys_def demo_entry_def kCacheAccessTableBufferSize_def)
  have "published demo_caches demo_keys (demo_request CachePlacement_DEVICE) = Ok (as_seen demo_entry)"
    by (simp add: published_def demo_request_def demo_caches_def demo_keys_def)
  then show ?thesis
    using CacheTable_published [OF fit size, of demo_updater new_CacheAccessTable
        "\<lparr>ACL_ERROR_RT_STREAM_SYNC_TIMEOUT = 507046, ACL_ERROR_RT_FEATURE_NOT_SUPPORT = 207000\<rparr>" "demo_request CachePlacement_DEVICE"]
    by (simp add: demo_updater_def new_CacheAccessTable_def)
qed

end
