(* ===== verification/Endpoint_Matcher.thy ===== *)
theory Endpoint_Matcher
  imports Hixl_Prelude "HOL-Library.Char_ord" "HOL-Library.List_Lexorder" "HOL-Library.Product_Lexorder"
begin

text \<open>
  The choice of the links between two engines: \<open>EndpointMatcher\<close>
  (\<open>src/src/hixl/engine/endpoint_matcher.cc\<close>, \<open>.h\<close>), which a client runs on its own endpoints and those it
  received from the server. All of it is modelled except logging: the rule tables, the search of one link
  by protocol and placement, the UB group with its device-to-device link, its links by placement and the
  loopback link, and the order in which rules are tried. Strings are compared as \<open>std::string\<close> does, and
  \<open>std::map\<close> is a list sorted by key.
\<close>

section \<open>Endpoints\<close>

record DeviceInfoConfig =
  phy_device_id :: int
  super_device_id :: int
  super_pod_id :: int
  dev_server_id :: int

record EndpointConfig =
  ep_protocol :: string
  ep_comm_id :: string
  ep_placement :: string
  ep_plane :: string
  ep_dst_eid :: string
  ep_net_instance_id :: string
  ep_server_id :: string
  ep_device_info :: DeviceInfoConfig

definition kProtocolRoce :: string where "kProtocolRoce = ''roce''"
definition kProtocolUbCtp :: string where "kProtocolUbCtp = ''ub_ctp''"
definition kProtocolHccs :: string where "kProtocolHccs = ''hccs''"
definition kProtocolUboe :: string where "kProtocolUboe = ''uboe''"
definition kProtocolUbRtp :: string where "kProtocolUbRtp = ''ub_rtp''"
definition kProtocolUbmem :: string where "kProtocolUbmem = ''ubmem''"
definition kPlacementDevice :: string where "kPlacementDevice = ''device''"
definition kPlacementHost :: string where "kPlacementHost = ''host''"

lemmas endpoint_names = kProtocolRoce_def kProtocolUbCtp_def kProtocolHccs_def kProtocolUboe_def kProtocolUbRtp_def
  kProtocolUbmem_def kPlacementDevice_def kPlacementHost_def

datatype CommType = COMM_TYPE_UB_D2D | COMM_TYPE_UB_H2D | COMM_TYPE_UB_D2H | COMM_TYPE_UB_H2H | COMM_TYPE_ROCE
  | COMM_TYPE_HCCS | COMM_TYPE_UBOE | COMM_TYPE_UBG | COMM_TYPE_UBMEM

datatype LinkType = PEER2NET | PEER2PEER

datatype HandlerType = DIRECT | UB

record EndpointPair =
  pair_local :: EndpointConfig
  pair_remote :: EndpointConfig
  pair_type :: CommType

section \<open>Keys and ordered maps\<close>

datatype MatchKey = MatchKey (key_dst_eid: string) (key_plane: string) (key_placement: string)

definition MatchKey_less :: "MatchKey \<Rightarrow> MatchKey \<Rightarrow> bool" where
  "MatchKey_less a b =
     (if key_dst_eid a \<noteq> key_dst_eid b then key_dst_eid a < key_dst_eid b
      else if key_plane a \<noteq> key_plane b then key_plane a < key_plane b
      else key_placement a < key_placement b)"

text \<open>\<open>operator<\<close> is a total order, as \<open>std::map\<close> needs.\<close>

instantiation MatchKey :: linorder
begin

definition less_MatchKey :: "MatchKey \<Rightarrow> MatchKey \<Rightarrow> bool" where
  "less_MatchKey = MatchKey_less"

definition less_eq_MatchKey :: "MatchKey \<Rightarrow> MatchKey \<Rightarrow> bool" where
  "less_eq_MatchKey a b \<longleftrightarrow> a = b \<or> MatchKey_less a b"

instance
  by standard (auto simp: less_MatchKey_def less_eq_MatchKey_def MatchKey_less_def MatchKey.expand split: if_splits)

end

definition Matches :: "MatchKey \<Rightarrow> MatchKey \<Rightarrow> bool" where
  "Matches key query =
     (if key_dst_eid key \<noteq> [] \<and> key_dst_eid query \<noteq> [] \<and> key_dst_eid key \<noteq> key_dst_eid query then False
      else if key_plane key \<noteq> key_plane query then False
      else key_placement key = key_placement query)"

text \<open>\<open>m[k] = v\<close> on a \<open>std::map\<close>.\<close>

fun ordered_assign :: "'k :: linorder \<Rightarrow> 'v \<Rightarrow> ('k \<times> 'v) list \<Rightarrow> ('k \<times> 'v) list" where
  "ordered_assign k v [] = [(k, v)]"
| "ordered_assign k v ((k', v') # m) =
     (if k < k' then (k, v) # (k', v') # m else if k = k' then (k, v) # m else (k', v') # ordered_assign k v m)"

text \<open>\<open>std::stable_sort\<close>.\<close>

fun insert_before :: "('a \<Rightarrow> 'a \<Rightarrow> bool) \<Rightarrow> 'a \<Rightarrow> 'a list \<Rightarrow> 'a list" where
  "insert_before lt x [] = [x]"
| "insert_before lt x (y # ys) = (if lt y x then y # insert_before lt x ys else x # y # ys)"

definition stable_sort :: "('a \<Rightarrow> 'a \<Rightarrow> bool) \<Rightarrow> 'a list \<Rightarrow> 'a list" where
  "stable_sort lt xs = foldr (insert_before lt) xs []"

section \<open>The matcher\<close>

definition EndpointLinkType :: "EndpointConfig \<Rightarrow> string" where
  "EndpointLinkType ep =
     (if ep_dst_eid ep \<noteq> [] then ''PEER2PEER'' else if ep_plane ep \<noteq> [] then ''PEER2NET'' else ''OTHER'')"

definition LinkTypeName :: "LinkType \<Rightarrow> string" where
  "LinkTypeName priority = (if priority = PEER2NET then ''PEER2NET'' else ''PEER2PEER'')"

definition LinkRank :: "EndpointConfig \<Rightarrow> LinkType \<Rightarrow> int" where
  "LinkRank ep priority =
     (let type = EndpointLinkType ep in
      if type = LinkTypeName priority then 0
      else if priority = PEER2NET \<and> type = ''OTHER'' then 2 else 1)"

definition ParseCommType :: "string \<Rightarrow> string \<Rightarrow> CommType" where
  "ParseCommType local remote =
     (if local = kPlacementDevice \<and> remote = kPlacementDevice then COMM_TYPE_UB_D2D
      else if local = kPlacementDevice \<and> remote = kPlacementHost then COMM_TYPE_UB_D2H
      else if local = kPlacementHost \<and> remote = kPlacementHost then COMM_TYPE_UB_H2H
      else COMM_TYPE_UB_H2D)"

definition IsUbProtocol :: "string \<Rightarrow> bool" where
  "IsUbProtocol protocol \<longleftrightarrow> protocol = kProtocolUbCtp"

definition IsUbCtpEndpoint :: "EndpointConfig \<Rightarrow> bool" where
  "IsUbCtpEndpoint ep \<longleftrightarrow> ep_protocol ep = kProtocolUbCtp"

definition AreUbCtpEndpointsAllDevice :: "EndpointConfig list \<Rightarrow> bool" where
  "AreUbCtpEndpointsAllDevice eps = list_all (\<lambda>ep. \<not> IsUbCtpEndpoint ep \<or> ep_placement ep = kPlacementDevice) eps"

type_synonym match_map = "(MatchKey \<times> EndpointConfig) list"

fun BuildMatchMap :: "EndpointConfig list \<Rightarrow> match_map \<Rightarrow> match_map" where
  "BuildMatchMap [] out = out"
| "BuildMatchMap (ep # eps) out =
     BuildMatchMap eps
       (if IsUbProtocol (ep_protocol ep)
        then ordered_assign (MatchKey (ep_dst_eid ep) (ep_plane ep) (ep_placement ep)) ep out else out)"

definition IsCrossInstance :: "EndpointConfig list \<Rightarrow> EndpointConfig list \<Rightarrow> bool" where
  "IsCrossInstance local remote \<longleftrightarrow> ep_net_instance_id (local ! 0) \<noteq> ep_net_instance_id (remote ! 0)"

fun FindMatchingKey :: "match_map \<Rightarrow> MatchKey \<Rightarrow> EndpointConfig option" where
  "FindMatchingKey [] query = None"
| "FindMatchingKey ((key, ep) # m) query = (if Matches key query then Some ep else FindMatchingKey m query)"

definition TryMatchSingle ::
  "EndpointConfig list \<Rightarrow> EndpointConfig list \<Rightarrow> string \<Rightarrow> string \<Rightarrow> CommType \<Rightarrow> EndpointPair list \<Rightarrow> EndpointPair list outcome" where
  "TryMatchSingle local remote protocol placement type pairs =
     (let is_matched = (\<lambda>ep. ep_protocol ep = protocol \<and> ep_placement ep = placement) in
      case (find is_matched local, find is_matched remote) of
        (Some l, Some r) \<Rightarrow> Ok (pairs @ [\<lparr>pair_local = l, pair_remote = r, pair_type = type\<rparr>])
      | _ \<Rightarrow> Err FAILED)"

text \<open>The directions that have a link already, the number of links, and the links.\<close>

type_synonym group_state = "(CommType \<Rightarrow> bool) \<times> nat \<times> EndpointPair list"

definition TryMatchUb_placement :: "EndpointConfig \<Rightarrow> match_map \<Rightarrow> string \<Rightarrow> group_state \<Rightarrow> group_state" where
  "TryMatchUb_placement local peers placement st =
     (case st of (expected, n, pairs) \<Rightarrow>
      case FindMatchingKey peers (MatchKey (ep_comm_id local) (ep_plane local) placement) of
        None \<Rightarrow> st
      | Some peer \<Rightarrow>
          let type = ParseCommType (ep_placement local) (ep_placement peer) in
          if \<not> expected type
          then (expected(type := True), add32 n 1, pairs @ [\<lparr>pair_local = local, pair_remote = peer, pair_type = type\<rparr>])
          else st)"

text \<open>\<open>TryMatchUb\<close> and \<open>TryMatchH2rHLoopback\<close> return \<open>SUCCESS\<close> on every path.\<close>

definition TryMatchUb :: "EndpointConfig \<Rightarrow> match_map \<Rightarrow> group_state \<Rightarrow> group_state" where
  "TryMatchUb local peers st =
     (if \<not> IsUbProtocol (ep_protocol local) then st
      else fold (TryMatchUb_placement local peers) [kPlacementDevice, kPlacementHost] st)"

definition is_loopback_peer :: "EndpointConfig \<Rightarrow> EndpointConfig \<Rightarrow> bool" where
  "is_loopback_peer local peer \<longleftrightarrow>
     IsUbProtocol (ep_protocol peer) \<and> ep_protocol peer = ep_protocol local \<and> ep_placement peer = kPlacementHost \<and>
     ep_plane peer = ep_plane local \<and> ep_server_id peer = ep_server_id local"

definition TryMatchH2rHLoopback :: "EndpointConfig \<Rightarrow> EndpointConfig list \<Rightarrow> group_state \<Rightarrow> group_state" where
  "TryMatchH2rHLoopback local remote st =
     (case st of (expected, n, pairs) \<Rightarrow>
      if \<not> IsUbProtocol (ep_protocol local) \<or> ep_placement local \<noteq> kPlacementHost \<or> ep_server_id local = [] \<or>
         expected COMM_TYPE_UB_H2H
      then st
      else case find (is_loopback_peer local) remote of
             None \<Rightarrow> st
           | Some peer \<Rightarrow>
               (expected(COMM_TYPE_UB_H2H := True), add32 n 1,
                pairs @ [\<lparr>pair_local = local\<lparr>ep_comm_id := ep_comm_id peer\<rparr>, pair_remote = peer, pair_type = COMM_TYPE_UB_H2H\<rparr>]))"

definition D2D_before :: "LinkType \<Rightarrow> EndpointConfig \<Rightarrow> EndpointConfig \<Rightarrow> bool" where
  "D2D_before priority a b =
     (let a_rank = LinkRank a priority; b_rank = LinkRank b priority in
      if a_rank \<noteq> b_rank then a_rank < b_rank else ep_plane a < ep_plane b)"

fun MatchD2D_loop :: "EndpointConfig list \<Rightarrow> match_map \<Rightarrow> EndpointPair list \<Rightarrow> EndpointPair list" where
  "MatchD2D_loop [] peers pairs = pairs"
| "MatchD2D_loop (ep # eps) peers pairs =
     (case FindMatchingKey peers (MatchKey (ep_comm_id ep) (ep_plane ep) kPlacementDevice) of
        None \<Rightarrow> MatchD2D_loop eps peers pairs
      | Some peer \<Rightarrow> pairs @ [\<lparr>pair_local = ep, pair_remote = peer, pair_type = COMM_TYPE_UB_D2D\<rparr>])"

definition MatchD2D :: "EndpointConfig list \<Rightarrow> match_map \<Rightarrow> LinkType \<Rightarrow> EndpointPair list \<Rightarrow> EndpointPair list" where
  "MatchD2D local peers priority pairs =
     (let candidates = filter (\<lambda>ep. IsUbCtpEndpoint ep \<and> ep_placement ep = kPlacementDevice) local
      in MatchD2D_loop (stable_sort (D2D_before priority) candidates) peers pairs)"

definition group_before :: "EndpointConfig \<Rightarrow> EndpointConfig \<Rightarrow> bool" where
  "group_before a b =
     (if (ep_dst_eid a = []) \<noteq> (ep_dst_eid b = []) then ep_dst_eid a \<noteq> [] else ep_plane a < ep_plane b)"

definition kMaxUbCsClientNum :: nat where "kMaxUbCsClientNum = 4"

fun TryMatchGroup_loop :: "EndpointConfig list \<Rightarrow> EndpointConfig list \<Rightarrow> match_map \<Rightarrow> group_state \<Rightarrow> EndpointPair list outcome" where
  "TryMatchGroup_loop [] remote peers st = (if fst (snd st) > 0 then Ok (snd (snd st)) else Err FAILED)"
| "TryMatchGroup_loop (ep # eps) remote peers st =
     (let st1 = TryMatchH2rHLoopback ep remote st in
      if fst (snd st1) = kMaxUbCsClientNum then Ok (snd (snd st1))
      else
        let st2 = TryMatchUb ep peers st1 in
        if fst (snd st2) = kMaxUbCsClientNum then Ok (snd (snd st2)) else TryMatchGroup_loop eps remote peers st2)"

definition TryMatchGroup ::
  "EndpointConfig list \<Rightarrow> EndpointConfig list \<Rightarrow> EndpointPair list \<Rightarrow> LinkType \<Rightarrow> EndpointPair list outcome" where
  "TryMatchGroup local remote pairs priority =
     (let expected = (\<lambda>type. False);
          peers = BuildMatchMap remote [];
          pairs1 = MatchD2D local peers priority pairs;
          n = u32 (length pairs1);
          expected1 = expected(COMM_TYPE_UB_D2D := True)
      in TryMatchGroup_loop (stable_sort group_before local) remote peers (expected1, n, pairs1))"

definition TryMatchUbCtpD2DOnlyByGroup ::
  "EndpointConfig list \<Rightarrow> EndpointConfig list \<Rightarrow> LinkType \<Rightarrow> EndpointPair list outcome" where
  "TryMatchUbCtpD2DOnlyByGroup local remote priority =
     (case TryMatchGroup local remote [] priority of
        Ok group_pairs \<Rightarrow>
          if length group_pairs \<noteq> 1 \<or> pair_type (group_pairs ! 0) \<noteq> COMM_TYPE_UB_D2D \<or>
             \<not> IsUbCtpEndpoint (pair_local (group_pairs ! 0)) \<or> \<not> IsUbCtpEndpoint (pair_remote (group_pairs ! 0))
          then Err FAILED else Ok group_pairs
      | Err s \<Rightarrow> Err FAILED
      | Crash \<Rightarrow> Crash)"

datatype MatchRuleType = GROUP | SINGLE

text \<open>A rule; a null protocol or placement is \<open>None\<close>. The text of the log message is left out.\<close>

record MatchRule =
  rule_type :: MatchRuleType
  rule_handler_type :: HandlerType
  rule_protocol :: "string option"
  rule_placement :: "string option"
  rule_comm_type :: CommType

definition single_rule :: "string \<Rightarrow> string \<Rightarrow> CommType \<Rightarrow> MatchRule" where
  "single_rule protocol placement type =
     \<lparr>rule_type = SINGLE, rule_handler_type = DIRECT, rule_protocol = Some protocol, rule_placement = Some placement,
      rule_comm_type = type\<rparr>"

definition kCrossInstanceRules :: "MatchRule list" where
  "kCrossInstanceRules =
     [single_rule kProtocolUboe kPlacementDevice COMM_TYPE_UBOE,
      single_rule kProtocolUbRtp kPlacementDevice COMM_TYPE_UBG,
      single_rule kProtocolRoce kPlacementDevice COMM_TYPE_ROCE,
      single_rule kProtocolRoce kPlacementHost COMM_TYPE_ROCE]"

definition kSameInstanceRules :: "MatchRule list" where
  "kSameInstanceRules =
     [single_rule kProtocolUbmem kPlacementDevice COMM_TYPE_UBMEM,
      \<lparr>rule_type = GROUP, rule_handler_type = UB, rule_protocol = None, rule_placement = None,
       rule_comm_type = COMM_TYPE_UB_D2D\<rparr>,
      single_rule kProtocolHccs kPlacementDevice COMM_TYPE_HCCS,
      single_rule kProtocolUboe kPlacementDevice COMM_TYPE_UBOE,
      single_rule kProtocolUbRtp kPlacementDevice COMM_TYPE_UBG,
      single_rule kProtocolRoce kPlacementDevice COMM_TYPE_ROCE,
      single_rule kProtocolRoce kPlacementHost COMM_TYPE_ROCE]"

definition kSameInstanceUbCtpDeviceOnlyRule :: MatchRule where
  "kSameInstanceUbCtpDeviceOnlyRule = single_rule kProtocolUbCtp kPlacementDevice COMM_TYPE_UB_D2D"

definition try_match_rule ::
  "EndpointConfig list \<Rightarrow> EndpointConfig list \<Rightarrow> LinkType \<Rightarrow> MatchRule \<Rightarrow> (EndpointPair list \<times> HandlerType) outcome" where
  "try_match_rule local remote priority rule =
     (let status =
        (case rule_type rule of
           GROUP \<Rightarrow> TryMatchGroup local remote [] priority
         | SINGLE \<Rightarrow>
             if rule_protocol rule = Some kProtocolUbCtp \<and> rule_comm_type rule = COMM_TYPE_UB_D2D
             then TryMatchUbCtpD2DOnlyByGroup local remote priority
             else (case (rule_protocol rule, rule_placement rule) of
                     (Some protocol, Some placement) \<Rightarrow>
                       TryMatchSingle local remote protocol placement (rule_comm_type rule) []
                   | _ \<Rightarrow> Crash))
      in case status of Ok pairs \<Rightarrow> Ok (pairs, rule_handler_type rule) | Err s \<Rightarrow> Err FAILED | Crash \<Rightarrow> Crash)"

fun try_match_rules ::
  "EndpointConfig list \<Rightarrow> EndpointConfig list \<Rightarrow> LinkType \<Rightarrow> MatchRule list \<Rightarrow> (EndpointPair list \<times> HandlerType) outcome" where
  "try_match_rules local remote priority [] = Err PARAM_INVALID"
| "try_match_rules local remote priority (rule # rules) =
     (case try_match_rule local remote priority rule of
        Err s \<Rightarrow> try_match_rules local remote priority rules
      | result \<Rightarrow> result)"

definition TryMatchByPriority ::
  "EndpointConfig list \<Rightarrow> EndpointConfig list \<Rightarrow> LinkType \<Rightarrow> (EndpointPair list \<times> HandlerType) outcome" where
  "TryMatchByPriority local remote priority =
     (let cross_instance = IsCrossInstance local remote;
          rules = (if cross_instance then kCrossInstanceRules else kSameInstanceRules)
      in if \<not> cross_instance \<and> AreUbCtpEndpointsAllDevice local \<and> AreUbCtpEndpointsAllDevice remote
         then (case try_match_rule local remote priority kSameInstanceUbCtpDeviceOnlyRule of
                 Err s \<Rightarrow> try_match_rules local remote priority rules
               | result \<Rightarrow> result)
         else try_match_rules local remote priority rules)"

text \<open>\<open>link_priority\<close> is the optional list of the configuration.\<close>

definition MatchEndpoints ::
  "EndpointConfig list \<Rightarrow> EndpointConfig list \<Rightarrow> LinkType list option \<Rightarrow> (EndpointPair list \<times> HandlerType) outcome" where
  "MatchEndpoints local remote link_priority =
     (let priority = (case link_priority of Some (p # ps) \<Rightarrow> p | _ \<Rightarrow> PEER2NET) in
      if local = [] \<or> remote = [] then Err PARAM_INVALID
      else TryMatchByPriority local remote priority)"


section \<open>Maps and sorting\<close>

lemma ordered_assign_keys: "fst ` set (ordered_assign k v m) = insert k (fst ` set m)"
  by (induction k v m rule: ordered_assign.induct) (simp_all add: insert_commute)

lemma ordered_assign_entries: "set (ordered_assign k v m) \<subseteq> insert (k, v) (set m)"
  by (induction m) (auto split: if_splits)

lemma insert_before_insort: "(\<And>a b. lt a b \<longleftrightarrow> f a < f b) \<Longrightarrow> insert_before lt x xs = insort_key f x xs"
  by (induction xs) auto

lemma stable_sort_sort_key: "(\<And>a b. lt a b \<longleftrightarrow> f a < f b) \<Longrightarrow> stable_sort lt xs = sort_key f xs"
  by (induction xs) (simp_all add: stable_sort_def insert_before_insort)

lemma D2D_before_key: "D2D_before priority a b \<longleftrightarrow> (LinkRank a priority, ep_plane a) < (LinkRank b priority, ep_plane b)"
  by (auto simp: D2D_before_def Let_def)

lemma group_before_key: "group_before a b \<longleftrightarrow> (ep_dst_eid a = [], ep_plane a) < (ep_dst_eid b = [], ep_plane b)"
  by (auto simp: group_before_def)

lemma set_group_sort: "set (stable_sort group_before xs) = set xs"
  unfolding stable_sort_sort_key [of group_before "\<lambda>a. (ep_dst_eid a = [], ep_plane a)", OF group_before_key] by simp

section \<open>Links\<close>

text \<open>Whether an endpoint of the peer may be linked from an endpoint with the given id: a side without
  an id accepts any.\<close>

definition eids_agree :: "EndpointConfig \<Rightarrow> string \<Rightarrow> bool" where
  "eids_agree peer comm_id \<longleftrightarrow> ep_dst_eid peer = [] \<or> comm_id = [] \<or> ep_dst_eid peer = comm_id"

definition ub_peer :: "string \<Rightarrow> string \<Rightarrow> string \<Rightarrow> EndpointConfig \<Rightarrow> bool" where
  "ub_peer comm_id plane placement r \<longleftrightarrow>
     ep_protocol r = kProtocolUbCtp \<and> ep_plane r = plane \<and> ep_placement r = placement \<and> eids_agree r comm_id"

abbreviation key_of :: "EndpointConfig \<Rightarrow> MatchKey" where
  "key_of ep \<equiv> MatchKey (ep_dst_eid ep) (ep_plane ep) (ep_placement ep)"

lemma Matches_key: "ep_protocol r = kProtocolUbCtp \<Longrightarrow> Matches (key_of r) (MatchKey c pl p) \<longleftrightarrow> ub_peer c pl p r"
  by (auto simp: Matches_def ub_peer_def eids_agree_def)

lemma BuildMatchMap_entries:
  "(k, r) \<in> set (BuildMatchMap eps out) \<Longrightarrow>
     (k, r) \<in> set out \<or> r \<in> set eps \<and> ep_protocol r = kProtocolUbCtp \<and> k = key_of r"
proof (induction eps arbitrary: out)
  case (Cons ep eps)
  then have "(k, r) \<in> set (BuildMatchMap eps (if IsUbProtocol (ep_protocol ep) then ordered_assign (key_of ep) ep out else out))"
    by simp
  from Cons.IH [OF this] show ?case
    using ordered_assign_entries [of "key_of ep" ep out] by (auto simp: IsUbProtocol_def split: if_splits)
qed simp

lemma BuildMatchMap_keys:
  "fst ` set (BuildMatchMap eps out) = fst ` set out \<union> key_of ` {r \<in> set eps. ep_protocol r = kProtocolUbCtp}"
  by (induction eps arbitrary: out) (auto simp: IsUbProtocol_def ordered_assign_keys)

lemma FindMatchingKey_Some: "FindMatchingKey m q = Some r \<Longrightarrow> \<exists>k. (k, r) \<in> set m \<and> Matches k q"
  by (induction m q rule: FindMatchingKey.induct) (auto split: if_splits)

lemma FindMatchingKey_None: "FindMatchingKey m q = None \<longleftrightarrow> (\<forall>k \<in> fst ` set m. \<not> Matches k q)"
  by (induction m q rule: FindMatchingKey.induct) auto

lemma peer_found:
  assumes "FindMatchingKey (BuildMatchMap remote []) (MatchKey c pl p) = Some r"
  shows "r \<in> set remote" "ub_peer c pl p r"
proof -
  obtain k where k: "(k, r) \<in> set (BuildMatchMap remote [])" "Matches k (MatchKey c pl p)"
    using FindMatchingKey_Some [OF assms] by blast
  with BuildMatchMap_entries [OF k(1)] show "r \<in> set remote" "ub_peer c pl p r" by (auto simp: Matches_key)
qed

lemma peer_not_found:
  "FindMatchingKey (BuildMatchMap remote []) (MatchKey c pl p) = None \<longleftrightarrow> (\<forall>r \<in> set remote. \<not> ub_peer c pl p r)"
  unfolding FindMatchingKey_None BuildMatchMap_keys using Matches_key by (auto simp: ub_peer_def)

section \<open>The device-to-device link\<close>

lemma MatchD2D_loop_first:
  assumes "sorted (map f eps)"
  shows "MatchD2D_loop eps peers pairs = pairs \<and>
      (\<forall>ep \<in> set eps. FindMatchingKey peers (MatchKey (ep_comm_id ep) (ep_plane ep) kPlacementDevice) = None) \<or>
    (\<exists>ep r. MatchD2D_loop eps peers pairs = pairs @ [\<lparr>pair_local = ep, pair_remote = r, pair_type = COMM_TYPE_UB_D2D\<rparr>] \<and>
      ep \<in> set eps \<and> FindMatchingKey peers (MatchKey (ep_comm_id ep) (ep_plane ep) kPlacementDevice) = Some r \<and>
      (\<forall>ep' \<in> set eps. FindMatchingKey peers (MatchKey (ep_comm_id ep') (ep_plane ep') kPlacementDevice) \<noteq> None \<longrightarrow> f ep \<le> f ep'))"
  using assms by (induction eps) (auto split: option.splits)

definition d2d_candidate :: "EndpointConfig list \<Rightarrow> EndpointConfig list \<Rightarrow> EndpointConfig \<Rightarrow> bool" where
  "d2d_candidate local remote l \<longleftrightarrow>
     l \<in> set local \<and> ep_protocol l = kProtocolUbCtp \<and> ep_placement l = kPlacementDevice \<and>
     (\<exists>r \<in> set remote. ub_peer (ep_comm_id l) (ep_plane l) kPlacementDevice r)"

lemma MatchD2D_best:
  "(MatchD2D local (BuildMatchMap remote []) priority [] = [] \<and> (\<forall>l. \<not> d2d_candidate local remote l)) \<or>
   (\<exists>l r. MatchD2D local (BuildMatchMap remote []) priority [] = [\<lparr>pair_local = l, pair_remote = r, pair_type = COMM_TYPE_UB_D2D\<rparr>] \<and>
     d2d_candidate local remote l \<and> r \<in> set remote \<and> ub_peer (ep_comm_id l) (ep_plane l) kPlacementDevice r \<and>
     (\<forall>l'. d2d_candidate local remote l' \<longrightarrow> LinkRank l priority \<le> LinkRank l' priority))"
proof -
  let ?f = "\<lambda>a. (LinkRank a priority, ep_plane a)"
  let ?c = "filter (\<lambda>ep. IsUbCtpEndpoint ep \<and> ep_placement ep = kPlacementDevice) local"
  have s: "stable_sort (D2D_before priority) ?c = sort_key ?f ?c"
    by (rule stable_sort_sort_key) (rule D2D_before_key)
  have cand: "d2d_candidate local remote l \<longleftrightarrow> l \<in> set ?c \<and>
      FindMatchingKey (BuildMatchMap remote []) (MatchKey (ep_comm_id l) (ep_plane l) kPlacementDevice) \<noteq> None" for l
    unfolding peer_not_found d2d_candidate_def by (auto simp: IsUbCtpEndpoint_def)
  have "sorted (map ?f (sort_key ?f ?c))" by simp
  note first = MatchD2D_loop_first [OF this, of "BuildMatchMap remote []" "[]"]
  have eq: "MatchD2D local (BuildMatchMap remote []) priority [] = MatchD2D_loop (sort_key ?f ?c) (BuildMatchMap remote []) []"
    by (simp add: MatchD2D_def s)
  from first show ?thesis
  proof (elim disjE exE conjE)
    fix l r
    assume a: "MatchD2D_loop (sort_key ?f ?c) (BuildMatchMap remote []) [] = [] @ [\<lparr>pair_local = l, pair_remote = r, pair_type = COMM_TYPE_UB_D2D\<rparr>]"
      "l \<in> set (sort_key ?f ?c)"
      "FindMatchingKey (BuildMatchMap remote []) (MatchKey (ep_comm_id l) (ep_plane l) kPlacementDevice) = Some r"
      "\<forall>l' \<in> set (sort_key ?f ?c). FindMatchingKey (BuildMatchMap remote [])
        (MatchKey (ep_comm_id l') (ep_plane l') kPlacementDevice) \<noteq> None \<longrightarrow> ?f l \<le> ?f l'"
    have "LinkRank l priority \<le> LinkRank l' priority" if "d2d_candidate local remote l'" for l'
    proof -
      have "?f l \<le> ?f l'" using that a(4) unfolding cand set_sort by blast
      then show ?thesis by auto
    qed
    moreover have "d2d_candidate local remote l" using a(2,3) unfolding cand set_sort by simp
    ultimately show ?thesis using a(1) peer_found [OF a(3)] unfolding eq by auto
  qed (auto simp: eq cand)
qed


section \<open>The group of links\<close>

text \<open>A link of the group: two UB endpoints on the same plane, with the type that their placements give.
  The local endpoint is one of the list and the peer accepts its id; or, for two host endpoints of the
  same server, it is a copy that takes over the id of the peer.\<close>

definition ub_link :: "EndpointConfig list \<Rightarrow> EndpointConfig list \<Rightarrow> EndpointPair \<Rightarrow> bool" where
  "ub_link local remote p \<longleftrightarrow>
     (let l = pair_local p; r = pair_remote p in
      r \<in> set remote \<and> ep_protocol l = kProtocolUbCtp \<and> ep_protocol r = kProtocolUbCtp \<and> ep_plane l = ep_plane r \<and>
      ep_placement r \<in> {kPlacementDevice, kPlacementHost} \<and> pair_type p = ParseCommType (ep_placement l) (ep_placement r) \<and>
      (l \<in> set local \<and> eids_agree r (ep_comm_id l) \<or>
       (\<exists>l0 \<in> set local. l = l0\<lparr>ep_comm_id := ep_comm_id r\<rparr> \<and> ep_placement l0 = kPlacementHost \<and>
          ep_placement r = kPlacementHost \<and> ep_server_id l0 \<noteq> [] \<and> ep_server_id l0 = ep_server_id r)))"

abbreviation links :: "group_state \<Rightarrow> EndpointPair list" where
  "links st \<equiv> snd (snd st)"

definition group_inv :: "EndpointConfig list \<Rightarrow> EndpointConfig list \<Rightarrow> group_state \<Rightarrow> bool" where
  "group_inv local remote st \<longleftrightarrow>
     fst (snd st) = length (links st) \<and> distinct (map pair_type (links st)) \<and> (\<forall>p \<in> set (links st). ub_link local remote p) \<and>
     fst st = (\<lambda>t. t = COMM_TYPE_UB_D2D \<or> t \<in> pair_type ` set (links st))"

definition ub_types :: "CommType list" where
  "ub_types = [COMM_TYPE_UB_D2D, COMM_TYPE_UB_H2D, COMM_TYPE_UB_D2H, COMM_TYPE_UB_H2H]"

lemma ParseCommType_ub: "ParseCommType a b \<in> set ub_types"
  by (simp add: ParseCommType_def ub_types_def)

lemma group_inv_size: "group_inv local remote st \<Longrightarrow> length (links st) \<le> 4"
proof -
  assume inv: "group_inv local remote st"
  then have "pair_type ` set (links st) \<subseteq> set ub_types"
    by (auto simp: group_inv_def ub_link_def Let_def ParseCommType_ub)
  then have "card (set (map pair_type (links st))) \<le> card (set ub_types)" by (intro card_mono) auto
  also have "\<dots> = 4" by (simp add: ub_types_def)
  finally show ?thesis using inv distinct_card [of "map pair_type (links st)"] by (simp add: group_inv_def)
qed

text \<open>Steps keep the links and add links of other directions; a step that leaves the group empty adds none.\<close>

definition grows :: "EndpointConfig list \<Rightarrow> EndpointConfig list \<Rightarrow> group_state \<Rightarrow> group_state \<Rightarrow> bool" where
  "grows local remote st st' \<longleftrightarrow>
     group_inv local remote st' \<and> set (links st) \<subseteq> set (links st') \<and>
     (\<forall>p \<in> set (links st') - set (links st). pair_type p \<noteq> COMM_TYPE_UB_D2D)"

lemma grows_refl: "group_inv local remote st \<Longrightarrow> grows local remote st st" by (simp add: grows_def)

lemma grows_trans: "grows local remote st1 st2 \<Longrightarrow> grows local remote st2 st3 \<Longrightarrow> grows local remote st1 st3"
  by (auto simp: grows_def)

lemma add_link:
  assumes "group_inv local remote (e, n, ps)" "\<not> e (pair_type p)" "ub_link local remote p"
  shows "grows local remote (e, n, ps) (e(pair_type p := True), add32 n 1, ps @ [p])"
proof -
  have "n \<le> 4" using group_inv_size [OF assms(1)] assms(1) by (simp add: group_inv_def)
  then have "add32 n 1 = n + 1" by (simp add: add32_def)
  then show ?thesis using assms by (auto simp: grows_def group_inv_def fun_eq_iff)
qed

lemma TryMatchUb_placement_step:
  assumes "group_inv local remote st" "l \<in> set local" "ep_protocol l = kProtocolUbCtp" "pl \<in> {kPlacementDevice, kPlacementHost}"
  defines "st' \<equiv> TryMatchUb_placement l (BuildMatchMap remote []) pl st"
  shows "grows local remote st st'"
    and "links st' = [] \<Longrightarrow> r \<in> set remote \<Longrightarrow> ub_peer (ep_comm_id l) (ep_plane l) pl r \<Longrightarrow>
      ParseCommType (ep_placement l) pl = COMM_TYPE_UB_D2D"
proof -
  obtain e n ps where st: "st = (e, n, ps)" by (cases st)
  let ?q = "FindMatchingKey (BuildMatchMap remote []) (MatchKey (ep_comm_id l) (ep_plane l) pl)"
  have "grows local remote st st' \<and> (links st' = [] \<longrightarrow> r \<in> set remote \<longrightarrow> ub_peer (ep_comm_id l) (ep_plane l) pl r \<longrightarrow>
      ParseCommType (ep_placement l) pl = COMM_TYPE_UB_D2D)" for r
  proof (cases ?q)
    case None
    then have "st' = st" by (simp add: st'_def st TryMatchUb_placement_def)
    with None assms(1) show ?thesis by (auto simp: grows_refl peer_not_found)
  next
    case (Some peer)
    note peer = peer_found [OF Some]
    then have same: "ep_placement peer = pl" by (simp add: ub_peer_def)
    let ?t = "ParseCommType (ep_placement l) pl"
    let ?p = "\<lparr>pair_local = l, pair_remote = peer, pair_type = ?t\<rparr>"
    have "ub_link local remote ?p" using assms(2-4) peer by (auto simp: ub_link_def ub_peer_def Let_def)
    then have "grows local remote st (e(?t := True), add32 n 1, ps @ [?p])" if "\<not> e ?t"
      using add_link [of local remote e n ps ?p] assms(1) that st by simp
    moreover have "st' = (if \<not> e ?t then (e(?t := True), add32 n 1, ps @ [?p]) else st)"
      by (simp add: st'_def st TryMatchUb_placement_def Some same Let_def)
    ultimately show ?thesis using assms(1) by (auto simp: st grows_refl group_inv_def)
  qed
  then show "grows local remote st st'"
    "links st' = [] \<Longrightarrow> r \<in> set remote \<Longrightarrow> ub_peer (ep_comm_id l) (ep_plane l) pl r \<Longrightarrow> ParseCommType (ep_placement l) pl = COMM_TYPE_UB_D2D"
    by blast+
qed

lemma TryMatchUb_step:
  assumes "group_inv local remote st" "l \<in> set local"
  defines "st' \<equiv> TryMatchUb l (BuildMatchMap remote []) st"
  shows "grows local remote st st'"
    and "links st' = [] \<Longrightarrow> ep_protocol l = kProtocolUbCtp \<Longrightarrow> r \<in> set remote \<Longrightarrow> pl \<in> {kPlacementDevice, kPlacementHost} \<Longrightarrow>
      ub_peer (ep_comm_id l) (ep_plane l) pl r \<Longrightarrow> ParseCommType (ep_placement l) pl = COMM_TYPE_UB_D2D"
proof -
  have "grows local remote st st' \<and> (ep_protocol l = kProtocolUbCtp \<longrightarrow> links st' = [] \<longrightarrow> r \<in> set remote \<longrightarrow>
      pl \<in> {kPlacementDevice, kPlacementHost} \<longrightarrow> ub_peer (ep_comm_id l) (ep_plane l) pl r \<longrightarrow>
      ParseCommType (ep_placement l) pl = COMM_TYPE_UB_D2D)" for r pl
  proof (cases "ep_protocol l = kProtocolUbCtp")
    case True
    define st1 where "st1 = TryMatchUb_placement l (BuildMatchMap remote []) kPlacementDevice st"
    have g1: "grows local remote st st1" unfolding st1_def by (rule TryMatchUb_placement_step(1) [OF assms(1,2) True]) simp
    then have inv: "group_inv local remote st1" by (simp add: grows_def)
    have st': "st' = TryMatchUb_placement l (BuildMatchMap remote []) kPlacementHost st1"
      using True by (simp add: st'_def TryMatchUb_def IsUbProtocol_def st1_def)
    have g2: "grows local remote st1 st'" unfolding st' by (rule TryMatchUb_placement_step(1) [OF inv assms(2) True]) simp
    then have "links st1 = []" if "links st' = []" using that by (simp add: grows_def)
    with grows_trans [OF g1 g2] show ?thesis
      using TryMatchUb_placement_step(2) [OF assms(1,2) True, of kPlacementDevice r, folded st1_def]
        TryMatchUb_placement_step(2) [OF inv assms(2) True, of kPlacementHost r, folded st'] by auto
  qed (simp add: st'_def TryMatchUb_def IsUbProtocol_def grows_refl assms(1))
  then show "grows local remote st st'"
    "links st' = [] \<Longrightarrow> ep_protocol l = kProtocolUbCtp \<Longrightarrow> r \<in> set remote \<Longrightarrow> pl \<in> {kPlacementDevice, kPlacementHost} \<Longrightarrow>
      ub_peer (ep_comm_id l) (ep_plane l) pl r \<Longrightarrow> ParseCommType (ep_placement l) pl = COMM_TYPE_UB_D2D"
    by blast+
qed

definition loopback_link :: "EndpointConfig \<Rightarrow> EndpointConfig \<Rightarrow> bool" where
  "loopback_link l r \<longleftrightarrow>
     ep_protocol l = kProtocolUbCtp \<and> ep_placement l = kPlacementHost \<and> ep_server_id l \<noteq> [] \<and> is_loopback_peer l r"

lemma TryMatchH2rHLoopback_step:
  assumes "group_inv local remote st" "l \<in> set local"
  defines "st' \<equiv> TryMatchH2rHLoopback l remote st"
  shows "grows local remote st st'"
    and "links st' = [] \<Longrightarrow> r \<in> set remote \<Longrightarrow> \<not> loopback_link l r"
proof -
  obtain e n ps where st: "st = (e, n, ps)" by (cases st)
  let ?skip = "\<not> IsUbProtocol (ep_protocol l) \<or> ep_placement l \<noteq> kPlacementHost \<or> ep_server_id l = [] \<or> e COMM_TYPE_UB_H2H"
  have "grows local remote st st' \<and> (links st' = [] \<longrightarrow> r \<in> set remote \<longrightarrow> \<not> loopback_link l r)" for r
  proof (cases ?skip)
    case True
    then have "st' = st" by (simp add: st'_def st TryMatchH2rHLoopback_def)
    with True assms(1) show ?thesis by (auto simp: grows_refl group_inv_def st loopback_link_def IsUbProtocol_def)
  next
    case False
    note go = False
    show ?thesis
    proof (cases "find (is_loopback_peer l) remote")
      case None
      with go have "st' = st" by (simp add: st'_def st TryMatchH2rHLoopback_def)
      with None assms(1) show ?thesis by (auto simp: grows_refl find_None_iff loopback_link_def)
    next
      case (Some peer)
      then have peer: "peer \<in> set remote" "is_loopback_peer l peer" by (auto simp: find_Some_iff)
      let ?p = "\<lparr>pair_local = l\<lparr>ep_comm_id := ep_comm_id peer\<rparr>, pair_remote = peer, pair_type = COMM_TYPE_UB_H2H\<rparr>"
      have "ub_link local remote ?p" using go peer assms(2)
        by (auto simp: ub_link_def Let_def is_loopback_peer_def IsUbProtocol_def ParseCommType_def endpoint_names)
      then have "grows local remote st (e(COMM_TYPE_UB_H2H := True), add32 n 1, ps @ [?p])"
        using add_link [of local remote e n ps ?p] assms(1) go st by simp
      moreover have "st' = (e(COMM_TYPE_UB_H2H := True), add32 n 1, ps @ [?p])"
        using go Some by (simp add: st'_def st TryMatchH2rHLoopback_def)
      ultimately show ?thesis by simp
    qed
  qed
  then show "grows local remote st st'" "links st' = [] \<Longrightarrow> r \<in> set remote \<Longrightarrow> \<not> loopback_link l r" by blast+
qed


text \<open>An endpoint that finds no peer, except for a device-to-device link, which is not searched here.\<close>

definition unlinked :: "EndpointConfig list \<Rightarrow> EndpointConfig \<Rightarrow> bool" where
  "unlinked remote l \<longleftrightarrow>
     (\<forall>r \<in> set remote. \<not> loopback_link l r \<and>
        (\<forall>pl \<in> {kPlacementDevice, kPlacementHost}. ep_protocol l = kProtocolUbCtp \<and> ub_peer (ep_comm_id l) (ep_plane l) pl r \<longrightarrow>
           ParseCommType (ep_placement l) pl = COMM_TYPE_UB_D2D))"

lemma TryMatchGroup_step:
  assumes "group_inv local remote st" "l \<in> set local"
  defines "st1 \<equiv> TryMatchH2rHLoopback l remote st"
  defines "st2 \<equiv> TryMatchUb l (BuildMatchMap remote []) st1"
  shows "grows local remote st st1" "grows local remote st st2" "links st2 = [] \<Longrightarrow> links st = [] \<and> unlinked remote l"
proof -
  show g1: "grows local remote st st1" unfolding st1_def by (rule TryMatchH2rHLoopback_step(1) [OF assms(1,2)])
  then have i1: "group_inv local remote st1" by (simp add: grows_def)
  have g2: "grows local remote st1 st2" unfolding st2_def by (rule TryMatchUb_step(1) [OF i1 assms(2)])
  show "grows local remote st st2" by (rule grows_trans [OF g1 g2])
  assume e: "links st2 = []"
  with g1 g2 have "links st1 = []" "links st = []" by (simp_all add: grows_def)
  with e show "links st = [] \<and> unlinked remote l"
    using TryMatchH2rHLoopback_step(2) [OF assms(1,2), folded st1_def] TryMatchUb_step(2) [OF i1 assms(2), folded st2_def]
    unfolding unlinked_def by blast
qed

text \<open>What the group gives: links of pairwise different directions that keep those there were, or no link
  at all, when no endpoint finds a peer.\<close>

lemma TryMatchGroup_loop_result:
  assumes "group_inv local remote st" "set eps \<subseteq> set local"
  shows "(\<exists>st'. TryMatchGroup_loop eps remote (BuildMatchMap remote []) st = Ok (links st') \<and> links st' \<noteq> [] \<and> grows local remote st st') \<or>
    (TryMatchGroup_loop eps remote (BuildMatchMap remote []) st = Err FAILED \<and> links st = [] \<and> (\<forall>l \<in> set eps. unlinked remote l))"
  using assms
proof (induction eps arbitrary: st)
  case Nil
  then have "fst (snd st) = length (links st)" by (simp add: group_inv_def)
  then show ?case using grows_refl [OF Nil(1)]
    by (cases "links st = []") (simp, metis TryMatchGroup_loop.simps(1) length_greater_0_conv)
next
  case (Cons l eps)
  then have l: "l \<in> set local" "set eps \<subseteq> set local" by simp_all
  define st1 where "st1 = TryMatchH2rHLoopback l remote st"
  define st2 where "st2 = TryMatchUb l (BuildMatchMap remote []) st1"
  note step = TryMatchGroup_step [OF Cons.prems(1) l(1), folded st1_def, folded st2_def]
  then have i: "group_inv local remote st1" "group_inv local remote st2" by (simp_all add: grows_def)
  have full: "links s \<noteq> []" if "group_inv local remote s" "fst (snd s) = kMaxUbCsClientNum" for s
    using that by (auto simp: group_inv_def kMaxUbCsClientNum_def)
  have unfold: "TryMatchGroup_loop (l # eps) remote (BuildMatchMap remote []) st =
      (if fst (snd st1) = kMaxUbCsClientNum then Ok (links st1)
       else if fst (snd st2) = kMaxUbCsClientNum then Ok (links st2)
       else TryMatchGroup_loop eps remote (BuildMatchMap remote []) st2)"
    by (simp add: st1_def st2_def Let_def)
  show ?case
  proof (cases "fst (snd st1) = kMaxUbCsClientNum \<or> fst (snd st2) = kMaxUbCsClientNum")
    case True
    then have "\<exists>s. TryMatchGroup_loop (l # eps) remote (BuildMatchMap remote []) st = Ok (links s) \<and>
        fst (snd s) = kMaxUbCsClientNum \<and> (s = st1 \<or> s = st2)"
      unfolding unfold by (cases "fst (snd st1) = kMaxUbCsClientNum") (metis, metis)
    then show ?thesis using full i step(1,2) by blast
  next
    case False
    then have eq: "TryMatchGroup_loop (l # eps) remote (BuildMatchMap remote []) st = TryMatchGroup_loop eps remote (BuildMatchMap remote []) st2"
      unfolding unfold by simp
    from Cons.IH [OF i(2) l(2)] show ?thesis unfolding eq
      using grows_trans [OF step(2)] step(3) by (metis set_ConsD)
  qed
qed

definition ub_connectable :: "EndpointConfig \<Rightarrow> EndpointConfig \<Rightarrow> bool" where
  "ub_connectable l r \<longleftrightarrow>
     ep_protocol l = kProtocolUbCtp \<and>
     ((\<exists>pl \<in> {kPlacementDevice, kPlacementHost}. ub_peer (ep_comm_id l) (ep_plane l) pl r) \<or> loopback_link l r)"

definition best_d2d :: "EndpointConfig list \<Rightarrow> EndpointConfig list \<Rightarrow> LinkType \<Rightarrow> EndpointPair list \<Rightarrow> bool" where
  "best_d2d local remote priority pairs \<longleftrightarrow>
     (\<forall>l'. d2d_candidate local remote l' \<longrightarrow>
        (\<exists>p \<in> set pairs. pair_type p = COMM_TYPE_UB_D2D \<and> LinkRank (pair_local p) priority \<le> LinkRank l' priority))"

lemma ub_link_connectable: "ub_link local remote p \<Longrightarrow> \<exists>l \<in> set local. \<exists>r \<in> set remote. ub_connectable l r"
proof -
  let ?l = "pair_local p" and ?r = "pair_remote p"
  assume p: "ub_link local remote p"
  then consider "?l \<in> set local" "eids_agree ?r (ep_comm_id ?l)"
    | l where "l \<in> set local" "?l = l\<lparr>ep_comm_id := ep_comm_id ?r\<rparr>" "ep_placement l = kPlacementHost"
        "ep_placement ?r = kPlacementHost" "ep_server_id l \<noteq> []" "ep_server_id l = ep_server_id ?r"
    unfolding ub_link_def Let_def by blast
  then show ?thesis
  proof cases
    case 1
    then have "ub_connectable ?l ?r" using p by (auto simp: ub_link_def Let_def ub_connectable_def ub_peer_def)
    with 1 p show ?thesis unfolding ub_link_def Let_def by blast
  next
    case (2 l)
    have "ep_protocol ?l = kProtocolUbCtp" "ep_protocol ?r = kProtocolUbCtp" "ep_plane ?l = ep_plane ?r" "?r \<in> set remote"
      using p unfolding ub_link_def Let_def by blast+
    with 2(2-6) have "ub_connectable l ?r"
      by (simp add: ub_connectable_def loopback_link_def is_loopback_peer_def IsUbProtocol_def)
    with 2(1) \<open>?r \<in> set remote\<close> show ?thesis by blast
  qed
qed

lemma TryMatchGroup_result:
  "(\<exists>pairs. TryMatchGroup local remote [] priority = Ok pairs \<and> pairs \<noteq> [] \<and> length pairs \<le> 4 \<and> distinct (map pair_type pairs) \<and>
      (\<forall>p \<in> set pairs. ub_link local remote p) \<and> best_d2d local remote priority pairs) \<or>
   (TryMatchGroup local remote [] priority = Err FAILED \<and> (\<forall>l \<in> set local. \<forall>r \<in> set remote. \<not> ub_connectable l r))"
proof -
  define ps where "ps = MatchD2D local (BuildMatchMap remote []) priority []"
  let ?st = "((\<lambda>type. False)(COMM_TYPE_UB_D2D := True), u32 (length ps), ps)"
  have best: "best_d2d local remote priority ps" using MatchD2D_best [of local remote priority, folded ps_def]
    by (auto simp: best_d2d_def)
  have inv: "group_inv local remote ?st" using MatchD2D_best [of local remote priority, folded ps_def]
    by (auto simp: group_inv_def u32_def ub_link_def Let_def d2d_candidate_def ub_peer_def ParseCommType_def fun_eq_iff)
  have run: "TryMatchGroup local remote [] priority = TryMatchGroup_loop (stable_sort group_before local) remote (BuildMatchMap remote []) ?st"
    by (simp add: TryMatchGroup_def ps_def Let_def)
  from TryMatchGroup_loop_result [OF inv, of "stable_sort group_before local", unfolded set_group_sort, OF order_refl] show ?thesis
  proof (elim disjE exE conjE)
    fix st'
    assume a: "TryMatchGroup_loop (stable_sort group_before local) remote (BuildMatchMap remote []) ?st = Ok (links st')"
      "links st' \<noteq> []" "grows local remote ?st st'"
    have "group_inv local remote st'" "set ps \<subseteq> set (links st')" using a(3) by (simp_all add: grows_def)
    moreover have "best_d2d local remote priority (links st')" using best calculation(2) unfolding best_d2d_def by blast
    ultimately have "distinct (map pair_type (links st'))" "\<forall>p \<in> set (links st'). ub_link local remote p"
      "length (links st') \<le> 4" "best_d2d local remote priority (links st')"
      using group_inv_size [of local remote st'] by (simp_all add: group_inv_def)
    with a(1,2) show ?thesis unfolding run by blast
  next
    assume b: "TryMatchGroup_loop (stable_sort group_before local) remote (BuildMatchMap remote []) ?st = Err FAILED"
      "links ?st = []"
      "\<forall>l \<in> set local. unlinked remote l"
    have "\<not> d2d_candidate local remote l" for l using best b(2) by (auto simp: best_d2d_def)
    with b(3) have "\<forall>l \<in> set local. \<forall>r \<in> set remote. \<not> ub_connectable l r"
      by (auto simp: unlinked_def ub_connectable_def d2d_candidate_def ParseCommType_def split: if_splits)
    with b(1) show ?thesis unfolding run by blast
  qed
qed


section \<open>The rules\<close>

definition offers :: "EndpointConfig list \<Rightarrow> string \<times> string \<Rightarrow> bool" where
  "offers eps link \<longleftrightarrow> (\<exists>ep \<in> set eps. (ep_protocol ep, ep_placement ep) = link)"

text \<open>The links by protocol and placement, with their type; the first two are for engines of the same
  instance only.\<close>

definition same_instance_links :: "(string \<times> string \<times> CommType) list" where
  "same_instance_links = [(kProtocolUbmem, kPlacementDevice, COMM_TYPE_UBMEM), (kProtocolHccs, kPlacementDevice, COMM_TYPE_HCCS)]"

definition any_instance_links :: "(string \<times> string \<times> CommType) list" where
  "any_instance_links = [(kProtocolUboe, kPlacementDevice, COMM_TYPE_UBOE), (kProtocolUbRtp, kPlacementDevice, COMM_TYPE_UBG),
     (kProtocolRoce, kPlacementDevice, COMM_TYPE_ROCE), (kProtocolRoce, kPlacementHost, COMM_TYPE_ROCE)]"

definition single_links :: "EndpointConfig list \<Rightarrow> EndpointConfig list \<Rightarrow> (string \<times> string \<times> CommType) list" where
  "single_links local remote = (if IsCrossInstance local remote then [] else same_instance_links) @ any_instance_links"

definition single_link :: "EndpointConfig list \<Rightarrow> EndpointConfig list \<Rightarrow> string \<times> string \<times> CommType \<Rightarrow> EndpointPair \<Rightarrow> bool" where
  "single_link local remote link p \<longleftrightarrow>
     pair_local p \<in> set local \<and> pair_remote p \<in> set remote \<and>
     (ep_protocol (pair_local p), ep_placement (pair_local p), pair_type p) = link \<and>
     (ep_protocol (pair_remote p), ep_placement (pair_remote p), pair_type p) = link"

lemma find_offers:
  "(\<exists>ep. find (\<lambda>ep. ep_protocol ep = protocol \<and> ep_placement ep = pl) eps = Some ep \<and> ep \<in> set eps \<and>
      ep_protocol ep = protocol \<and> ep_placement ep = pl) \<and> offers eps (protocol, pl) \<or>
   find (\<lambda>ep. ep_protocol ep = protocol \<and> ep_placement ep = pl) eps = None \<and> \<not> offers eps (protocol, pl)"
  by (induction eps) (auto simp: offers_def)

lemma single_rule_result:
  assumes "protocol \<noteq> kProtocolUbCtp"
  shows "(\<exists>p. try_match_rule local remote priority (single_rule protocol pl type) = Ok ([p], DIRECT) \<and>
      single_link local remote (protocol, pl, type) p) \<and> offers local (protocol, pl) \<and> offers remote (protocol, pl) \<or>
    try_match_rule local remote priority (single_rule protocol pl type) = Err FAILED \<and>
      \<not> (offers local (protocol, pl) \<and> offers remote (protocol, pl))"
  using find_offers [of protocol pl local] find_offers [of protocol pl remote] assms
  by (auto simp: try_match_rule_def single_rule_def TryMatchSingle_def single_link_def)

text \<open>The links that a match may consist of.\<close>

definition valid_match :: "EndpointConfig list \<Rightarrow> EndpointConfig list \<Rightarrow> LinkType \<Rightarrow> EndpointPair list \<times> HandlerType \<Rightarrow> bool" where
  "valid_match local remote priority result \<longleftrightarrow>
     (case result of
        (pairs, DIRECT) \<Rightarrow>
          \<exists>p. pairs = [p] \<and>
            ((\<exists>link \<in> set (single_links local remote). single_link local remote link p) \<or>
             \<not> IsCrossInstance local remote \<and> ub_link local remote p \<and> pair_type p = COMM_TYPE_UB_D2D \<and>
               best_d2d local remote priority pairs)
      | (pairs, UB) \<Rightarrow>
          \<not> IsCrossInstance local remote \<and> pairs \<noteq> [] \<and> length pairs \<le> 4 \<and> distinct (map pair_type pairs) \<and>
          (\<forall>p \<in> set pairs. ub_link local remote p) \<and> best_d2d local remote priority pairs)"

definition connectable :: "EndpointConfig list \<Rightarrow> EndpointConfig list \<Rightarrow> bool" where
  "connectable local remote \<longleftrightarrow>
     (\<exists>(protocol, pl, type) \<in> set (single_links local remote). offers local (protocol, pl) \<and> offers remote (protocol, pl)) \<or>
     \<not> IsCrossInstance local remote \<and> (\<exists>l \<in> set local. \<exists>r \<in> set remote. ub_connectable l r)"

text \<open>A rule either gives a valid match, or fails, and then what it looks for is not there.\<close>

definition rule_good :: "EndpointConfig list \<Rightarrow> EndpointConfig list \<Rightarrow> LinkType \<Rightarrow> MatchRule \<Rightarrow> bool \<Rightarrow> bool" where
  "rule_good local remote priority rule there \<longleftrightarrow>
     (\<exists>result. try_match_rule local remote priority rule = Ok result \<and> valid_match local remote priority result \<and> there) \<or>
     try_match_rule local remote priority rule = Err FAILED \<and> \<not> there"

lemma single_rule_good:
  assumes "(protocol, pl, type) \<in> set (single_links local remote)"
  shows "rule_good local remote priority (single_rule protocol pl type) (offers local (protocol, pl) \<and> offers remote (protocol, pl))"
proof -
  have "protocol \<noteq> kProtocolUbCtp" using assms
    by (auto simp: single_links_def same_instance_links_def any_instance_links_def endpoint_names split: if_splits)
  from single_rule_result [OF this, of local remote priority pl type] show ?thesis
    using assms by (auto simp: rule_good_def valid_match_def)
qed

definition group_rule :: MatchRule where
  "group_rule = \<lparr>rule_type = GROUP, rule_handler_type = UB, rule_protocol = None, rule_placement = None, rule_comm_type = COMM_TYPE_UB_D2D\<rparr>"

lemma group_rule_good:
  assumes "\<not> IsCrossInstance local remote"
  shows "rule_good local remote priority group_rule (\<exists>l \<in> set local. \<exists>r \<in> set remote. ub_connectable l r)"
  using TryMatchGroup_result [of local remote priority]
proof (elim disjE exE conjE)
  fix pairs
  assume a: "TryMatchGroup local remote [] priority = Ok pairs" "pairs \<noteq> []" "length pairs \<le> 4" "distinct (map pair_type pairs)"
    "\<forall>p \<in> set pairs. ub_link local remote p" "best_d2d local remote priority pairs"
  then have "\<exists>l \<in> set local. \<exists>r \<in> set remote. ub_connectable l r" by (meson list.set_sel(1) ub_link_connectable)
  with a assms show ?thesis by (simp add: rule_good_def valid_match_def try_match_rule_def group_rule_def)
qed (auto simp: rule_good_def try_match_rule_def group_rule_def)

lemma device_only_rule:
  assumes "\<not> IsCrossInstance local remote"
  shows "(\<exists>result. try_match_rule local remote priority kSameInstanceUbCtpDeviceOnlyRule = Ok result \<and>
      valid_match local remote priority result \<and> connectable local remote) \<or>
    try_match_rule local remote priority kSameInstanceUbCtpDeviceOnlyRule = Err FAILED"
  using TryMatchGroup_result [of local remote priority]
proof (elim disjE exE conjE)
  fix pairs
  assume a: "TryMatchGroup local remote [] priority = Ok pairs" "\<forall>p \<in> set pairs. ub_link local remote p"
    "best_d2d local remote priority pairs"
  show ?thesis
  proof (cases "length pairs = 1 \<and> pair_type (pairs ! 0) = COMM_TYPE_UB_D2D")
    case True
    then obtain p where p: "pairs = [p]" by (auto simp: length_Suc_conv)
    with a(2) have "connectable local remote" using ub_link_connectable assms by (simp add: connectable_def)
    with a p True assms show ?thesis
      by (auto simp: try_match_rule_def kSameInstanceUbCtpDeviceOnlyRule_def single_rule_def TryMatchUbCtpD2DOnlyByGroup_def
          valid_match_def ub_link_def Let_def IsUbCtpEndpoint_def)
  qed (use a(1) in \<open>auto simp: try_match_rule_def kSameInstanceUbCtpDeviceOnlyRule_def single_rule_def TryMatchUbCtpD2DOnlyByGroup_def\<close>)
qed (auto simp: try_match_rule_def kSameInstanceUbCtpDeviceOnlyRule_def single_rule_def TryMatchUbCtpD2DOnlyByGroup_def)

lemma try_match_rules_good:
  assumes "list_all2 (rule_good local remote priority) rules there"
  shows "(\<exists>result. try_match_rules local remote priority rules = Ok result \<and> valid_match local remote priority result \<and> (\<exists>t \<in> set there. t)) \<or>
    try_match_rules local remote priority rules = Err PARAM_INVALID \<and> (\<forall>t \<in> set there. \<not> t)"
  using assms by (induction rules there rule: list_all2_induct) (auto simp: rule_good_def)

lemma TryMatchByPriority_result:
  "(\<exists>result. TryMatchByPriority local remote priority = Ok result \<and> valid_match local remote priority result \<and> connectable local remote) \<or>
   TryMatchByPriority local remote priority = Err PARAM_INVALID \<and> \<not> connectable local remote"
proof -
  let ?rules = "if IsCrossInstance local remote then kCrossInstanceRules else kSameInstanceRules"
  let ?both = "\<lambda>protocol pl. offers local (protocol, pl) \<and> offers remote (protocol, pl)"
  let ?ub = "\<exists>l \<in> set local. \<exists>r \<in> set remote. ub_connectable l r"
  let ?any = "[?both kProtocolUboe kPlacementDevice, ?both kProtocolUbRtp kPlacementDevice, ?both kProtocolRoce kPlacementDevice,
      ?both kProtocolRoce kPlacementHost]"
  let ?there = "if IsCrossInstance local remote then ?any
    else [?both kProtocolUbmem kPlacementDevice, ?ub, ?both kProtocolHccs kPlacementDevice] @ ?any"
  have "list_all2 (rule_good local remote priority) ?rules ?there"
    using group_rule_good [of local remote priority] single_rule_good [of _ _ _ local remote priority]
    by (simp add: kCrossInstanceRules_def kSameInstanceRules_def single_links_def same_instance_links_def any_instance_links_def
        group_rule_def)
  from try_match_rules_good [OF this]
  have "(\<exists>result. try_match_rules local remote priority ?rules = Ok result \<and> valid_match local remote priority result \<and> connectable local remote) \<or>
      try_match_rules local remote priority ?rules = Err PARAM_INVALID \<and> \<not> connectable local remote"
    by (auto simp: connectable_def single_links_def same_instance_links_def any_instance_links_def split: if_splits)
  then show ?thesis using device_only_rule [of local remote priority]
    unfolding TryMatchByPriority_def Let_def by (cases "IsCrossInstance local remote") auto
qed

definition priority_of :: "LinkType list option \<Rightarrow> LinkType" where
  "priority_of link_priority = (case link_priority of Some (p # ps) \<Rightarrow> p | _ \<Rightarrow> PEER2NET)"

text \<open>C19: Whatever \<open>MatchEndpoints\<close> selects is a valid set of links. A direct handler gets one link between two
  endpoints of the same protocol and placement, of a protocol that the instances of the engines allow, or
  one UB device-to-device link. A UB handler gets one to four links of different directions, each between
  UB endpoints on one plane with matching ids and the type that their placements give; and if any
  device-to-device link is possible, the match has one whose link type ranks first under the configured
  priority.\<close>

theorem MatchEndpoints_valid:
  "MatchEndpoints local remote link_priority = Ok result \<Longrightarrow> valid_match local remote (priority_of link_priority) result"
  using TryMatchByPriority_result [of local remote "priority_of link_priority"]
  by (auto simp: MatchEndpoints_def priority_of_def Let_def split: if_splits)

text \<open>C20: \<open>MatchEndpoints\<close> finds links whenever there are any. It succeeds if both sides offer a common
  protocol and placement that their instances allow, or if a UB link is possible between engines of one
  instance, and it returns \<open>PARAM_INVALID\<close> in all other cases; it never crashes.\<close>

theorem MatchEndpoints_complete:
  "if local \<noteq> [] \<and> remote \<noteq> [] \<and> connectable local remote
   then \<exists>result. MatchEndpoints local remote link_priority = Ok result
   else MatchEndpoints local remote link_priority = Err PARAM_INVALID"
  using TryMatchByPriority_result [of local remote "priority_of link_priority"]
  by (auto simp: MatchEndpoints_def priority_of_def Let_def)

text \<open>A device and a host endpoint on each side, on one plane.\<close>

definition demo_ep :: "string \<Rightarrow> string \<Rightarrow> EndpointConfig" where
  "demo_ep comm_id pl = \<lparr>ep_protocol = kProtocolUbCtp, ep_comm_id = comm_id, ep_placement = pl, ep_plane = ''p'',
     ep_dst_eid = [], ep_net_instance_id = ''i'', ep_server_id = [],
     ep_device_info = \<lparr>phy_device_id = 0, super_device_id = 0, super_pod_id = 0, dev_server_id = 0\<rparr>\<rparr>"

definition demo_local :: "EndpointConfig list" where
  "demo_local = [demo_ep ''a'' kPlacementDevice]"

definition demo_remote :: "EndpointConfig list" where
  "demo_remote = [demo_ep ''b'' kPlacementDevice, demo_ep ''c'' kPlacementHost]"

definition demo_pair :: "string \<Rightarrow> string \<Rightarrow> CommType \<Rightarrow> EndpointPair" where
  "demo_pair comm_id pl type = \<lparr>pair_local = demo_ep ''a'' kPlacementDevice, pair_remote = demo_ep comm_id pl, pair_type = type\<rparr>"

lemma demo_names: "kPlacementDevice \<noteq> kPlacementHost" "kProtocolUbCtp \<noteq> kProtocolUbmem" by (simp_all add: endpoint_names)

lemma demo_match:
  "MatchEndpoints demo_local demo_remote None
    = Ok ([demo_pair ''b'' kPlacementDevice COMM_TYPE_UB_D2D, demo_pair ''c'' kPlacementHost COMM_TYPE_UB_D2H], UB)"
proof -
  have less: "MatchKey [] ''p'' kPlacementDevice < MatchKey [] ''p'' kPlacementHost"
    by (simp add: less_MatchKey_def MatchKey_less_def endpoint_names)
  have "BuildMatchMap demo_remote [] = [(MatchKey [] ''p'' kPlacementDevice, demo_ep ''b'' kPlacementDevice),
      (MatchKey [] ''p'' kPlacementHost, demo_ep ''c'' kPlacementHost)]"
    using less demo_names by (simp add: demo_remote_def demo_ep_def IsUbProtocol_def)
  then have "TryMatchGroup demo_local demo_remote [] PEER2NET
      = Ok [demo_pair ''b'' kPlacementDevice COMM_TYPE_UB_D2D, demo_pair ''c'' kPlacementHost COMM_TYPE_UB_D2H]"
    using demo_names by (simp add: TryMatchGroup_def MatchD2D_def demo_local_def demo_ep_def IsUbCtpEndpoint_def stable_sort_def
        Matches_def TryMatchH2rHLoopback_def TryMatchUb_def TryMatchUb_placement_def IsUbProtocol_def ParseCommType_def
        kMaxUbCsClientNum_def add32_def u32_def demo_pair_def Let_def)
  moreover have "\<not> IsCrossInstance demo_local demo_remote" "\<not> AreUbCtpEndpointsAllDevice demo_remote"
    using demo_names by (simp_all add: IsCrossInstance_def AreUbCtpEndpointsAllDevice_def IsUbCtpEndpoint_def demo_local_def demo_remote_def demo_ep_def)
  moreover have "find (\<lambda>ep. ep_protocol ep = kProtocolUbmem \<and> ep_placement ep = pl) demo_local = None" for pl
    using demo_names by (simp add: demo_local_def demo_ep_def)
  moreover have "demo_local \<noteq> []" "demo_remote \<noteq> []" by (simp_all add: demo_local_def demo_remote_def)
  ultimately show ?thesis using demo_names
    by (simp add: MatchEndpoints_def TryMatchByPriority_def kSameInstanceRules_def try_match_rule_def single_rule_def TryMatchSingle_def)
qed

theorem MatchEndpoints_valid_witness:
  "valid_match demo_local demo_remote PEER2NET
     ([demo_pair ''b'' kPlacementDevice COMM_TYPE_UB_D2D, demo_pair ''c'' kPlacementHost COMM_TYPE_UB_D2H], UB)"
  using MatchEndpoints_valid [OF demo_match] by (simp add: priority_of_def)

end
