(* ===== verification/Mem_Pool.thy ===== *)
theory Mem_Pool
  imports Hixl_Prelude
begin

unbundle bit_operations_syntax

text \<open>
  The pool that cuts a registered region into allocations: \<open>LlmMemPool\<close>
  (\<open>src/src/llm_datadist/common/llm_mem_pool.cc\<close>) over \<open>ScalableAllocator\<close>
  (\<open>src/src/llm_datadist/memory/allocator/scalable_allocator.cc\<close>). The region is a chain of spans of whole
  pages, linked to their neighbours; free spans are kept in one list per length, and a set of the lengths
  that have free spans finds the shortest one that is long enough. Spans are numbered by the address of
  their object, the null pointer is \<open>None\<close>, and the memory of the span objects is a function from these
  numbers. Intrusive lists are HOL lists of span numbers. \<open>ge::MemBlock\<close>, the base class of a span, is not
  part of the repository: the reference count of a new block and the count after \<open>MemBlock::Free\<close> are
  parameters. What \<open>operator new\<close> answers is a parameter, too. Waiting with a timeout, the destructors and
  the printing of statistics are not modelled.
\<close>

section \<open>Pages\<close>

definition PageLen_GetLenFromSize :: "nat \<Rightarrow> nat \<Rightarrow> nat" where
  "PageLen_GetLenFromSize n idem = u32 (n div 2 ^ idem)"

definition PageLen_GetMemSize :: "nat \<Rightarrow> nat \<Rightarrow> nat" where
  "PageLen_GetMemSize page_len idem = mul64 page_len (2 ^ idem)"

definition PageLen_ForwardAddr :: "nat \<Rightarrow> nat \<Rightarrow> nat \<Rightarrow> nat" where
  "PageLen_ForwardAddr page_len idem addr = add64 addr (PageLen_GetMemSize page_len idem)"

definition MemSize_GetAlignedOf :: "nat \<Rightarrow> nat \<Rightarrow> nat" where
  "MemSize_GetAlignedOf n align = unat ((word_of_nat (n + align - 1) :: 64 word) AND NOT (word_of_nat (align - 1)))"

definition SPAN_LAYER_ID_INVALID :: nat where "SPAN_LAYER_ID_INVALID = UINT32_MAX"

section \<open>State\<close>

record ScalableConfig =
  page_idem_num :: nat
  page_mem_size_total_threshold :: nat
  span_layer_lift_max :: nat

record PageSpan =
  sp_addr :: nat
  sp_page_len :: nat
  sp_prev :: "nat option"
  sp_next :: "nat option"
  sp_count :: nat
  sp_real_size :: nat

text \<open>A layer is the list of its free spans; \<open>sa_lut\<close> is a \<open>std::set\<close>, in order. \<open>sa_elems\<close> and
  \<open>sa_layer_elems\<close> are the unused objects of the two object allocators.\<close>

record ScalableAllocator =
  sa_config :: ScalableConfig
  sa_heap :: "nat \<Rightarrow> PageSpan"
  sa_layers :: "nat \<Rightarrow> nat list option"
  sa_lut :: "nat list"
  sa_occupied :: "nat list"
  sa_elems :: "nat list"
  sa_layer_elems :: "nat list"
  sa_alloc_succ_count :: nat
  sa_free_succ_count :: nat
  sa_theory_size :: nat
  sa_theory_min_size :: nat
  sa_real_theory_size :: nat
  sa_real_theory_min_size :: nat

definition page_mem_size :: "ScalableAllocator \<Rightarrow> nat" where
  "page_mem_size a = PageLen_GetMemSize 1 (page_idem_num (sa_config a))"

definition span_layer_capacity :: "ScalableAllocator \<Rightarrow> nat" where
  "span_layer_capacity a = add32 1 (PageLen_GetLenFromSize (page_mem_size_total_threshold (sa_config a)) (page_idem_num (sa_config a)))"

definition new_ScalableAllocator :: "ScalableConfig \<Rightarrow> nat list \<Rightarrow> nat list \<Rightarrow> (nat \<Rightarrow> PageSpan) \<Rightarrow> ScalableAllocator" where
  "new_ScalableAllocator cfg elems layer_elems heap =
     \<lparr>sa_config = cfg, sa_heap = heap, sa_layers = (\<lambda>k. None), sa_lut = [], sa_occupied = [], sa_elems = elems,
      sa_layer_elems = layer_elems, sa_alloc_succ_count = 0, sa_free_succ_count = 0, sa_theory_size = 0,
      sa_theory_min_size = 0, sa_real_theory_size = 0, sa_real_theory_min_size = 0\<rparr>"

text \<open>What the environment answers during a call: \<open>operator new\<close> for a span and for a layer, and the count
  of a new \<open>ge::MemBlock\<close>.\<close>

record host_answers =
  new_span :: "nat option"
  new_layer :: "nat option"
  initial_count :: nat

section \<open>Objects, spans and layers\<close>

text \<open>\<open>ObjectAllocator::Alloc\<close>: an unused object, or a new one.\<close>

definition ObjectAllocator_Alloc :: "nat option \<Rightarrow> nat list \<Rightarrow> nat option \<times> nat list" where
  "ObjectAllocator_Alloc fresh elems = (case elems of [] \<Rightarrow> (fresh, []) | x # xs \<Rightarrow> (Some x, xs))"

definition ObjectAllocator_Free :: "nat \<Rightarrow> nat list \<Rightarrow> nat list" where
  "ObjectAllocator_Free x elems = x # elems"

definition upd_span :: "nat \<Rightarrow> (PageSpan \<Rightarrow> PageSpan) \<Rightarrow> ScalableAllocator \<Rightarrow> ScalableAllocator" where
  "upd_span s f a = a\<lparr>sa_heap := (sa_heap a)(s := f (sa_heap a s))\<rparr>"

definition SpanAllocator_Free :: "nat \<Rightarrow> ScalableAllocator \<Rightarrow> ScalableAllocator" where
  "SpanAllocator_Free s a =
     (upd_span s (\<lambda>p. p\<lparr>sp_page_len := 0, sp_prev := None, sp_next := None, sp_real_size := 0\<rparr>) a)
       \<lparr>sa_elems := ObjectAllocator_Free s (sa_elems a)\<rparr>"

definition BlockAlloc :: "host_answers \<Rightarrow> nat \<Rightarrow> ScalableAllocator \<Rightarrow> nat option \<times> ScalableAllocator" where
  "BlockAlloc ans addr a =
     (case ObjectAllocator_Alloc (new_span ans) (sa_elems a) of
        (None, elems) \<Rightarrow> (None, a\<lparr>sa_elems := elems\<rparr>)
      | (Some s, elems) \<Rightarrow>
          (Some s, upd_span s (\<lambda>p. \<lparr>sp_addr = addr, sp_page_len = 0, sp_prev = None, sp_next = None,
             sp_count = initial_count ans, sp_real_size = 0\<rparr>) (a\<lparr>sa_elems := elems\<rparr>)))"

definition GetSize :: "ScalableAllocator \<Rightarrow> nat \<Rightarrow> nat" where
  "GetSize a s = PageLen_GetMemSize (sp_page_len (sa_heap a s)) (page_idem_num (sa_config a))"

text \<open>\<open>SetBuddy\<close> links a new span behind \<open>s\<close>, \<open>MergeBuddy\<close> takes over the span behind \<open>s\<close>.\<close>

definition SetBuddy :: "nat \<Rightarrow> nat \<Rightarrow> ScalableAllocator \<Rightarrow> ScalableAllocator" where
  "SetBuddy s b a =
     (let next_buddy = sp_next (sa_heap a s);
          a1 = (case next_buddy of None \<Rightarrow> a | Some t \<Rightarrow> upd_span t (\<lambda>p. p\<lparr>sp_prev := Some b\<rparr>) a);
          a2 = upd_span s (\<lambda>p. p\<lparr>sp_next := Some b\<rparr>) a1
      in upd_span b (\<lambda>p. p\<lparr>sp_next := next_buddy, sp_prev := Some s\<rparr>) a2)"

definition MergeBuddy :: "nat \<Rightarrow> nat \<Rightarrow> ScalableAllocator \<Rightarrow> ScalableAllocator" where
  "MergeBuddy s b a =
     (if sp_next (sa_heap a s) = Some b \<and> sp_prev (sa_heap a b) = Some s then
        let next_of_buddy = sp_next (sa_heap a b);
            a1 = (case next_of_buddy of None \<Rightarrow> a | Some t \<Rightarrow> upd_span t (\<lambda>p. p\<lparr>sp_prev := Some s\<rparr>) a)
        in upd_span s (\<lambda>p. p\<lparr>sp_next := next_of_buddy, sp_page_len := add32 (sp_page_len p) (sp_page_len (sa_heap a1 b))\<rparr>) a1
      else a)"

definition lut_insert :: "nat \<Rightarrow> nat list \<Rightarrow> nat list" where
  "lut_insert k lut = insort_insert k lut"

definition PushSpanToLayer :: "nat \<Rightarrow> nat \<Rightarrow> ScalableAllocator \<Rightarrow> ScalableAllocator" where
  "PushSpanToLayer k s a =
     (case sa_layers a k of
        None \<Rightarrow> a
      | Some xs \<Rightarrow>
          a\<lparr>sa_layers := (sa_layers a)(k := Some (s # xs)),
            sa_lut := (if length (s # xs) = 1 then lut_insert k (sa_lut a) else sa_lut a)\<rparr>)"

definition PopSpanFromLayer :: "nat \<Rightarrow> ScalableAllocator \<Rightarrow> nat option \<times> ScalableAllocator" where
  "PopSpanFromLayer k a =
     (case sa_layers a k of
        None \<Rightarrow> (None, a)
      | Some [] \<Rightarrow> (None, a\<lparr>sa_lut := remove1 k (sa_lut a)\<rparr>)
      | Some (s # xs) \<Rightarrow>
          (Some s, a\<lparr>sa_layers := (sa_layers a)(k := Some xs),
                     sa_lut := (if xs = [] then remove1 k (sa_lut a) else sa_lut a)\<rparr>))"

definition RemoveFromLayer :: "nat \<Rightarrow> nat \<Rightarrow> ScalableAllocator \<Rightarrow> ScalableAllocator" where
  "RemoveFromLayer k s a =
     (case sa_layers a k of
        None \<Rightarrow> a
      | Some xs \<Rightarrow>
          a\<lparr>sa_layers := (sa_layers a)(k := Some (remove1 s xs)),
            sa_lut := (if remove1 s xs = [] then remove1 k (sa_lut a) else sa_lut a)\<rparr>)"

definition FindFitLayerId :: "nat \<Rightarrow> nat \<Rightarrow> nat list \<Rightarrow> nat" where
  "FindFitLayerId page_len max_lift_level lut =
     (if max_lift_level = 0 then SPAN_LAYER_ID_INVALID
      else case find (\<lambda>k. page_len \<le> k) lut of None \<Rightarrow> SPAN_LAYER_ID_INVALID | Some k \<Rightarrow> k)"

definition FetchSpanLayer :: "host_answers \<Rightarrow> nat \<Rightarrow> ScalableAllocator \<Rightarrow> bool \<times> ScalableAllocator" where
  "FetchSpanLayer ans k a =
     (if k \<ge> span_layer_capacity a then (False, a)
      else if sa_layers a k \<noteq> None then (True, a)
      else case ObjectAllocator_Alloc (new_layer ans) (sa_layer_elems a) of
             (None, elems) \<Rightarrow> (False, a\<lparr>sa_layer_elems := elems\<rparr>)
           | (Some l, elems) \<Rightarrow> (True, a\<lparr>sa_layer_elems := elems, sa_layers := (sa_layers a)(k := Some [])\<rparr>))"

section \<open>Allocation\<close>

definition OccupySpan :: "nat \<Rightarrow> nat \<Rightarrow> ScalableAllocator \<Rightarrow> ScalableAllocator" where
  "OccupySpan s page_len a =
     (upd_span s (\<lambda>p. p\<lparr>sp_page_len := page_len, sp_count := (if sp_count p = 0 then 1 else sp_count p)\<rparr>) a)
       \<lparr>sa_occupied := s # sa_occupied a, sa_alloc_succ_count := add64 (sa_alloc_succ_count a) 1\<rparr>"

definition GetAllocSize :: "ScalableAllocator \<Rightarrow> nat \<Rightarrow> nat" where
  "GetAllocSize a n = (if n < page_mem_size a then page_mem_size a else MemSize_GetAlignedOf n (page_mem_size a))"

definition FetchLayerSpan :: "nat \<Rightarrow> ScalableAllocator \<Rightarrow> nat option \<times> ScalableAllocator" where
  "FetchLayerSpan k a =
     (if sa_layers a k = None then (None, a)
      else case PopSpanFromLayer k a of (None, a1) \<Rightarrow> (None, a1) | (Some s, a1) \<Rightarrow> (Some s, OccupySpan s k a1))"

definition SplitSpan :: "host_answers \<Rightarrow> nat \<Rightarrow> nat \<Rightarrow> nat \<Rightarrow> ScalableAllocator \<Rightarrow> nat option \<times> ScalableAllocator" where
  "SplitSpan ans fix_layer_id fit_layer_id s a =
     (let left_page_len = sub32 fit_layer_id fix_layer_id;
          buddy_addr = PageLen_ForwardAddr left_page_len (page_idem_num (sa_config a)) (sp_addr (sa_heap a s))
      in case BlockAlloc ans buddy_addr a of
           (None, a1) \<Rightarrow> (None, PushSpanToLayer fit_layer_id s a1)
         | (Some b, a1) \<Rightarrow>
             (case FetchSpanLayer ans left_page_len a1 of
                (False, a2) \<Rightarrow> (None, PushSpanToLayer fit_layer_id s (SpanAllocator_Free b a2))
              | (True, a2) \<Rightarrow>
                  let a3 = upd_span s (\<lambda>p. p\<lparr>sp_page_len := left_page_len\<rparr>) (SetBuddy s b a2);
                      a4 = PushSpanToLayer left_page_len s a3
                  in (Some b, OccupySpan b fix_layer_id a4)))"

definition FetchSplitedSpan :: "host_answers \<Rightarrow> nat \<Rightarrow> nat \<Rightarrow> ScalableAllocator \<Rightarrow> nat option \<times> ScalableAllocator" where
  "FetchSplitedSpan ans fix_layer_id fit_layer_id a =
     (if fit_layer_id \<le> fix_layer_id \<or> sa_layers a fit_layer_id = None then (None, a)
      else case PopSpanFromLayer fit_layer_id a of
             (None, a1) \<Rightarrow> (None, a1)
           | (Some s, a1) \<Rightarrow> SplitSpan ans fix_layer_id fit_layer_id s a1)"

definition AllocImp :: "host_answers \<Rightarrow> nat \<Rightarrow> ScalableAllocator \<Rightarrow> nat option \<times> ScalableAllocator" where
  "AllocImp ans n a =
     (let fix_layer_id = PageLen_GetLenFromSize (GetAllocSize a n) (page_idem_num (sa_config a)) in
      if fix_layer_id \<ge> span_layer_capacity a then (None, a)
      else
        let (span, a1) =
          (case FetchLayerSpan fix_layer_id a of
             (Some s, a1) \<Rightarrow> (Some s, a1)
           | (None, a1) \<Rightarrow>
               let fit_layer_id = FindFitLayerId (add32 fix_layer_id 1) (span_layer_lift_max (sa_config a)) (sa_lut a1) in
               if fit_layer_id \<ge> span_layer_capacity a1 then (None, a1) else FetchSplitedSpan ans fix_layer_id fit_layer_id a1)
        in case span of None \<Rightarrow> (None, a1) | Some s \<Rightarrow> (Some s, upd_span s (\<lambda>p. p\<lparr>sp_real_size := n\<rparr>) a1))"

definition count_alloc :: "nat \<Rightarrow> ScalableAllocator \<Rightarrow> ScalableAllocator" where
  "count_alloc s a =
     (let a1 = a\<lparr>sa_theory_size := add64 (sa_theory_size a) (GetSize a s),
                 sa_real_theory_size := add64 (sa_real_theory_size a) (sp_real_size (sa_heap a s))\<rparr>
      in a1\<lparr>sa_real_theory_min_size := max (sa_real_theory_min_size a1) (sa_real_theory_size a1),
            sa_theory_min_size := max (sa_theory_min_size a1) (sa_theory_size a1)\<rparr>)"

definition ScalableAllocator_Alloc :: "host_answers \<Rightarrow> nat \<Rightarrow> ScalableAllocator \<Rightarrow> nat option \<times> ScalableAllocator" where
  "ScalableAllocator_Alloc ans n a =
     (if n > page_mem_size_total_threshold (sa_config a) then (None, a)
      else case AllocImp ans n a of (None, a1) \<Rightarrow> (None, a1) | (Some s, a1) \<Rightarrow> (Some s, count_alloc s a1))"

section \<open>Release\<close>

definition PickOutBuddy :: "nat option \<Rightarrow> ScalableAllocator \<Rightarrow> nat option \<times> ScalableAllocator" where
  "PickOutBuddy buddy a =
     (case buddy of
        None \<Rightarrow> (None, a)
      | Some b \<Rightarrow>
          if sp_count (sa_heap a b) \<noteq> 0 then (None, a)
          else
            let page_len = sp_page_len (sa_heap a b) in
            if page_len \<ge> span_layer_capacity a \<or> sa_layers a page_len = None then (None, a)
            else (Some b, RemoveFromLayer page_len b a))"

definition TryMergePrev :: "nat \<Rightarrow> ScalableAllocator \<Rightarrow> nat \<times> ScalableAllocator" where
  "TryMergePrev s a =
     (case PickOutBuddy (sp_prev (sa_heap a s)) a of
        (None, a1) \<Rightarrow> (s, a1)
      | (Some p, a1) \<Rightarrow> (p, SpanAllocator_Free s (MergeBuddy p s a1)))"

definition TryMergeNext :: "nat \<Rightarrow> ScalableAllocator \<Rightarrow> nat \<times> ScalableAllocator" where
  "TryMergeNext s a =
     (case PickOutBuddy (sp_next (sa_heap a s)) a of
        (None, a1) \<Rightarrow> (s, a1)
      | (Some t, a1) \<Rightarrow> (s, SpanAllocator_Free t (MergeBuddy s t a1)))"

definition FreeSpan :: "host_answers \<Rightarrow> nat \<Rightarrow> ScalableAllocator \<Rightarrow> ScalableAllocator" where
  "FreeSpan ans s a =
     (let page_len = sp_page_len (sa_heap a s) in
      case FetchSpanLayer ans page_len a of
        (False, a1) \<Rightarrow> a1
      | (True, a1) \<Rightarrow> (PushSpanToLayer page_len s a1)\<lparr>sa_free_succ_count := add64 (sa_free_succ_count a1) 1\<rparr>)"

definition count_free :: "nat \<Rightarrow> ScalableAllocator \<Rightarrow> ScalableAllocator" where
  "count_free s a =
     (if sa_theory_size a \<ge> sp_real_size (sa_heap a s)
      then a\<lparr>sa_real_theory_size := sub64 (sa_real_theory_size a) (sp_real_size (sa_heap a s)),
             sa_theory_size := sub64 (sa_theory_size a) (GetSize a s)\<rparr>
      else a)"

definition ScalableAllocator_Free :: "host_answers \<Rightarrow> nat \<Rightarrow> ScalableAllocator \<Rightarrow> ScalableAllocator" where
  "ScalableAllocator_Free ans s a =
     (let a1 = count_free s a;
          a2 = a1\<lparr>sa_occupied := remove1 s (sa_occupied a1)\<rparr>;
          (s1, a3) = TryMergeNext s a2;
          (s2, a4) = TryMergePrev s1 a3
      in FreeSpan ans s2 a4)"

definition InitFixSizedAllocator :: "host_answers \<Rightarrow> nat \<Rightarrow> nat \<Rightarrow> ScalableAllocator \<Rightarrow> status \<times> ScalableAllocator" where
  "InitFixSizedAllocator ans base_addr n a =
     (case BlockAlloc ans base_addr a of
        (None, a1) \<Rightarrow> (GE_FAILED, a1)
      | (Some s, a1) \<Rightarrow>
          let a2 = upd_span s (\<lambda>p. p\<lparr>sp_count := 0\<rparr>) a1;
              fit_layer_id = PageLen_GetLenFromSize n (page_idem_num (sa_config a))
          in case FetchSpanLayer ans fit_layer_id a2 of
               (False, a3) \<Rightarrow> (GE_FAILED, SpanAllocator_Free s a3)
             | (True, a3) \<Rightarrow> (SUCCESS, PushSpanToLayer fit_layer_id s a3))"

section \<open>The pool\<close>

record LlmMemPool =
  mp_allocator :: ScalableAllocator
  mp_addr_to_mem_block :: "nat \<rightharpoonup> nat"

definition LlmMemPool_Initialize :: "host_answers \<Rightarrow> nat \<Rightarrow> nat \<Rightarrow> LlmMemPool \<Rightarrow> status \<times> LlmMemPool" where
  "LlmMemPool_Initialize ans base_addr n mp =
     (let page_shift = page_idem_num (sa_config (mp_allocator mp)) in
      if \<not> (page_shift \<ge> 10 \<and> page_shift \<le> 30) then (LLM_PARAM_INVALID, mp)
      else if \<not> 2 ^ page_shift \<le> n then (LLM_PARAM_INVALID, mp)
      else case InitFixSizedAllocator ans base_addr n (mp_allocator mp) of
             (ret, a) \<Rightarrow> (ret, mp\<lparr>mp_allocator := a\<rparr>))"

text \<open>The result is the address, or null.\<close>

definition LlmMemPool_Alloc :: "host_answers \<Rightarrow> nat \<Rightarrow> LlmMemPool \<Rightarrow> nat option \<times> LlmMemPool" where
  "LlmMemPool_Alloc ans n mp =
     (case ScalableAllocator_Alloc ans n (mp_allocator mp) of
        (None, a) \<Rightarrow> (None, mp\<lparr>mp_allocator := a\<rparr>)
      | (Some s, a) \<Rightarrow>
          let memory = sp_addr (sa_heap a s) in
          (Some memory, mp\<lparr>mp_allocator := a, mp_addr_to_mem_block := (mp_addr_to_mem_block mp)(memory \<mapsto> s)\<rparr>))"

text \<open>\<open>drop_ref\<close> gives the count after \<open>MemBlock::Free\<close>; the block is handed back when none is left.\<close>

definition LlmMemPool_Free :: "host_answers \<Rightarrow> (nat \<Rightarrow> nat) \<Rightarrow> nat \<Rightarrow> LlmMemPool \<Rightarrow> LlmMemPool" where
  "LlmMemPool_Free ans drop_ref addr mp =
     (case mp_addr_to_mem_block mp addr of
        None \<Rightarrow> mp
      | Some s \<Rightarrow>
          let a1 = upd_span s (\<lambda>p. p\<lparr>sp_count := drop_ref (sp_count p)\<rparr>) (mp_allocator mp);
              a2 = (if sp_count (sa_heap a1 s) = 0 then ScalableAllocator_Free ans s a1 else a1)
          in mp\<lparr>mp_allocator := a2, mp_addr_to_mem_block := (mp_addr_to_mem_block mp)(addr := None)\<rparr>)"


section \<open>Chains of spans\<close>

text \<open>A chain lists the spans in the order of their addresses, each with its length in pages. \<open>linked\<close> says that
  the spans of a part of it are linked to each other and to their neighbours \<open>p\<close> and \<open>q\<close>, and follow each
  other without gaps from address \<open>adr\<close> on.\<close>

type_synonym chain = "(nat \<times> nat) list"

definition first_span :: "chain \<Rightarrow> nat option \<Rightarrow> nat option" where
  "first_span xs q = (case xs of [] \<Rightarrow> q | (t, m) # ys \<Rightarrow> Some t)"

definition last_span :: "chain \<Rightarrow> nat option \<Rightarrow> nat option" where
  "last_span xs p = (if xs = [] then p else Some (fst (last xs)))"

definition pages :: "chain \<Rightarrow> nat" where
  "pages xs = sum_list (map snd xs)"

fun linked :: "nat \<Rightarrow> (nat \<Rightarrow> PageSpan) \<Rightarrow> nat option \<Rightarrow> nat \<Rightarrow> chain \<Rightarrow> nat option \<Rightarrow> bool" where
  "linked pg h p adr [] q \<longleftrightarrow> True"
| "linked pg h p adr ((s, n) # xs) q \<longleftrightarrow>
     sp_prev (h s) = p \<and> sp_addr (h s) = adr \<and> sp_next (h s) = first_span xs q \<and> linked pg h (Some s) (adr + n * pg) xs q"

lemma pages_simps [simp]: "pages [] = 0" "pages ((s, n) # xs) = n + pages xs" "pages (xs @ ys) = pages xs + pages ys"
  by (simp_all add: pages_def)

lemma span_ends [simp]:
  "first_span [] q = q" "first_span ((s, n) # xs) q = Some s"
  "last_span [] p = p" "last_span (xs @ [(s, n)]) p = Some s"
  by (simp_all add: first_span_def last_span_def)

lemma first_span_append: "first_span (xs @ ys) q = first_span xs (first_span ys q)"
  by (cases xs) auto

lemma last_span_Cons: "last_span ((s, n) # xs) p = last_span xs (Some s)"
  by (simp add: last_span_def)

lemma linked_append:
  "linked pg h p adr (xs @ ys) q \<longleftrightarrow>
     linked pg h p adr xs (first_span ys q) \<and> linked pg h (last_span xs p) (adr + pages xs * pg) ys q"
  by (induction xs arbitrary: p adr) (auto simp: first_span_append last_span_Cons algebra_simps)

lemma linked_cong:
  assumes "\<And>s. s \<in> fst ` set xs \<Longrightarrow> sp_prev (h s) = sp_prev (h' s) \<and> sp_next (h s) = sp_next (h' s) \<and> sp_addr (h s) = sp_addr (h' s)"
  shows "linked pg h p adr xs q \<longleftrightarrow> linked pg h' p adr xs q"
  using assms by (induction xs arbitrary: p adr) auto

lemma linked_relink:
  assumes "linked pg h p adr xs q" "distinct (map fst xs)"
    and "\<And>s. s \<in> fst ` set xs \<Longrightarrow> sp_next (h' s) = sp_next (h s) \<and> sp_addr (h' s) = sp_addr (h s) \<and>
           sp_prev (h' s) = (if first_span xs None = Some s then p' else sp_prev (h s))"
  shows "linked pg h' p' adr xs q"
proof (cases xs)
  case (Cons x ys)
  obtain s n where x: "x = (s, n)" by (cases x)
  have "linked pg h' (Some s) (adr + n * pg) ys q \<longleftrightarrow> linked pg h (Some s) (adr + n * pg) ys q"
    by (rule linked_cong) (use assms(2,3) Cons x in auto)
  with assms Cons x show ?thesis by simp
qed simp

section \<open>The invariant of the allocator\<close>

abbreviation page_size :: "ScalableAllocator \<Rightarrow> nat" where
  "page_size a \<equiv> 2 ^ page_idem_num (sa_config a)"

abbreviation max_pages :: "ScalableAllocator \<Rightarrow> nat" where
  "max_pages a \<equiv> page_mem_size_total_threshold (sa_config a) div page_size a"

definition shape :: "nat \<Rightarrow> nat \<Rightarrow> chain \<Rightarrow> ScalableAllocator \<Rightarrow> bool" where
  "shape base N chain a \<longleftrightarrow>
     distinct (map fst chain) \<and> (\<forall>(s, n) \<in> set chain. 0 < n) \<and> pages chain = N \<and> linked (page_size a) (sa_heap a) None base chain None"

text \<open>The spans in \<open>loose\<close> are in no layer and not occupied. The first span, of all pages, has no length of its own.\<close>

definition span_ok :: "chain \<Rightarrow> bool \<Rightarrow> PageSpan \<Rightarrow> nat \<Rightarrow> bool" where
  "span_ok chain busy p n \<longleftrightarrow>
     (if busy then sp_count p = 1 \<and> sp_page_len p = n else sp_count p = 0 \<and> (sp_page_len p = n \<or> length chain = 1))"

definition status_ok :: "chain \<Rightarrow> nat set \<Rightarrow> ScalableAllocator \<Rightarrow> bool" where
  "status_ok chain loose a \<longleftrightarrow>
     (\<forall>(s, n) \<in> set chain. s \<notin> loose \<longrightarrow> span_ok chain (s \<in> set (sa_occupied a)) (sa_heap a s) n)"

definition free_spans :: "chain \<Rightarrow> nat set \<Rightarrow> nat \<Rightarrow> nat set" where
  "free_spans chain used k = {s. (s, k) \<in> set chain \<and> s \<notin> used}"

text \<open>The free lists and the table of lengths agree with a family of sets.\<close>

definition layers_hold :: "(nat \<Rightarrow> nat set) \<Rightarrow> ScalableAllocator \<Rightarrow> bool" where
  "layers_hold F a \<longleftrightarrow>
     (\<forall>k. sa_layers a k = None \<longrightarrow> F k = {}) \<and>
     (\<forall>k xs. sa_layers a k = Some xs \<longrightarrow> k < span_layer_capacity a \<and> distinct xs \<and> set xs = F k) \<and>
     sorted (sa_lut a) \<and> distinct (sa_lut a) \<and> set (sa_lut a) = {k. F k \<noteq> {}}"

definition layers_ok :: "chain \<Rightarrow> nat set \<Rightarrow> ScalableAllocator \<Rightarrow> bool" where
  "layers_ok chain loose a \<longleftrightarrow>
     layers_hold (free_spans chain (set (sa_occupied a) \<union> loose)) a"

definition objects_ok :: "chain \<Rightarrow> ScalableAllocator \<Rightarrow> bool" where
  "objects_ok chain a \<longleftrightarrow>
     distinct (sa_occupied a) \<and> set (sa_occupied a) \<subseteq> fst ` set chain \<and>
     distinct (sa_elems a) \<and> set (sa_elems a) \<inter> fst ` set chain = {}"

definition sizes_ok :: "nat \<Rightarrow> nat \<Rightarrow> ScalableAllocator \<Rightarrow> bool" where
  "sizes_ok base N a \<longleftrightarrow>
     0 < N \<and> N \<le> max_pages a \<and> max_pages a < 2 ^ 32 - 2 \<and> base + N * page_size a < 2 ^ 64 \<and> page_idem_num (sa_config a) \<le> 30"

definition alloc_inv :: "nat \<Rightarrow> nat \<Rightarrow> chain \<Rightarrow> nat set \<Rightarrow> ScalableAllocator \<Rightarrow> bool" where
  "alloc_inv base N chain loose a \<longleftrightarrow>
     shape base N chain a \<and> status_ok chain loose a \<and> layers_ok chain loose a \<and> objects_ok chain a \<and> sizes_ok base N a \<and>
     loose \<subseteq> fst ` set chain - set (sa_occupied a)"

lemmas inv_defs = alloc_inv_def shape_def status_ok_def layers_ok_def objects_ok_def sizes_ok_def

lemma chain_unique: "distinct (map fst chain) \<Longrightarrow> (s, n) \<in> set chain \<Longrightarrow> (s, m) \<in> set chain \<Longrightarrow> n = m"
  by (metis map_of_is_SomeI option.inject)

lemma free_spans_insert:
  assumes "distinct (map fst chain)" "(s, k) \<in> set chain"
  shows "free_spans chain (insert s used) = (free_spans chain used)(k := free_spans chain used k - {s})"
proof
  fix j
  have "(s, j) \<in> set chain \<longleftrightarrow> j = k" using chain_unique [OF assms(1,2)] assms(2) by blast
  then show "free_spans chain (insert s used) j = ((free_spans chain used)(k := free_spans chain used k - {s})) j"
    by (auto simp: free_spans_def)
qed

lemma pages_member: "(s, n) \<in> set chain \<Longrightarrow> n \<le> pages chain"
  by (induction chain) auto

lemma sizes_capacity: "sizes_ok base N a \<Longrightarrow> span_layer_capacity a = max_pages a + 1"
  by (simp add: sizes_ok_def span_layer_capacity_def PageLen_GetLenFromSize_def u32_id add32_id)

lemma capacity_upd [simp]:
  "span_layer_capacity (upd_span s f a) = span_layer_capacity a" "sa_config (upd_span s f a) = sa_config a"
  "sa_layers (upd_span s f a) = sa_layers a" "sa_lut (upd_span s f a) = sa_lut a"
  "sa_occupied (upd_span s f a) = sa_occupied a" "sa_elems (upd_span s f a) = sa_elems a"
  "sa_heap (upd_span s f a) = (sa_heap a)(s := f (sa_heap a s))"
  by (simp_all add: upd_span_def span_layer_capacity_def)

lemma capacity_cong: "sa_config a' = sa_config a \<Longrightarrow> span_layer_capacity a' = span_layer_capacity a"
  by (simp add: span_layer_capacity_def)

text \<open>Only these components matter.\<close>

lemma alloc_inv_cong:
  assumes "alloc_inv base N chain loose a"
    and "sa_config a' = sa_config a" "sa_layers a' = sa_layers a" "sa_lut a' = sa_lut a" "sa_occupied a' = sa_occupied a"
    and "sa_elems a' = sa_elems a" "sa_heap a' = sa_heap a"
  shows "alloc_inv base N chain loose a'"
  using assms(1) unfolding inv_defs layers_hold_def assms(2-) capacity_cong [OF assms(2)] .

lemma set_insort_insert_key: "set (insort_insert k xs) = insert k (set xs)"
  by (simp add: set_insort_insert)

section \<open>Layers\<close>

text \<open>A change of the layers and of the table of lengths keeps the rest.\<close>

lemma alloc_inv_layers:
  assumes "alloc_inv base N chain loose a"
    and "sa_config a' = sa_config a" "sa_occupied a' = sa_occupied a" "sa_elems a' = sa_elems a" "sa_heap a' = sa_heap a"
    and "layers_ok chain loose' a'" "status_ok chain loose' a'" "loose' \<subseteq> fst ` set chain - set (sa_occupied a)"
  shows "alloc_inv base N chain loose' a'"
  using assms(1,6-8) unfolding alloc_inv_def shape_def objects_ok_def sizes_ok_def assms(2-5) capacity_cong [OF assms(2)]
  by (intro conjI) blast+

lemma layers_hold_Some: "layers_hold F a \<Longrightarrow> sa_layers a k = Some xs \<Longrightarrow> k < span_layer_capacity a \<and> distinct xs \<and> set xs = F k"
  by (simp add: layers_hold_def)

lemma layers_hold_update:
  assumes "layers_hold F a" "sa_layers a k \<noteq> None" "sa_config a' = sa_config a"
    and "sa_layers a' = (sa_layers a)(k := Some xs)" "distinct xs"
    and "sa_lut a' = (if xs = [] then remove1 k (sa_lut a) else insort_insert k (sa_lut a))"
  shows "layers_hold (F(k := set xs)) a'"
proof -
  have "k < span_layer_capacity a" using assms(1,2) layers_hold_Some by blast
  moreover have "sorted (sa_lut a')" "distinct (sa_lut a')" "set (sa_lut a') = {j. (F(k := set xs)) j \<noteq> {}}"
    using assms(1) by (auto simp: assms(6) layers_hold_def set_insort_insert sorted_insort_insert distinct_insort_insert sorted_remove1)
  ultimately show ?thesis
    using assms(1,5) by (simp add: layers_hold_def assms(4) capacity_cong [OF assms(3)])
qed

lemma layers_hold_lut: "layers_hold F a \<Longrightarrow> sa_layers a k = Some (x # xs) \<Longrightarrow> insort_insert k (sa_lut a) = sa_lut a"
  using layers_hold_Some [of F a k "x # xs"] unfolding layers_hold_def
  by (metis (mono_tags, lifting) insort_insert_triv list.set_intros(1) mem_Collect_eq empty_iff)

lemma PushSpanToLayer_inv:
  assumes inv: "alloc_inv base N chain (insert s loose) a" and "s \<notin> loose" "(s, k) \<in> set chain" "sa_layers a k \<noteq> None"
    and "span_ok chain False (sa_heap a s) k"
  shows "alloc_inv base N chain loose (PushSpanToLayer k s a)"
proof (rule alloc_inv_layers [OF inv])
  let ?a = "PushSpanToLayer k s a" and ?F = "free_spans chain (set (sa_occupied a) \<union> insert s loose)"
  obtain xs where xs: "sa_layers a k = Some xs" using assms(4) by auto
  have d: "distinct (map fst chain)" and H: "layers_hold ?F a"
    using inv by (simp_all add: alloc_inv_def shape_def layers_ok_def)
  have s: "s \<notin> set (sa_occupied a)" using inv by (auto simp: alloc_inv_def)
  note L = layers_hold_Some [OF H xs]
  show same: "sa_config ?a = sa_config a" "sa_occupied ?a = sa_occupied a" "sa_elems ?a = sa_elems a" "sa_heap ?a = sa_heap a"
    by (simp_all add: PushSpanToLayer_def xs)
  have "s \<notin> set xs" using L by (simp add: free_spans_def)
  moreover have "sa_lut ?a = insort_insert k (sa_lut a)"
    using layers_hold_lut [OF H] by (cases xs) (simp_all add: PushSpanToLayer_def xs lut_insert_def)
  ultimately have "layers_hold (?F(k := set (s # xs))) ?a"
    using layers_hold_update [OF H assms(4) same(1), of "s # xs"] L by (simp add: PushSpanToLayer_def xs)
  moreover have "s \<in> free_spans chain (set (sa_occupied a) \<union> loose) k" using s assms(2,3) by (simp add: free_spans_def)
  then have "?F(k := set (s # xs)) = free_spans chain (set (sa_occupied a) \<union> loose)"
    using L free_spans_insert [OF d assms(3), of "set (sa_occupied a) \<union> loose"] by (simp add: insert_absorb)
  ultimately show "layers_ok chain loose ?a" by (simp add: layers_ok_def same)
  show "loose \<subseteq> fst ` set chain - set (sa_occupied a)" using inv by (auto simp: alloc_inv_def)
  show "status_ok chain loose ?a"
  proof -
    have "span_ok chain (t \<in> set (sa_occupied a)) (sa_heap a t) n" if "(t, n) \<in> set chain" "t \<notin> loose" for t n
    proof (cases "t = s")
      case True
      with chain_unique [OF d assms(3)] that(1) s assms(5) show ?thesis by auto
    next
      case False
      with inv that show ?thesis by (auto simp: alloc_inv_def status_ok_def)
    qed
    then show ?thesis by (auto simp: status_ok_def same)
  qed
qed

text \<open>Taking a free span out of its layer leaves it loose.\<close>

lemma take_out_inv:
  assumes inv: "alloc_inv base N chain loose a" and xs: "sa_layers a k = Some xs" "s \<in> set xs"
    and same: "sa_config a' = sa_config a" "sa_occupied a' = sa_occupied a" "sa_elems a' = sa_elems a" "sa_heap a' = sa_heap a"
    and L': "sa_layers a' = (sa_layers a)(k := Some (remove1 s xs))"
    and lut: "sa_lut a' = (if remove1 s xs = [] then remove1 k (sa_lut a) else sa_lut a)"
  shows "(s, k) \<in> set chain \<and> s \<notin> set (sa_occupied a) \<and> s \<notin> loose \<and> span_ok chain False (sa_heap a s) k
    \<and> alloc_inv base N chain (insert s loose) a'"
proof -
  let ?F = "free_spans chain (set (sa_occupied a) \<union> loose)"
  have d: "distinct (map fst chain)" and H: "layers_hold ?F a"
    using inv by (simp_all add: alloc_inv_def shape_def layers_ok_def)
  note L = layers_hold_Some [OF H xs(1)]
  have s: "(s, k) \<in> set chain" "s \<notin> set (sa_occupied a)" "s \<notin> loose"
    using L xs(2) by (auto simp: free_spans_def)
  have "sa_lut a' = (if remove1 s xs = [] then remove1 k (sa_lut a) else insort_insert k (sa_lut a))"
    using lut layers_hold_lut [OF H] xs by (cases xs) auto
  then have "layers_hold (?F(k := set (remove1 s xs))) a'"
    using layers_hold_update [OF H _ same(1) L'] xs L by simp
  moreover have "?F(k := set (remove1 s xs)) = free_spans chain (set (sa_occupied a) \<union> insert s loose)"
    using L free_spans_insert [OF d s(1), of "set (sa_occupied a) \<union> loose"] by simp
  ultimately have "layers_ok chain (insert s loose) a'" by (simp add: layers_ok_def same)
  moreover have "insert s loose \<subseteq> fst ` set chain - set (sa_occupied a)" using inv s by (force simp: alloc_inv_def)
  moreover have "status_ok chain (insert s loose) a'" and ok: "span_ok chain False (sa_heap a s) k"
    using inv s by (auto simp: alloc_inv_def status_ok_def same)
  ultimately have "alloc_inv base N chain (insert s loose) a'" by (intro alloc_inv_layers [OF inv same])
  with s ok show ?thesis by simp
qed

lemma PopSpanFromLayer_inv:
  assumes inv: "alloc_inv base N chain loose a" and pop: "PopSpanFromLayer k a = (Some s, a')"
  shows "(s, k) \<in> set chain \<and> s \<notin> set (sa_occupied a) \<and> s \<notin> loose \<and> span_ok chain False (sa_heap a s) k
    \<and> alloc_inv base N chain (insert s loose) a'
    \<and> sa_occupied a' = sa_occupied a \<and> sa_config a' = sa_config a \<and> sa_heap a' = sa_heap a \<and> sa_elems a' = sa_elems a
    \<and> sa_layers a' k \<noteq> None"
proof -
  obtain xs where xs: "sa_layers a k = Some (s # xs)"
    and a': "a' = a\<lparr>sa_layers := (sa_layers a)(k := Some xs), sa_lut := (if xs = [] then remove1 k (sa_lut a) else sa_lut a)\<rparr>"
    using pop by (auto simp: PopSpanFromLayer_def split: option.splits list.splits)
  show ?thesis using take_out_inv [OF inv xs, of s a'] a' by simp
qed

lemma PopSpanFromLayer_None:
  assumes inv: "alloc_inv base N chain loose a" and pop: "PopSpanFromLayer k a = (None, a')"
  shows "a' = a \<and> free_spans chain (set (sa_occupied a) \<union> loose) k = {}"
proof -
  have H: "layers_hold (free_spans chain (set (sa_occupied a) \<union> loose)) a" using inv by (simp add: alloc_inv_def layers_ok_def)
  consider "sa_layers a k = None" "a' = a" | "sa_layers a k = Some []" "a' = a\<lparr>sa_lut := remove1 k (sa_lut a)\<rparr>"
    using pop by (auto simp: PopSpanFromLayer_def split: option.splits list.splits)
  then show ?thesis
  proof cases
    case 1
    with H show ?thesis by (simp add: layers_hold_def)
  next
    case 2
    with layers_hold_Some [OF H 2(1)] have "free_spans chain (set (sa_occupied a) \<union> loose) k = {}" by simp
    moreover with H have "k \<notin> set (sa_lut a)" by (simp add: layers_hold_def)
    ultimately show ?thesis using 2 by (simp add: remove1_idem)
  qed
qed

lemma FetchSpanLayer_inv:
  assumes inv: "alloc_inv base N chain loose a" and f: "FetchSpanLayer ans k a = (ok, a')"
  shows "alloc_inv base N chain loose a' \<and> sa_occupied a' = sa_occupied a \<and> sa_heap a' = sa_heap a \<and> sa_config a' = sa_config a
    \<and> sa_elems a' = sa_elems a \<and> (ok \<longrightarrow> sa_layers a' k \<noteq> None) \<and> (\<forall>j. sa_layers a j \<noteq> None \<longrightarrow> sa_layers a' j \<noteq> None)"
proof (cases "ok \<and> sa_layers a k = None")
  case True
  then obtain elems where a': "a' = a\<lparr>sa_layer_elems := elems, sa_layers := (sa_layers a)(k := Some [])\<rparr>" and k: "k < span_layer_capacity a"
    using f by (auto simp: FetchSpanLayer_def split: if_splits option.splits prod.splits)
  have H: "layers_hold (free_spans chain (set (sa_occupied a) \<union> loose)) a" using inv by (simp add: alloc_inv_def layers_ok_def)
  then have "free_spans chain (set (sa_occupied a) \<union> loose) k = {}" using True by (simp add: layers_hold_def)
  then have "layers_ok chain loose a'"
    using H k a' by (simp add: layers_ok_def layers_hold_def span_layer_capacity_def)
  then have "alloc_inv base N chain loose a'"
    using a' alloc_inv_layers [OF inv, of a'] inv by (simp add: alloc_inv_def status_ok_def)
  with a' show ?thesis by simp
next
  case False
  then obtain elems where "a' = a \<or> a' = a\<lparr>sa_layer_elems := elems\<rparr>" and "ok \<longrightarrow> sa_layers a k \<noteq> None"
    using f by (auto simp: FetchSpanLayer_def split: if_splits option.splits prod.splits)
  then show ?thesis using inv by (auto intro: alloc_inv_cong [OF inv])
qed


section \<open>Occupying and releasing spans\<close>

lemma alloc_inv_distinct: "alloc_inv base N chain loose a \<Longrightarrow> distinct (map fst chain)"
  by (simp add: alloc_inv_def shape_def)

text \<open>The invariant depends on the heap only at the spans of the chain, and at the loose ones only on their place.\<close>

lemma alloc_inv_heap:
  assumes inv: "alloc_inv base N chain loose a"
    and same: "sa_config a' = sa_config a" "sa_occupied a' = sa_occupied a" "sa_layers a' = sa_layers a" "sa_lut a' = sa_lut a"
    and elems: "distinct (sa_elems a')" "set (sa_elems a') \<inter> fst ` set chain = {}"
    and place: "\<And>s. s \<in> fst ` set chain \<Longrightarrow> sp_prev (sa_heap a' s) = sp_prev (sa_heap a s) \<and>
      sp_next (sa_heap a' s) = sp_next (sa_heap a s) \<and> sp_addr (sa_heap a' s) = sp_addr (sa_heap a s)"
    and rest: "\<And>s. s \<in> fst ` set chain - loose \<Longrightarrow> sp_count (sa_heap a' s) = sp_count (sa_heap a s) \<and>
      sp_page_len (sa_heap a' s) = sp_page_len (sa_heap a s)"
  shows "alloc_inv base N chain loose a'"
proof -
  have "linked (page_size a) (sa_heap a') None base chain None = linked (page_size a) (sa_heap a) None base chain None"
    by (rule linked_cong) (use place in auto)
  then have "shape base N chain a'" using inv by (simp add: alloc_inv_def shape_def same)
  moreover have "status_ok chain loose a'"
    using inv rest by (force simp: alloc_inv_def status_ok_def span_ok_def same)
  moreover have "layers_ok chain loose a'" "objects_ok chain a'" "sizes_ok base N a'"
    using inv elems capacity_cong [OF same(1)] by (simp_all add: alloc_inv_def layers_ok_def layers_hold_def objects_ok_def sizes_ok_def same)
  ultimately show ?thesis using inv by (simp add: alloc_inv_def same)
qed

lemma OccupySpan_inv:
  assumes inv: "alloc_inv base N chain (insert s loose) a" and "s \<notin> loose" "(s, k) \<in> set chain" "sp_count (sa_heap a s) \<le> 1"
  shows "alloc_inv base N chain loose (OccupySpan s k a)"
proof -
  let ?a = "OccupySpan s k a"
  have same: "sa_config ?a = sa_config a" "sa_occupied ?a = s # sa_occupied a" "sa_layers ?a = sa_layers a" "sa_lut ?a = sa_lut a"
      "sa_elems ?a = sa_elems a"
    by (simp_all add: OccupySpan_def)
  have heap: "sa_heap ?a t = (if t = s then (sa_heap a s)\<lparr>sp_page_len := k, sp_count := 1\<rparr> else sa_heap a t)" for t
    using assms(4) by (simp add: OccupySpan_def)
  have s: "s \<notin> set (sa_occupied a)" using inv by (simp add: alloc_inv_def)
  have "linked (page_size a) (sa_heap ?a) None base chain None = linked (page_size a) (sa_heap a) None base chain None"
    by (rule linked_cong) (simp add: heap)
  then have "shape base N chain ?a" using inv by (simp add: alloc_inv_def shape_def same)
  moreover have "span_ok chain (t \<in> set (sa_occupied ?a)) (sa_heap ?a t) n" if "(t, n) \<in> set chain" "t \<notin> loose" for t n
  proof (cases "t = s")
    case True
    then have "n = k" using chain_unique [OF alloc_inv_distinct [OF inv] assms(3), of n] that(1) by simp
    with True show ?thesis unfolding span_ok_def heap same by simp
  next
    case False
    with inv that have "span_ok chain (t \<in> set (sa_occupied a)) (sa_heap a t) n" by (auto simp: alloc_inv_def status_ok_def)
    with False show ?thesis by (simp add: heap same)
  qed
  then have "status_ok chain loose ?a" by (auto simp: status_ok_def)
  moreover have "layers_ok chain loose ?a"
    using inv capacity_cong [OF same(1)] by (simp add: alloc_inv_def layers_ok_def layers_hold_def same)
  moreover have "objects_ok chain ?a" "sizes_ok base N ?a" "loose \<subseteq> fst ` set chain - set (sa_occupied ?a)"
    using inv s assms(2) capacity_cong [OF same(1)] by (auto simp: alloc_inv_def objects_ok_def sizes_ok_def same)
  ultimately show ?thesis by (simp add: alloc_inv_def)
qed

lemma occupied_release_inv:
  assumes inv: "alloc_inv base N chain loose a" and s: "s \<in> set (sa_occupied a)"
    and same: "sa_config a' = sa_config a" "sa_occupied a' = remove1 s (sa_occupied a)" "sa_layers a' = sa_layers a"
      "sa_lut a' = sa_lut a" "sa_elems a' = sa_elems a"
    and heap: "sa_heap a' = (sa_heap a)(s := (sa_heap a s)\<lparr>sp_count := c\<rparr>)"
  shows "alloc_inv base N chain (insert s loose) a'"
proof -
  have occ: "set (sa_occupied a') = set (sa_occupied a) - {s}" using inv by (simp add: alloc_inv_def objects_ok_def same)
  then have used: "set (sa_occupied a') \<union> insert s loose = set (sa_occupied a) \<union> loose" using s by auto
  have "linked (page_size a) (sa_heap a') None base chain None = linked (page_size a) (sa_heap a) None base chain None"
    by (rule linked_cong) (simp add: heap)
  then have "shape base N chain a'" using inv by (simp add: alloc_inv_def shape_def same)
  moreover have "status_ok chain (insert s loose) a'"
    using inv by (auto simp: alloc_inv_def status_ok_def occ heap)
  moreover have "layers_ok chain (insert s loose) a'"
    using inv capacity_cong [OF same(1)] unfolding alloc_inv_def layers_ok_def layers_hold_def used by (simp add: same)
  moreover have "objects_ok chain a'" "sizes_ok base N a'" "insert s loose \<subseteq> fst ` set chain - set (sa_occupied a')"
    using inv s capacity_cong [OF same(1)] by (auto simp: alloc_inv_def objects_ok_def sizes_ok_def occ same)
  ultimately show ?thesis by (simp add: alloc_inv_def)
qed

text \<open>An answer of \<open>operator new\<close> is no object in use.\<close>

definition fresh_for :: "host_answers \<Rightarrow> chain \<Rightarrow> bool" where
  "fresh_for ans chain \<longleftrightarrow> initial_count ans \<le> 1 \<and> (\<forall>x. new_span ans = Some x \<longrightarrow> x \<notin> fst ` set chain)"

lemma BlockAlloc_inv:
  assumes inv: "alloc_inv base N chain loose a" and "fresh_for ans chain" "BlockAlloc ans adr a = (Some b, a')"
  shows "alloc_inv base N chain loose a' \<and> b \<notin> fst ` set chain \<and> b \<notin> set (sa_elems a') \<and> sp_addr (sa_heap a' b) = adr \<and>
    sp_count (sa_heap a' b) \<le> 1 \<and> (\<forall>t. t \<noteq> b \<longrightarrow> sa_heap a' t = sa_heap a t) \<and> sa_config a' = sa_config a \<and>
    sa_occupied a' = sa_occupied a \<and> sa_layers a' = sa_layers a"
proof -
  obtain es where es: "ObjectAllocator_Alloc (new_span ans) (sa_elems a) = (Some b, es)"
    and a': "a' = upd_span b (\<lambda>p. \<lparr>sp_addr = adr, sp_page_len = 0, sp_prev = None, sp_next = None,
             sp_count = initial_count ans, sp_real_size = 0\<rparr>) (a\<lparr>sa_elems := es\<rparr>)"
    using assms(3) by (auto simp: BlockAlloc_def split: prod.splits option.splits)
  have el: "distinct (sa_elems a)" "set (sa_elems a) \<inter> fst ` set chain = {}"
    using inv by (simp_all add: alloc_inv_def objects_ok_def)
  have b: "b \<notin> fst ` set chain" "b \<notin> set es" "distinct es" "set es \<inter> fst ` set chain = {}"
    using es el assms(2) by (auto simp: ObjectAllocator_Alloc_def fresh_for_def split: list.splits)
  then have "alloc_inv base N chain loose a'"
    by (intro alloc_inv_heap [OF inv]) (auto simp: a')
  with b show ?thesis using assms(2) by (simp add: a' fresh_for_def)
qed

lemma BlockAlloc_None:
  assumes inv: "alloc_inv base N chain loose a" and "BlockAlloc ans adr a = (None, a')"
  shows "a' = a \<and> new_span ans = None"
  using assms(2) by (auto simp: BlockAlloc_def ObjectAllocator_Alloc_def split: prod.splits option.splits list.splits)

lemma SpanAllocator_Free_unused:
  assumes inv: "alloc_inv base N chain loose a" and "b \<notin> fst ` set chain" "b \<notin> set (sa_elems a)"
  shows "alloc_inv base N chain loose (SpanAllocator_Free b a)"
  using assms by (intro alloc_inv_heap [OF inv]) (auto simp: SpanAllocator_Free_def ObjectAllocator_Free_def alloc_inv_def objects_ok_def)


section \<open>Splitting and merging\<close>

lemma distinct_middle:
  assumes "distinct (map fst (A @ (s, n) # B))"
  shows "distinct (map fst B)" "s \<notin> fst ` set A" "s \<notin> fst ` set B" "\<And>t. t \<in> fst ` set A \<Longrightarrow> t \<notin> fst ` set B"
  using assms by auto

lemma first_span_in: "first_span B None = Some t \<Longrightarrow> t \<in> fst ` set B"
  by (cases B) auto

lemma SetBuddy_frame [simp]:
  "sa_config (SetBuddy s b a) = sa_config a" "sa_occupied (SetBuddy s b a) = sa_occupied a" "sa_layers (SetBuddy s b a) = sa_layers a"
  "sa_lut (SetBuddy s b a) = sa_lut a" "sa_elems (SetBuddy s b a) = sa_elems a"
  by (simp_all add: SetBuddy_def Let_def split: option.split)

lemma SetBuddy_shape:
  assumes sh: "shape base N (A @ (s, n) # B) a" and b: "b \<notin> fst ` set (A @ (s, n) # B)"
    and k: "0 < k" "k < n" and adr: "sp_addr (sa_heap a b) = sp_addr (sa_heap a s) + (n - k) * page_size a"
  shows "shape base N (A @ (s, n - k) # (b, k) # B) (SetBuddy s b a)"
proof -
  let ?h = "sa_heap a" and ?h' = "sa_heap (SetBuddy s b a)" and ?pg = "page_size a"
  have d: "distinct (map fst (A @ (s, n) # B))" using sh by (simp add: shape_def)
  note ids = distinct_middle [OF d]
  have L: "linked ?pg ?h None base A (Some s)" "sp_prev (?h s) = last_span A None" "sp_addr (?h s) = base + pages A * ?pg"
      "sp_next (?h s) = first_span B None" "linked ?pg ?h (Some s) (base + pages A * ?pg + n * ?pg) B None"
    using sh by (auto simp: shape_def linked_append)
  have nb: "b \<noteq> s" "b \<notin> fst ` set A" "b \<notin> fst ` set B" using b by auto
  have h': "?h' t = (if t = b then (?h b)\<lparr>sp_next := first_span B None, sp_prev := Some s\<rparr>
      else if t = s then (?h s)\<lparr>sp_next := Some b\<rparr> else if first_span B None = Some t then (?h t)\<lparr>sp_prev := Some b\<rparr> else ?h t)" for t
    using nb ids(3) first_span_in [of B] by (auto simp: SetBuddy_def Let_def L(4) split: option.split)
  have notA: "first_span B None \<noteq> Some t" if "t \<in> fst ` set A" for t using first_span_in [of B t] ids(4) [OF that] by blast
  have "linked ?pg ?h' None base A (Some s) = linked ?pg ?h None base A (Some s)"
    by (rule linked_cong) (use ids(2) nb(2) notA in \<open>auto simp: h'\<close>)
  moreover have "linked ?pg ?h' (Some b) (base + pages A * ?pg + n * ?pg) B None"
    by (rule linked_relink [OF L(5) ids(1)]) (use ids(3) nb(3) in \<open>auto simp: h'\<close>)
  moreover have "sp_addr (?h' s) = base + pages A * ?pg" "sp_prev (?h' s) = last_span A None" "sp_next (?h' s) = Some b"
      "sp_prev (?h' b) = Some s" "sp_next (?h' b) = first_span B None"
      "sp_addr (?h' b) = base + pages A * ?pg + (n - k) * ?pg"
    using nb(1) L(2,3) adr by (simp_all add: h')
  moreover have "(n - k) * ?pg + k * ?pg = n * ?pg" using k by (simp flip: add_mult_distrib)
  ultimately have "linked ?pg ?h' None base (A @ (s, n - k) # (b, k) # B) None"
    using L(1) by (simp add: linked_append first_span_append add.assoc)
  then show ?thesis using sh k nb by (auto simp: shape_def)
qed

lemma SetBuddy_inv:
  assumes inv: "alloc_inv base N (A @ (s, n) # B) (insert s loose) a" and b: "b \<notin> fst ` set (A @ (s, n) # B)" "b \<notin> set (sa_elems a)"
    and k: "0 < k" "k < n" and adr: "sp_addr (sa_heap a b) = sp_addr (sa_heap a s) + (n - k) * page_size a"
  shows "alloc_inv base N (A @ (s, n - k) # (b, k) # B) (insert s (insert b loose)) (SetBuddy s b a)"
proof -
  let ?a = "SetBuddy s b a" and ?c = "A @ (s, n) # B" and ?c' = "A @ (s, n - k) # (b, k) # B"
  have sh: "shape base N ?c' ?a" using SetBuddy_shape [OF _ b(1) k adr] inv by (simp add: alloc_inv_def)
  have st: "status_ok ?c (insert s loose) a" and L: "insert s loose \<subseteq> fst ` set ?c - set (sa_occupied a)"
      and ob: "objects_ok ?c a" using inv by (simp_all add: alloc_inv_def)
  have keep: "sp_count (sa_heap ?a t) = sp_count (sa_heap a t)" "sp_page_len (sa_heap ?a t) = sp_page_len (sa_heap a t)" for t
    by (simp_all add: SetBuddy_def Let_def split: option.split)
  have "status_ok ?c' (insert s (insert b loose)) ?a"
    using st by (force simp: status_ok_def span_ok_def keep)
  moreover have "free_spans ?c' (set (sa_occupied a) \<union> insert s (insert b loose)) = free_spans ?c (set (sa_occupied a) \<union> insert s loose)"
    using b(1) by (force simp: fun_eq_iff free_spans_def)
  then have "layers_ok ?c' (insert s (insert b loose)) ?a"
    using inv by (simp add: alloc_inv_def layers_ok_def layers_hold_def span_layer_capacity_def)
  moreover have "objects_ok ?c' ?a" using ob b(2) by (auto simp: objects_ok_def)
  moreover have "sizes_ok base N ?a" using inv by (simp add: alloc_inv_def sizes_ok_def span_layer_capacity_def)
  moreover have "b \<notin> set (sa_occupied a)" using ob b(1) by (auto simp: objects_ok_def)
  then have "insert s (insert b loose) \<subseteq> fst ` set ?c' - set (sa_occupied ?a)" using L by auto
  ultimately show ?thesis using sh by (simp add: alloc_inv_def)
qed

lemma MergeBuddy_shape:
  assumes sh: "shape base N (A @ (s, n) # (t, m) # B) a"
  shows "shape base N (A @ (s, n + m) # B) (MergeBuddy s t a)"
proof -
  let ?h = "sa_heap a" and ?h' = "sa_heap (MergeBuddy s t a)" and ?pg = "page_size a"
  have d: "distinct (map fst (A @ (s, n) # (t, m) # B))" using sh by (simp add: shape_def)
  note ids = distinct_middle [OF d]
  have dB: "distinct (map fst B)" "s \<notin> fst ` set B" "t \<notin> fst ` set B" "s \<noteq> t" using d by auto
  have L: "linked ?pg ?h None base A (Some s)" "sp_prev (?h s) = last_span A None" "sp_addr (?h s) = base + pages A * ?pg"
      "sp_next (?h s) = Some t" "sp_prev (?h t) = Some s" "sp_next (?h t) = first_span B None"
      "linked ?pg ?h (Some t) (base + pages A * ?pg + n * ?pg + m * ?pg) B None"
    using sh by (auto simp: shape_def linked_append)
  have h': "?h' r = (if r = s then (?h s)\<lparr>sp_next := first_span B None, sp_page_len := add32 (sp_page_len (?h s)) (sp_page_len (?h t))\<rparr>
      else if first_span B None = Some r then (?h r)\<lparr>sp_prev := Some s\<rparr> else ?h r)" for r
    using dB first_span_in [of B] by (auto simp: MergeBuddy_def Let_def L split: option.split)
  have notA: "first_span B None \<noteq> Some r" if "r \<in> fst ` set A" for r using first_span_in [of B r] ids(4) [OF that] by auto
  have "linked ?pg ?h' None base A (Some s) = linked ?pg ?h None base A (Some s)"
    by (rule linked_cong) (use ids(2) notA in \<open>auto simp: h'\<close>)
  moreover have "linked ?pg ?h' (Some s) (base + pages A * ?pg + n * ?pg + m * ?pg) B None"
    by (rule linked_relink [OF L(7) dB(1)]) (use dB in \<open>auto simp: h'\<close>)
  moreover have "sp_addr (?h' s) = base + pages A * ?pg" "sp_prev (?h' s) = last_span A None" "sp_next (?h' s) = first_span B None"
    using L(2,3) by (simp_all add: h')
  ultimately have "linked ?pg ?h' None base (A @ (s, n + m) # B) None"
    using L(1) by (simp add: linked_append add.assoc add_mult_distrib)
  moreover have "sa_config (MergeBuddy s t a) = sa_config a"
    by (simp add: MergeBuddy_def Let_def split: option.split)
  ultimately show ?thesis using sh by (auto simp: shape_def)
qed


lemma MergeBuddy_frame [simp]:
  "sa_config (MergeBuddy s t a) = sa_config a" "sa_occupied (MergeBuddy s t a) = sa_occupied a" "sa_layers (MergeBuddy s t a) = sa_layers a"
  "sa_lut (MergeBuddy s t a) = sa_lut a" "sa_elems (MergeBuddy s t a) = sa_elems a"
  "sp_addr (sa_heap (MergeBuddy s t a) r) = sp_addr (sa_heap a r)" "sp_count (sa_heap (MergeBuddy s t a) r) = sp_count (sa_heap a r)"
  by (simp_all add: MergeBuddy_def Let_def split: option.split)

lemma MergeBuddy_page_len:
  assumes "shape base N (A @ (s, n) # (t, m) # B) a"
  shows "sp_page_len (sa_heap (MergeBuddy s t a) r) =
     (if r = s then add32 (sp_page_len (sa_heap a s)) (sp_page_len (sa_heap a t)) else sp_page_len (sa_heap a r))"
proof -
  have "sp_next (sa_heap a s) = Some t" "sp_prev (sa_heap a t) = Some s" "s \<noteq> t"
    using assms by (auto simp: shape_def linked_append)
  moreover have "sp_next (sa_heap a t) \<noteq> Some s"
    using assms first_span_in [of B s] by (auto simp: shape_def linked_append)
  ultimately show ?thesis by (simp add: MergeBuddy_def Let_def split: option.split)
qed

lemma merge_inv:
  assumes inv: "alloc_inv base N (A @ (s, n) # (t, m) # B) (insert s (insert t loose)) a" and "s \<notin> loose" "t \<notin> loose"
    and len: "sp_page_len (sa_heap a s) = n" "sp_page_len (sa_heap a t) = m"
  shows "alloc_inv base N (A @ (s, n + m) # B) (insert s loose) (SpanAllocator_Free t (MergeBuddy s t a)) \<and>
    sp_page_len (sa_heap (SpanAllocator_Free t (MergeBuddy s t a)) s) = n + m"
proof -
  let ?c = "A @ (s, n) # (t, m) # B" and ?c' = "A @ (s, n + m) # B" and ?a = "MergeBuddy s t a"
  have sh: "shape base N ?c a" and st: "status_ok ?c (insert s (insert t loose)) a" and ob: "objects_ok ?c a"
    and L: "insert s (insert t loose) \<subseteq> fst ` set ?c - set (sa_occupied a)" and sz: "sizes_ok base N a"
    using inv by (simp_all add: alloc_inv_def)
  have d: "distinct (map fst ?c)" "pages ?c = N" using sh by (auto simp: shape_def)
  note ids = distinct_middle [OF d(1)]
  have t: "t \<notin> fst ` set ?c'" using d(1) by auto
  have "add32 n m = n + m" using d(2) sz by (intro add32_id) (simp add: sizes_ok_def)
  then have len': "sp_page_len (sa_heap ?a r) = (if r = s then n + m else sp_page_len (sa_heap a r))" for r
    using MergeBuddy_page_len [OF sh] len by simp
  have "shape base N ?c' ?a" by (rule MergeBuddy_shape [OF sh])
  moreover have "status_ok ?c' (insert s loose) ?a"
    using st t by (force simp: status_ok_def span_ok_def len')
  moreover have "free_spans ?c' (set (sa_occupied a) \<union> insert s loose) = free_spans ?c (set (sa_occupied a) \<union> insert s (insert t loose))"
    using t by (force simp: fun_eq_iff free_spans_def)
  then have "layers_ok ?c' (insert s loose) ?a"
    using inv by (simp add: alloc_inv_def layers_ok_def layers_hold_def span_layer_capacity_def)
  moreover have "t \<notin> set (sa_occupied a)" using L by auto
  then have "objects_ok ?c' ?a" using ob by (auto simp: objects_ok_def)
  moreover have "sizes_ok base N ?a" using sz by (simp add: sizes_ok_def)
  moreover have "insert s loose \<subseteq> fst ` set ?c' - set (sa_occupied ?a)" using L assms(3) by auto
  ultimately have inv': "alloc_inv base N ?c' (insert s loose) ?a" by (simp add: alloc_inv_def)
  moreover have "t \<notin> set (sa_elems ?a)" using ob by (auto simp: objects_ok_def)
  ultimately have "alloc_inv base N ?c' (insert s loose) (SpanAllocator_Free t ?a)" using t by (intro SpanAllocator_Free_unused)
  moreover have "s \<noteq> t" using d(1) by auto
  ultimately show ?thesis by (simp add: SpanAllocator_Free_def len')
qed

lemma PickOutBuddy_busy:
  "alloc_inv base N chain loose a \<Longrightarrow> (t, m) \<in> set chain \<Longrightarrow> t \<in> set (sa_occupied a) \<Longrightarrow> PickOutBuddy (Some t) a = (None, a)"
  by (force simp: alloc_inv_def status_ok_def span_ok_def PickOutBuddy_def)

lemma PickOutBuddy_free:
  assumes inv: "alloc_inv base N chain loose a" and t: "(t, m) \<in> set chain" "t \<notin> set (sa_occupied a)" "t \<notin> loose"
    and "length chain \<noteq> 1"
  obtains a1 where "PickOutBuddy (Some t) a = (Some t, a1)" "alloc_inv base N chain (insert t loose) a1" "sa_heap a1 = sa_heap a"
    "sa_occupied a1 = sa_occupied a" "sa_config a1 = sa_config a" "sp_page_len (sa_heap a t) = m" "sp_count (sa_heap a t) = 0"
proof -
  let ?F = "free_spans chain (set (sa_occupied a) \<union> loose)"
  have "span_ok chain False (sa_heap a t) m" using inv t by (force simp: alloc_inv_def status_ok_def)
  then have ok: "sp_count (sa_heap a t) = 0" "sp_page_len (sa_heap a t) = m" using assms(5) by (simp_all add: span_ok_def)
  have H: "layers_hold ?F a" using inv by (simp add: alloc_inv_def layers_ok_def)
  have F: "t \<in> ?F m" using t by (simp add: free_spans_def)
  then obtain xs where xs: "sa_layers a m = Some xs" using H by (force simp: layers_hold_def)
  note X = layers_hold_Some [OF H xs]
  have pick: "PickOutBuddy (Some t) a = (Some t, RemoveFromLayer m t a)" using ok xs X by (simp add: PickOutBuddy_def)
  have "alloc_inv base N chain (insert t loose) (RemoveFromLayer m t a)"
    using take_out_inv [OF inv xs, of t "RemoveFromLayer m t a"] X F by (simp add: RemoveFromLayer_def xs)
  moreover have "sa_heap (RemoveFromLayer m t a) = sa_heap a" "sa_occupied (RemoveFromLayer m t a) = sa_occupied a"
      "sa_config (RemoveFromLayer m t a) = sa_config a"
    by (simp_all add: RemoveFromLayer_def xs)
  ultimately show ?thesis using pick ok that by blast
qed


section \<open>Release merges with the free neighbours\<close>

text \<open>No two neighbours are both free.\<close>

fun coalesced :: "nat set \<Rightarrow> chain \<Rightarrow> bool" where
  "coalesced busy ((s, n) # (t, m) # xs) \<longleftrightarrow> (s \<in> busy \<or> t \<in> busy) \<and> coalesced busy ((t, m) # xs)"
| "coalesced busy xs \<longleftrightarrow> True"

lemma coalesced_Cons: "coalesced busy ((s, n) # xs) \<longleftrightarrow> (s \<in> busy \<or> (\<forall>t. first_span xs None = Some t \<longrightarrow> t \<in> busy)) \<and> coalesced busy xs"
  by (cases xs) auto

lemma coalesced_append:
  "coalesced busy (xs @ ys) \<longleftrightarrow> coalesced busy xs \<and> coalesced busy ys \<and>
     (\<forall>s t. last_span xs None = Some s \<and> first_span ys None = Some t \<longrightarrow> s \<in> busy \<or> t \<in> busy)"
proof (induction xs)
  case (Cons x xs)
  obtain s n where "x = (s, n)" by (cases x)
  with Cons show ?case by (cases xs) (auto simp: coalesced_Cons last_span_def)
qed simp

lemma coalesced_cong: "(\<And>s. s \<in> fst ` set xs \<Longrightarrow> s \<in> busy \<longleftrightarrow> s \<in> busy') \<Longrightarrow> coalesced busy xs \<longleftrightarrow> coalesced busy' xs"
  by (induction busy xs rule: coalesced.induct) auto

lemma coalesced_mono: "coalesced busy xs \<Longrightarrow> busy \<subseteq> busy' \<Longrightarrow> coalesced busy' xs"
  by (induction busy xs rule: coalesced.induct) auto

text \<open>The occupied spans stay where they are.\<close>

definition keeps :: "nat set \<Rightarrow> ScalableAllocator \<Rightarrow> ScalableAllocator \<Rightarrow> bool" where
  "keeps busy a a' \<longleftrightarrow> sa_config a' = sa_config a \<and>
     (\<forall>t \<in> busy. sp_addr (sa_heap a' t) = sp_addr (sa_heap a t) \<and> sp_page_len (sa_heap a' t) = sp_page_len (sa_heap a t))"

lemma keeps_refl [simp]: "keeps busy a a"
  by (simp add: keeps_def)

lemma keeps_trans: "keeps busy a b \<Longrightarrow> keeps busy b c \<Longrightarrow> keeps busy a c"
  by (simp add: keeps_def)

lemma alloc_inv_links:
  assumes "alloc_inv base N (A @ (s, n) # B) loose a"
  shows "sp_prev (sa_heap a s) = last_span A None" "sp_next (sa_heap a s) = first_span B None"
    "sp_addr (sa_heap a s) = base + pages A * page_size a"
  using assms by (auto simp: alloc_inv_def shape_def linked_append)

lemma merge_keeps:
  assumes "shape base N (A @ (s, n) # (t, m) # B) a" "s \<notin> busy" "t \<notin> busy"
  shows "keeps busy a (SpanAllocator_Free t (MergeBuddy s t a))"
  using assms MergeBuddy_page_len [OF assms(1)] by (auto simp: keeps_def SpanAllocator_Free_def)

lemma TryMergeNext_inv:
  assumes inv: "alloc_inv base N (A @ (s, n) # B) {s} a" and len: "sp_page_len (sa_heap a s) = n" "sp_count (sa_heap a s) = 0"
    and co: "coalesced (set (sa_occupied a)) A" "coalesced (set (sa_occupied a)) B"
  shows "\<exists>a' n' B'. TryMergeNext s a = (s, a') \<and> alloc_inv base N (A @ (s, n') # B') {s} a' \<and>
    sp_page_len (sa_heap a' s) = n' \<and> sp_count (sa_heap a' s) = 0 \<and> sa_occupied a' = sa_occupied a \<and>
    coalesced (set (sa_occupied a)) ((s, n') # B') \<and> keeps (set (sa_occupied a)) a a'"
proof (cases B)
  case Nil
  then show ?thesis using alloc_inv_links(2) [OF inv] inv len
    by (intro exI [of _ a] exI [of _ n] exI [of _ "[]"]) (simp add: TryMergeNext_def PickOutBuddy_def)
next
  case (Cons x B')
  obtain t m where x: "x = (t, m)" by (cases x)
  have next_s: "sp_next (sa_heap a s) = Some t" using alloc_inv_links(2) [OF inv] Cons x by simp
  have d: "distinct (map fst (A @ (s, n) # B))" using inv by (rule alloc_inv_distinct)
  have s: "s \<notin> set (sa_occupied a)" using inv by (simp add: alloc_inv_def)
  show ?thesis
  proof (cases "t \<in> set (sa_occupied a)")
    case True
    then have "TryMergeNext s a = (s, a)"
      using PickOutBuddy_busy [OF inv, of t m] Cons x next_s by (simp add: TryMergeNext_def)
    then show ?thesis using inv len co True Cons x
      by (intro exI [of _ a] exI [of _ n] exI [of _ B]) (simp add: coalesced_Cons)
  next
    case False
    obtain a1 where a1: "PickOutBuddy (Some t) a = (Some t, a1)" "alloc_inv base N (A @ (s, n) # B) (insert t {s}) a1"
        "sa_heap a1 = sa_heap a" "sa_occupied a1 = sa_occupied a" "sa_config a1 = sa_config a" "sp_page_len (sa_heap a t) = m"
      using PickOutBuddy_free [OF inv, of t m] False Cons x d by auto
    let ?a = "SpanAllocator_Free t (MergeBuddy s t a1)"
    have st: "s \<noteq> t" using d Cons x by auto
    have "alloc_inv base N (A @ (s, n + m) # B') {s} ?a \<and> sp_page_len (sa_heap ?a s) = n + m"
      using merge_inv [of base N A s n t m B' "{}" a1] a1 len Cons x by (simp add: insert_commute)
    moreover have "keeps (set (sa_occupied a)) a1 ?a"
      using a1(2) s False Cons x by (intro merge_keeps [of base N A s n t m B']) (simp_all add: alloc_inv_def)
    then have "keeps (set (sa_occupied a)) a ?a" using a1 by (simp add: keeps_def)
    moreover have "TryMergeNext s a = (s, ?a)" using next_s a1 by (simp add: TryMergeNext_def)
    moreover have "coalesced (set (sa_occupied a)) ((s, n + m) # B')" using co(2) False Cons x by (auto simp: coalesced_Cons)
    ultimately show ?thesis using len a1 st
      by (intro exI [of _ ?a] exI [of _ "n + m"] exI [of _ B']) (simp add: SpanAllocator_Free_def)
  qed
qed

lemma TryMergePrev_inv:
  assumes inv: "alloc_inv base N (A @ (s, n) # B) {s} a" and len: "sp_page_len (sa_heap a s) = n" "sp_count (sa_heap a s) = 0"
    and co: "coalesced (set (sa_occupied a)) A" "coalesced (set (sa_occupied a)) ((s, n) # B)"
  shows "\<exists>p a' n' A'. TryMergePrev s a = (p, a') \<and> alloc_inv base N (A' @ (p, n') # B) {p} a' \<and>
    sp_page_len (sa_heap a' p) = n' \<and> sp_count (sa_heap a' p) = 0 \<and> sa_occupied a' = sa_occupied a \<and>
    coalesced (set (sa_occupied a)) (A' @ (p, n') # B) \<and> keeps (set (sa_occupied a)) a a'"
proof (cases A rule: rev_cases)
  case Nil
  then show ?thesis using alloc_inv_links(1) [OF inv] inv len co
    by (intro exI [of _ s] exI [of _ a] exI [of _ n] exI [of _ "[]"]) (simp add: TryMergePrev_def PickOutBuddy_def)
next
  case (snoc A' x)
  obtain p l where x: "x = (p, l)" by (cases x)
  have prev_s: "sp_prev (sa_heap a s) = Some p" using alloc_inv_links(1) [OF inv] snoc x by simp
  have d: "distinct (map fst (A @ (s, n) # B))" using inv by (rule alloc_inv_distinct)
  have s: "s \<notin> set (sa_occupied a)" using inv by (simp add: alloc_inv_def)
  show ?thesis
  proof (cases "p \<in> set (sa_occupied a)")
    case True
    then have "TryMergePrev s a = (s, a)"
      using PickOutBuddy_busy [OF inv, of p l] snoc x prev_s by (simp add: TryMergePrev_def)
    moreover have "coalesced (set (sa_occupied a)) (A @ (s, n) # B)" using co True snoc x by (simp add: coalesced_append)
    ultimately show ?thesis using inv len
      by (intro exI [of _ s] exI [of _ a] exI [of _ n] exI [of _ A]) simp
  next
    case False
    obtain a1 where a1: "PickOutBuddy (Some p) a = (Some p, a1)" "alloc_inv base N (A @ (s, n) # B) (insert p {s}) a1"
        "sa_heap a1 = sa_heap a" "sa_occupied a1 = sa_occupied a" "sa_config a1 = sa_config a" "sp_page_len (sa_heap a p) = l"
        "sp_count (sa_heap a p) = 0"
      using PickOutBuddy_free [OF inv, of p l] False snoc x d by auto
    let ?a = "SpanAllocator_Free s (MergeBuddy p s a1)"
    have ps: "p \<noteq> s" using d snoc x by auto
    have "alloc_inv base N (A' @ (p, l + n) # B) {p} ?a \<and> sp_page_len (sa_heap ?a p) = l + n"
      using merge_inv [of base N A' p l s n B "{}" a1] a1 len snoc x by simp
    moreover have "keeps (set (sa_occupied a)) a1 ?a"
      using a1(2) s False snoc x by (intro merge_keeps [of base N A' p l s n B]) (simp_all add: alloc_inv_def)
    then have "keeps (set (sa_occupied a)) a ?a" using a1 by (simp add: keeps_def)
    moreover have "TryMergePrev s a = (p, ?a)" using prev_s a1 by (simp add: TryMergePrev_def)
    moreover have "coalesced (set (sa_occupied a)) (A' @ (p, l + n) # B)"
      using co False s snoc x by (auto simp: coalesced_Cons coalesced_append)
    ultimately show ?thesis using a1 ps
      by (intro exI [of _ p] exI [of _ ?a] exI [of _ "l + n"] exI [of _ A']) (simp add: SpanAllocator_Free_def)
  qed
qed


lemma alloc_inv_member:
  assumes "alloc_inv base N chain loose a" "(s, n) \<in> set chain"
  shows "0 < n" "n \<le> N" "n < span_layer_capacity a" "n < 2 ^ 32"
proof -
  have "pages chain = N" "0 < n" "sizes_ok base N a" using assms by (auto simp: alloc_inv_def shape_def)
  then show "0 < n" "n \<le> N" "n < span_layer_capacity a" "n < 2 ^ 32"
    using pages_member [OF assms(2)] sizes_capacity [of base N a] by (auto simp: sizes_ok_def)
qed

lemma FetchSpanLayer_ok: "new_layer ans \<noteq> None \<Longrightarrow> k < span_layer_capacity a \<Longrightarrow> \<exists>a'. FetchSpanLayer ans k a = (True, a')"
  by (auto simp: FetchSpanLayer_def ObjectAllocator_Alloc_def split: list.splits)

lemma PushSpanToLayer_frame [simp]:
  "sa_config (PushSpanToLayer k s a) = sa_config a" "sa_heap (PushSpanToLayer k s a) = sa_heap a"
  "sa_occupied (PushSpanToLayer k s a) = sa_occupied a" "sa_elems (PushSpanToLayer k s a) = sa_elems a"
  by (simp_all add: PushSpanToLayer_def split: option.split)

lemma FreeSpan_inv:
  assumes inv: "alloc_inv base N chain {p} a" and p: "(p, n) \<in> set chain" "sp_page_len (sa_heap a p) = n" "sp_count (sa_heap a p) = 0"
    and "new_layer ans \<noteq> None"
  shows "alloc_inv base N chain {} (FreeSpan ans p a) \<and> sa_occupied (FreeSpan ans p a) = sa_occupied a \<and> keeps busy a (FreeSpan ans p a)"
proof -
  obtain a1 where a1: "FetchSpanLayer ans n a = (True, a1)"
    using FetchSpanLayer_ok [OF assms(5) alloc_inv_member(3) [OF inv p(1)]] by auto
  note F = FetchSpanLayer_inv [OF inv a1]
  have "alloc_inv base N chain {} (PushSpanToLayer n p a1)"
    using F p by (intro PushSpanToLayer_inv) (auto simp: span_ok_def)
  then have "alloc_inv base N chain {} (FreeSpan ans p a)"
    by (rule alloc_inv_cong) (simp_all add: FreeSpan_def Let_def p a1)
  then show ?thesis using F by (simp add: FreeSpan_def Let_def p a1 keeps_def)
qed

lemma ScalableAllocator_Free_inv:
  assumes inv: "alloc_inv base N chain {} a" and co: "coalesced (set (sa_occupied a)) chain" and s: "s \<in> set (sa_occupied a)"
    and ans: "new_layer ans \<noteq> None"
  defines "a' \<equiv> ScalableAllocator_Free ans s (upd_span s (\<lambda>p. p\<lparr>sp_count := 0\<rparr>) a)"
  shows "\<exists>chain'. alloc_inv base N chain' {} a' \<and> coalesced (set (sa_occupied a')) chain' \<and>
    set (sa_occupied a') = set (sa_occupied a) - {s} \<and> keeps (set (sa_occupied a) - {s}) a a'"
proof -
  define a2 where "a2 = (count_free s (upd_span s (\<lambda>p. p\<lparr>sp_count := 0\<rparr>) a))\<lparr>sa_occupied := remove1 s (sa_occupied a)\<rparr>"
  have occ: "set (sa_occupied a2) = set (sa_occupied a) - {s}" using inv by (simp add: a2_def alloc_inv_def objects_ok_def)
  obtain n where n: "(s, n) \<in> set chain" using inv s by (force simp: alloc_inv_def objects_ok_def)
  then obtain A B where chain: "chain = A @ (s, n) # B" by (auto dest: split_list)
  have len: "sp_page_len (sa_heap a2 s) = n" "sp_count (sa_heap a2 s) = 0"
    using inv n s by (force simp: a2_def count_free_def alloc_inv_def status_ok_def span_ok_def)+
  have inv2: "alloc_inv base N (A @ (s, n) # B) {s} a2"
    using occupied_release_inv [OF inv s, of a2 0] by (simp add: a2_def count_free_def chain)
  note ids = distinct_middle [OF alloc_inv_distinct [OF inv2]]
  have co2: "coalesced (set (sa_occupied a2)) A" "coalesced (set (sa_occupied a2)) B"
    using co ids(2,3) coalesced_cong [of A "set (sa_occupied a2)" "set (sa_occupied a)"]
      coalesced_cong [of B "set (sa_occupied a2)" "set (sa_occupied a)"]
    by (auto simp: chain coalesced_append coalesced_Cons occ)
  obtain a3 n3 B3 where 3: "TryMergeNext s a2 = (s, a3)" "alloc_inv base N (A @ (s, n3) # B3) {s} a3"
      "sp_page_len (sa_heap a3 s) = n3" "sp_count (sa_heap a3 s) = 0" "sa_occupied a3 = sa_occupied a2"
      "coalesced (set (sa_occupied a2)) ((s, n3) # B3)" "keeps (set (sa_occupied a2)) a2 a3"
    using TryMergeNext_inv [OF inv2 len co2] by blast
  obtain p a4 n4 A4 where 4: "TryMergePrev s a3 = (p, a4)" "alloc_inv base N (A4 @ (p, n4) # B3) {p} a4"
      "sp_page_len (sa_heap a4 p) = n4" "sp_count (sa_heap a4 p) = 0" "sa_occupied a4 = sa_occupied a2"
      "coalesced (set (sa_occupied a2)) (A4 @ (p, n4) # B3)" "keeps (set (sa_occupied a2)) a3 a4"
    using TryMergePrev_inv [OF 3(2-4)] 3(5,6) co2(1) by auto
  have a': "a' = FreeSpan ans p a4" using 3(1) 4(1) by (simp add: a'_def ScalableAllocator_Free_def a2_def Let_def count_free_def split: if_splits)
  have F: "alloc_inv base N (A4 @ (p, n4) # B3) {} a' \<and> sa_occupied a' = sa_occupied a4 \<and> keeps (set (sa_occupied a2)) a4 a'"
    unfolding a' by (rule FreeSpan_inv [OF 4(2) _ 4(3,4) ans]) simp
  have "keeps (set (sa_occupied a2)) a a2" by (simp add: keeps_def occ a2_def count_free_def)
  then have "keeps (set (sa_occupied a2)) a a'" using 3(7) 4(7) F keeps_trans by blast
  with F 4 show ?thesis by (intro exI [of _ "A4 @ (p, n4) # B3"]) (simp add: occ)
qed

section \<open>Allocation takes a free span\<close>

lemma OccupySpan_frame [simp]:
  "sa_config (OccupySpan s k a) = sa_config a" "sa_occupied (OccupySpan s k a) = s # sa_occupied a"
  "sp_addr (sa_heap (OccupySpan s k a) t) = sp_addr (sa_heap a t)"
  "sp_page_len (sa_heap (OccupySpan s k a) t) = (if t = s then k else sp_page_len (sa_heap a t))"
  by (simp_all add: OccupySpan_def)

lemma FetchLayerSpan_Some:
  assumes inv: "alloc_inv base N chain {} a" and f: "FetchLayerSpan k a = (Some s, a')"
  shows "alloc_inv base N chain {} a' \<and> sa_occupied a' = s # sa_occupied a \<and> (s, k) \<in> set chain \<and> s \<notin> set (sa_occupied a) \<and>
    keeps (set (sa_occupied a)) a a'"
proof -
  obtain a1 where a1: "PopSpanFromLayer k a = (Some s, a1)" "a' = OccupySpan s k a1"
    using f by (auto simp: FetchLayerSpan_def split: if_splits prod.splits option.splits)
  note P = PopSpanFromLayer_inv [OF inv a1(1)]
  have "alloc_inv base N chain {} a'" unfolding a1(2) using P by (intro OccupySpan_inv) (auto simp: span_ok_def)
  with P a1(2) show ?thesis by (auto simp: keeps_def)
qed

lemma FetchLayerSpan_None:
  assumes inv: "alloc_inv base N chain {} a" and f: "FetchLayerSpan k a = (None, a')"
  shows "a' = a \<and> free_spans chain (set (sa_occupied a)) k = {}"
proof (cases "sa_layers a k = None")
  case True
  with f inv show ?thesis by (simp add: FetchLayerSpan_def alloc_inv_def layers_ok_def layers_hold_def)
next
  case False
  with f have "PopSpanFromLayer k a = (None, a')" by (auto simp: FetchLayerSpan_def split: prod.splits option.splits)
  with PopSpanFromLayer_None [OF inv] show ?thesis by simp
qed


lemma buddy_address:
  assumes inv: "alloc_inv base N (A @ (s, j) # B) loose a" and k: "k < j"
  shows "PageLen_ForwardAddr (sub32 j k) (page_idem_num (sa_config a)) (sp_addr (sa_heap a s)) =
    sp_addr (sa_heap a s) + (j - k) * page_size a"
proof -
  have "pages (A @ (s, j) # B) = N" and sz: "base + N * page_size a < 2 ^ 64" using inv by (auto simp: alloc_inv_def shape_def sizes_ok_def)
  then have "pages A + (j - k) \<le> N" by simp
  then have "(pages A + (j - k)) * page_size a \<le> N * page_size a" by (rule mult_le_mono1)
  then have le: "base + pages A * page_size a + (j - k) * page_size a < 2 ^ 64" using sz by (simp add: add_mult_distrib)
  have "sub32 j k = j - k" using k alloc_inv_member(4) [OF inv, of s j] by (intro sub32_id) auto
  moreover have "mul64 (j - k) (page_size a) = (j - k) * page_size a" using le by (intro mul64_id) linarith
  ultimately show ?thesis
    using le alloc_inv_links(3) [OF inv] by (simp add: PageLen_ForwardAddr_def PageLen_GetMemSize_def add64_id)
qed

lemma SplitSpan_None:
  assumes inv: "alloc_inv base N chain {s} a" and s: "(s, j) \<in> set chain" "span_ok chain False (sa_heap a s) j" "sa_layers a j \<noteq> None"
    and "fresh_for ans chain" "SplitSpan ans k j s a = (None, a')" "k < j" "0 < k"
  shows "alloc_inv base N chain {} a' \<and> sa_occupied a' = sa_occupied a \<and> keeps (set (sa_occupied a)) a a' \<and>
    (new_span ans = None \<or> new_layer ans = None)"
proof -
  let ?l = "sub32 j k" and ?adr = "PageLen_ForwardAddr (sub32 j k) (page_idem_num (sa_config a)) (sp_addr (sa_heap a s))"
  have l: "?l < span_layer_capacity a" using assms(7) alloc_inv_member(3,4) [OF inv s(1)] sub32_id [of k j] by simp
  obtain r a1 where blk: "BlockAlloc ans ?adr a = (r, a1)" by (cases "BlockAlloc ans ?adr a")
  show ?thesis
  proof (cases r)
    case None
    with BlockAlloc_None [OF inv] blk have "a1 = a" "new_span ans = None" by auto
    moreover have "a' = PushSpanToLayer j s a1" using assms(6) blk None by (simp add: SplitSpan_def Let_def)
    moreover have "alloc_inv base N chain {} (PushSpanToLayer j s a)" using inv s by (intro PushSpanToLayer_inv) auto
    ultimately show ?thesis by (simp add: keeps_def)
  next
    case (Some b)
    note B = BlockAlloc_inv [OF inv assms(5) blk [unfolded Some]]
    obtain a2 where f: "FetchSpanLayer ans ?l a1 = (False, a2)" and a': "a' = PushSpanToLayer j s (SpanAllocator_Free b a2)"
      using assms(6) blk Some by (auto simp: SplitSpan_def Let_def split: prod.splits bool.splits)
    have F: "alloc_inv base N chain {s} a2 \<and> sa_occupied a2 = sa_occupied a1 \<and> sa_heap a2 = sa_heap a1 \<and> sa_config a2 = sa_config a1
        \<and> sa_elems a2 = sa_elems a1 \<and> (\<forall>j. sa_layers a1 j \<noteq> None \<longrightarrow> sa_layers a2 j \<noteq> None)"
      using FetchSpanLayer_inv [OF conjunct1 [OF B] f] by simp
    have "new_layer ans = None" using FetchSpanLayer_ok [of ans ?l a1] f l capacity_cong [of a1 a] B by auto
    moreover have "alloc_inv base N chain {s} (SpanAllocator_Free b a2)" using B F by (intro SpanAllocator_Free_unused) auto
    moreover have "b \<noteq> s" using B s(1) by force
    ultimately have "alloc_inv base N chain {} a'"
      unfolding a' using s B F by (intro PushSpanToLayer_inv) (auto simp: SpanAllocator_Free_def)
    moreover have "b \<notin> set (sa_occupied a)" using B inv by (auto simp: alloc_inv_def objects_ok_def)
    ultimately show ?thesis using \<open>new_layer ans = None\<close> B F by (auto simp: a' keeps_def SpanAllocator_Free_def)
  qed
qed

lemma SplitSpan_Some:
  assumes inv: "alloc_inv base N (A @ (s, j) # B) {s} a" and cnt: "sp_count (sa_heap a s) = 0"
    and fresh: "fresh_for ans (A @ (s, j) # B)" and split: "SplitSpan ans k j s a = (Some b, a')" and k: "k < j" "0 < k"
  shows "alloc_inv base N (A @ (s, j - k) # (b, k) # B) {} a' \<and> sa_occupied a' = b # sa_occupied a \<and> b \<notin> set (sa_occupied a) \<and>
    keeps (set (sa_occupied a)) a a'"
proof -
  let ?c = "A @ (s, j) # B" and ?c' = "A @ (s, j - k) # (b, k) # B"
  let ?l = "sub32 j k" and ?adr = "PageLen_ForwardAddr (sub32 j k) (page_idem_num (sa_config a)) (sp_addr (sa_heap a s))"
  have l: "?l = j - k" using k alloc_inv_member(4) [OF inv, of s j] by (intro sub32_id) auto
  obtain a1 a2 where blk: "BlockAlloc ans ?adr a = (Some b, a1)" and f: "FetchSpanLayer ans (j - k) a1 = (True, a2)"
    and a': "a' = OccupySpan b k (PushSpanToLayer (j - k) s (upd_span s (\<lambda>p. p\<lparr>sp_page_len := j - k\<rparr>) (SetBuddy s b a2)))"
    using split by (auto simp: SplitSpan_def Let_def l split: prod.splits option.splits bool.splits)
  note B = BlockAlloc_inv [OF inv fresh blk]
  have F: "alloc_inv base N ?c {s} a2 \<and> sa_occupied a2 = sa_occupied a1 \<and> sa_heap a2 = sa_heap a1 \<and> sa_config a2 = sa_config a1
      \<and> sa_elems a2 = sa_elems a1 \<and> sa_layers a2 (j - k) \<noteq> None"
    using FetchSpanLayer_inv [OF conjunct1 [OF B] f] by simp
  have bs: "b \<noteq> s" "b \<notin> fst ` set ?c" using B by auto
  then have bo: "b \<notin> set (sa_occupied a)" "s \<notin> set (sa_occupied a)" using inv by (auto simp: alloc_inv_def objects_ok_def)
  let ?a3 = "SetBuddy s b a2" and ?a4 = "upd_span s (\<lambda>p. p\<lparr>sp_page_len := j - k\<rparr>) (SetBuddy s b a2)"
  have keep: "sp_count (sa_heap ?a3 t) = sp_count (sa_heap a2 t)" "sp_addr (sa_heap ?a3 t) = sp_addr (sa_heap a2 t)"
      "sp_page_len (sa_heap ?a3 t) = sp_page_len (sa_heap a2 t)" for t
    by (simp_all add: SetBuddy_def Let_def split: option.split)
  have "sp_addr (sa_heap a2 b) = sp_addr (sa_heap a2 s) + (j - k) * page_size a2"
    using F B bs(1) buddy_address [OF inv k(1)] by simp
  then have i3: "alloc_inv base N ?c' (insert s {b}) ?a3"
    using F B k by (intro SetBuddy_inv) auto
  then have i4: "alloc_inv base N ?c' (insert s {b}) ?a4"
    by (rule alloc_inv_heap) (use i3 in \<open>auto simp: alloc_inv_def objects_ok_def\<close>)
  have i5: "alloc_inv base N ?c' {b} (PushSpanToLayer (j - k) s ?a4)"
    by (rule PushSpanToLayer_inv [OF i4]) (use bs F B cnt keep in \<open>auto simp: span_ok_def\<close>)
  have "alloc_inv base N ?c' {} a'"
    unfolding a' by (rule OccupySpan_inv) (use i5 bs B F keep in auto)
  moreover have "keeps (set (sa_occupied a)) a a'"
    using bs bo B F keep by (auto simp: keeps_def a')
  ultimately show ?thesis using F B bo by (simp add: a')
qed


section \<open>The number of pages of a request\<close>

lemma and_not_mask: "(w :: 64 word) AND NOT (mask p) = push_bit p (drop_bit p w)"
  by (rule bit_word_eqI) (auto simp: bit_simps)

lemma MemSize_GetAlignedOf_eq:
  assumes "n + 2 ^ p \<le> 2 ^ 64"
  shows "MemSize_GetAlignedOf n (2 ^ p) = (n + 2 ^ p - 1) div 2 ^ p * 2 ^ p"
proof -
  let ?x = "n + 2 ^ p - 1"
  have pos: "(0 :: nat) < 2 ^ p" by simp
  have x: "?x < 2 ^ 64" using assms pos by linarith
  have m: "(word_of_nat (2 ^ p - 1) :: 64 word) = mask p" by (simp add: of_nat_diff mask_eq_exp_minus_1)
  have "?x div 2 ^ p * 2 ^ p \<le> ?x" by simp
  then have "?x div 2 ^ p * 2 ^ p < 2 ^ 64" using x by linarith
  moreover have "unat (word_of_nat ?x :: 64 word) = ?x" using x by (simp add: unat_of_nat)
  ultimately show ?thesis using x
    unfolding MemSize_GetAlignedOf_def m and_not_mask unsigned_push_bit_eq unsigned_drop_bit_eq
    by (simp add: push_bit_eq_mult drop_bit_eq_div take_bit_eq_mod)
qed

definition pages_for :: "ScalableAllocator \<Rightarrow> nat \<Rightarrow> nat" where
  "pages_for a n = max 1 ((n + page_size a - 1) div page_size a)"

lemma pages_for_enough: "0 < pages_for a n" "n \<le> pages_for a n * page_size a"
proof -
  let ?p = "page_size a"
  have "n \<le> (n + ?p - 1) div ?p * ?p"
  proof -
    have "(n + ?p - 1) mod ?p < ?p" by simp
    moreover have "(n + ?p - 1) div ?p * ?p + (n + ?p - 1) mod ?p = n + ?p - 1" by (rule div_mult_mod_eq)
    moreover have "0 < ?p" by simp
    ultimately show ?thesis by linarith
  qed
  also have "\<dots> \<le> pages_for a n * ?p" by (intro mult_le_mono1) (simp add: pages_for_def)
  finally show "n \<le> pages_for a n * ?p" .
qed (simp add: pages_for_def)

lemma fix_layer_id_eq:
  assumes sz: "sizes_ok base N a" and n: "n \<le> page_mem_size_total_threshold (sa_config a)"
  shows "PageLen_GetLenFromSize (GetAllocSize a n) (page_idem_num (sa_config a)) = pages_for a n"
proof -
  let ?i = "page_idem_num (sa_config a)" and ?t = "page_mem_size_total_threshold (sa_config a)"
  have i: "?i \<le> 30" "?t div page_size a < 2 ^ 32 - 2" using sz by (auto simp: sizes_ok_def)
  have le: "page_size a \<le> 2 ^ 30" using i(1) by (rule power_increasing) simp
  have pg: "page_mem_size a = page_size a" using le by (simp add: page_mem_size_def PageLen_GetMemSize_def mul64_id)
  have "?t < (?t div page_size a + 1) * page_size a" by (simp add: dividend_less_times_div mult.commute)
  also have "\<dots> \<le> 2 ^ 32 * 2 ^ 30" using i(2) le by (intro mult_le_mono) auto
  finally have t: "n + page_size a \<le> 2 ^ 64" using n le by simp
  have "(n + page_size a - 1) div page_size a \<le> (?t + page_size a) div page_size a" by (rule div_le_mono) (use n in linarith)
  also have "\<dots> = ?t div page_size a + 1" by (rule div_add_self2) simp
  finally have q: "(n + page_size a - 1) div page_size a < 2 ^ 32" using i(2) by linarith
  show ?thesis
  proof (cases "n < page_size a")
    case True
    then have "n + page_size a - 1 < 2 * page_size a" by linarith
    then have "(n + page_size a - 1) div page_size a < 2" by (rule less_mult_imp_div_less)
    then show ?thesis using True by (simp add: GetAllocSize_def pg PageLen_GetLenFromSize_def pages_for_def)
  next
    case False
    then have "1 \<le> (n + page_size a - 1) div page_size a" by (simp add: div_greater_zero_iff Suc_leI)
    then show ?thesis using False q
      by (simp add: GetAllocSize_def pg PageLen_GetLenFromSize_def pages_for_def MemSize_GetAlignedOf_eq [OF t])
  qed
qed


lemma lut_free:
  assumes "alloc_inv base N chain {} a"
  shows "j \<in> set (sa_lut a) \<longleftrightarrow> free_spans chain (set (sa_occupied a)) j \<noteq> {}"
  using assms by (simp add: alloc_inv_def layers_ok_def layers_hold_def)

lemma FindFitLayerId_cases:
  assumes inv: "alloc_inv base N chain {} a"
  obtains (none) "span_layer_capacity a \<le> FindFitLayerId k lift (sa_lut a)"
      "lift \<noteq> 0 \<Longrightarrow> \<forall>j \<ge> k. free_spans chain (set (sa_occupied a)) j = {}"
  | (some) "k \<le> FindFitLayerId k lift (sa_lut a)" "FindFitLayerId k lift (sa_lut a) < span_layer_capacity a"
      "free_spans chain (set (sa_occupied a)) (FindFitLayerId k lift (sa_lut a)) \<noteq> {}"
proof (cases "lift = 0 \<or> find (\<lambda>j. k \<le> j) (sa_lut a) = None")
  case True
  have "span_layer_capacity a \<le> SPAN_LAYER_ID_INVALID"
    using inv sizes_capacity [of base N a] by (simp add: alloc_inv_def sizes_ok_def SPAN_LAYER_ID_INVALID_def)
  moreover have "FindFitLayerId k lift (sa_lut a) = SPAN_LAYER_ID_INVALID" using True by (auto simp: FindFitLayerId_def)
  moreover have "\<forall>j \<ge> k. free_spans chain (set (sa_occupied a)) j = {}" if "lift \<noteq> 0"
  proof -
    have "find (\<lambda>j. k \<le> j) (sa_lut a) = None" using True that by simp
    then have "\<forall>j \<in> set (sa_lut a). \<not> k \<le> j" by (auto simp: find_None_iff)
    then show ?thesis using lut_free [OF inv] by blast
  qed
  ultimately show ?thesis using none by simp
next
  case False
  then obtain j where j: "find (\<lambda>j. k \<le> j) (sa_lut a) = Some j" by auto
  then have "k \<le> j" "j \<in> set (sa_lut a)" by (auto simp: find_Some_iff)
  moreover from this obtain s where "(s, j) \<in> set chain" using lut_free [OF inv] by (auto simp: free_spans_def)
  then have "j < span_layer_capacity a" by (rule alloc_inv_member(3) [OF inv])
  moreover have "FindFitLayerId k lift (sa_lut a) = j" using False j by (simp add: FindFitLayerId_def)
  ultimately show ?thesis using some lut_free [OF inv] by simp
qed

text \<open>What an allocation of \<open>k\<close> pages does.\<close>

definition takes :: "nat \<Rightarrow> nat \<Rightarrow> nat \<Rightarrow> nat \<Rightarrow> ScalableAllocator \<Rightarrow> ScalableAllocator \<Rightarrow> bool" where
  "takes base N k s a a' \<longleftrightarrow>
     s \<notin> set (sa_occupied a) \<and> sa_occupied a' = s # sa_occupied a \<and> keeps (set (sa_occupied a)) a a' \<and>
     (\<exists>chain'. alloc_inv base N chain' {} a' \<and> coalesced (set (sa_occupied a')) chain' \<and> (s, k) \<in> set chain')"

definition refuses :: "nat \<Rightarrow> nat \<Rightarrow> chain \<Rightarrow> ScalableAllocator \<Rightarrow> ScalableAllocator \<Rightarrow> bool" where
  "refuses base N chain a a' \<longleftrightarrow>
     alloc_inv base N chain {} a' \<and> sa_occupied a' = sa_occupied a \<and> keeps (set (sa_occupied a)) a a'"

lemma FetchSplitedSpan_cases:
  assumes inv: "alloc_inv base N chain {} a" and co: "coalesced (set (sa_occupied a)) chain" and fresh: "fresh_for ans chain"
    and k: "0 < k" "k < j" and free: "free_spans chain (set (sa_occupied a)) j \<noteq> {}"
  shows "case FetchSplitedSpan ans k j a of
      (None, a') \<Rightarrow> refuses base N chain a a' \<and> (new_span ans = None \<or> new_layer ans = None)
    | (Some s, a') \<Rightarrow> takes base N k s a a'"
proof -
  have "layers_hold (free_spans chain (set (sa_occupied a))) a" using inv by (simp add: alloc_inv_def layers_ok_def)
  then obtain xs where "sa_layers a j = Some xs" "xs \<noteq> []" using free unfolding layers_hold_def by (cases "sa_layers a j") fastforce+
  then obtain s a1 where pop: "PopSpanFromLayer j a = (Some s, a1)" and eq: "FetchSplitedSpan ans k j a = SplitSpan ans k j s a1"
    using k by (cases xs) (simp_all add: FetchSplitedSpan_def PopSpanFromLayer_def)
  have P: "(s, j) \<in> set chain" "s \<notin> set (sa_occupied a)" "span_ok chain False (sa_heap a s) j" "alloc_inv base N chain {s} a1"
      "sa_occupied a1 = sa_occupied a" "sa_config a1 = sa_config a" "sa_heap a1 = sa_heap a" "sa_layers a1 j \<noteq> None"
    using PopSpanFromLayer_inv [OF inv pop] by simp_all
  have keeps1: "keeps (set (sa_occupied a)) a a1" using P by (simp add: keeps_def)
  obtain r a' where r: "SplitSpan ans k j s a1 = (r, a')" by (cases "SplitSpan ans k j s a1")
  show ?thesis
  proof (cases r)
    case None
    then show ?thesis using SplitSpan_None [OF P(4,1) _ P(8) fresh _ k(2,1)] r P keeps1
      by (auto simp: eq refuses_def intro: keeps_trans)
  next
    case (Some b)
    obtain A B where chain: "chain = A @ (s, j) # B" using P(1) by (auto dest: split_list)
    have S: "alloc_inv base N (A @ (s, j - k) # (b, k) # B) {} a'" "sa_occupied a' = b # sa_occupied a" "b \<notin> set (sa_occupied a)"
        "keeps (set (sa_occupied a)) a1 a'"
      using SplitSpan_Some [of base N A s j B a1 ans k b a'] P fresh r Some k by (auto simp: chain span_ok_def)
    have "coalesced (insert b (set (sa_occupied a))) chain" using co by (rule coalesced_mono) auto
    then have "coalesced (set (sa_occupied a')) (A @ (s, j - k) # (b, k) # B)"
      by (auto simp: S(2) chain coalesced_append coalesced_Cons)
    with S keeps1 show ?thesis unfolding eq r Some takes_def by (auto intro: keeps_trans)
  qed
qed

lemma AllocImp_cases:
  assumes inv: "alloc_inv base N chain {} a" and co: "coalesced (set (sa_occupied a)) chain" and fresh: "fresh_for ans chain"
    and n: "n \<le> page_mem_size_total_threshold (sa_config a)"
  shows "case AllocImp ans n a of
      (None, a') \<Rightarrow> refuses base N chain a a' \<and>
        (new_span ans \<noteq> None \<and> new_layer ans \<noteq> None \<and> span_layer_lift_max (sa_config a) \<noteq> 0 \<longrightarrow>
           (\<forall>j \<ge> pages_for a n. free_spans chain (set (sa_occupied a)) j = {}))
    | (Some s, a') \<Rightarrow> takes base N (pages_for a n) s a a'"
proof -
  let ?k = "pages_for a n"
  have sz: "sizes_ok base N a" using inv by (simp add: alloc_inv_def)
  have k: "PageLen_GetLenFromSize (GetAllocSize a n) (page_idem_num (sa_config a)) = ?k" by (rule fix_layer_id_eq [OF sz n])
  have real: "takes base N ?k s a (upd_span s (\<lambda>p. p\<lparr>sp_real_size := n\<rparr>) a')" if tk: "takes base N ?k s a a'" for s a'
  proof -
    obtain chain' where c: "alloc_inv base N chain' {} a'" "coalesced (set (sa_occupied a')) chain'" "(s, ?k) \<in> set chain'"
      using tk by (auto simp: takes_def)
    have "alloc_inv base N chain' {} (upd_span s (\<lambda>p. p\<lparr>sp_real_size := n\<rparr>) a')"
      by (rule alloc_inv_heap [OF c(1)]) (use c(1) in \<open>auto simp: alloc_inv_def objects_ok_def\<close>)
    with c tk show ?thesis by (auto simp: takes_def keeps_def)
  qed
  show ?thesis
  proof (cases "span_layer_capacity a \<le> ?k")
    case True
    then have "free_spans chain (set (sa_occupied a)) j = {}" if "?k \<le> j" for j
      using alloc_inv_member(3) [OF inv] that by (force simp: free_spans_def)
    with True inv show ?thesis by (simp add: AllocImp_def k refuses_def)
  next
    case small: False
    obtain r a1 where f: "FetchLayerSpan ?k a = (r, a1)" by (cases "FetchLayerSpan ?k a")
    show ?thesis
    proof (cases r)
      case (Some s)
      note S = FetchLayerSpan_Some [OF inv f [unfolded Some]]
      have "coalesced (set (sa_occupied a1)) chain" using S by (auto intro: coalesced_mono [OF co])
      then have "takes base N ?k s a a1" using S by (auto simp: takes_def)
      then show ?thesis using real f Some small by (simp add: AllocImp_def k)
    next
      case None
      note E = FetchLayerSpan_None [OF inv f [unfolded None]]
      have up: "add32 ?k 1 = ?k + 1" using small sizes_capacity [OF sz] sz by (intro add32_id) (simp add: sizes_ok_def)
      let ?j = "FindFitLayerId (?k + 1) (span_layer_lift_max (sa_config a)) (sa_lut a)"
      show ?thesis
      proof (cases rule: FindFitLayerId_cases [OF inv, of "?k + 1" "span_layer_lift_max (sa_config a)", case_names none some])
        case none
        have "free_spans chain (set (sa_occupied a)) j = {}" if "span_layer_lift_max (sa_config a) \<noteq> 0" "?k \<le> j" for j
          using none(2) [OF that(1)] that(2) E by (cases "j = ?k") auto
        with none(1) small f None E up inv show ?thesis by (simp add: AllocImp_def k refuses_def)
      next
        case some
        have "case FetchSplitedSpan ans ?k ?j a of
            (None, a') \<Rightarrow> refuses base N chain a a' \<and> (new_span ans = None \<or> new_layer ans = None)
          | (Some s, a') \<Rightarrow> takes base N ?k s a a'"
          using FetchSplitedSpan_cases [OF inv co fresh pages_for_enough(1) _ some(3)] some(1) by simp
        with some(2) small f None E up real show ?thesis
          by (auto simp: AllocImp_def k split: prod.splits option.splits)
      qed
    qed
  qed
qed


section \<open>The pool\<close>

lemma ScalableAllocator_Alloc_cases:
  assumes inv: "alloc_inv base N chain {} a" and co: "coalesced (set (sa_occupied a)) chain" and fresh: "fresh_for ans chain"
  shows "case ScalableAllocator_Alloc ans n a of
      (None, a') \<Rightarrow> refuses base N chain a a' \<and>
        (new_span ans \<noteq> None \<and> new_layer ans \<noteq> None \<and> span_layer_lift_max (sa_config a) \<noteq> 0 \<and>
         n \<le> page_mem_size_total_threshold (sa_config a) \<longrightarrow>
           (\<forall>j \<ge> pages_for a n. free_spans chain (set (sa_occupied a)) j = {}))
    | (Some s, a') \<Rightarrow> takes base N (pages_for a n) s a a'"
proof (cases "n \<le> page_mem_size_total_threshold (sa_config a)")
  case True
  have count: "takes base N k s a (count_alloc s a')" if tk: "takes base N k s a a'" for k s a'
  proof -
    obtain chain' where c: "alloc_inv base N chain' {} a'" "coalesced (set (sa_occupied a')) chain'" "(s, k) \<in> set chain'"
      using tk by (auto simp: takes_def)
    have same: "sa_config (count_alloc s a') = sa_config a'" "sa_occupied (count_alloc s a') = sa_occupied a'" "sa_heap (count_alloc s a') = sa_heap a'"
      by (simp_all add: count_alloc_def Let_def)
    have "alloc_inv base N chain' {} (count_alloc s a')" by (rule alloc_inv_cong [OF c(1)]) (simp_all add: count_alloc_def Let_def)
    with c tk show ?thesis unfolding takes_def keeps_def same by blast
  qed
  show ?thesis using AllocImp_cases [OF inv co fresh True] True count
    by (auto simp: ScalableAllocator_Alloc_def split: prod.splits option.splits)
next
  case False
  then show ?thesis using inv by (simp add: ScalableAllocator_Alloc_def refuses_def)
qed

text \<open>The objects of the spans in use.\<close>

definition in_use :: "ScalableAllocator \<Rightarrow> nat set" where
  "in_use a = set (sa_occupied a) \<union> {s. \<exists>k xs. sa_layers a k = Some xs \<and> s \<in> set xs}"

lemma in_use_chain:
  assumes "alloc_inv base N chain {} a"
  shows "in_use a = fst ` set chain"
proof -
  have H: "layers_hold (free_spans chain (set (sa_occupied a))) a" and o: "set (sa_occupied a) \<subseteq> fst ` set chain"
    using assms by (simp_all add: alloc_inv_def layers_ok_def objects_ok_def)
  have "s \<in> in_use a" if "(s, n) \<in> set chain" for s n
  proof (cases "s \<in> set (sa_occupied a)")
    case False
    with that have "s \<in> free_spans chain (set (sa_occupied a)) n" by (simp add: free_spans_def)
    with H show ?thesis by (cases "sa_layers a n") (auto simp: layers_hold_def in_use_def)
  qed (simp add: in_use_def)
  moreover have "s \<in> fst ` set chain" if "s \<in> in_use a" for s
  proof (cases "s \<in> set (sa_occupied a)")
    case True
    with o show ?thesis by blast
  next
    case False
    with that obtain k xs where "sa_layers a k = Some xs" "s \<in> set xs" by (auto simp: in_use_def)
    with layers_hold_Some [OF H] have "(s, k) \<in> set chain" by (auto simp: free_spans_def)
    then show ?thesis by (rule rev_image_eqI) simp
  qed
  ultimately show ?thesis by fastforce
qed

text \<open>What the environment promises: \<open>operator new\<close> answers no object in use, and a new block has at most one reference.\<close>

definition host_ok :: "host_answers \<Rightarrow> ScalableAllocator \<Rightarrow> bool" where
  "host_ok ans a \<longleftrightarrow> initial_count ans \<le> 1 \<and> (\<forall>x. new_span ans = Some x \<longrightarrow> x \<notin> in_use a)"

lemma host_ok_fresh: "host_ok ans a \<Longrightarrow> alloc_inv base N chain {} a \<Longrightarrow> fresh_for ans chain"
  by (simp add: host_ok_def fresh_for_def in_use_chain)

text \<open>The uses of a pool: it is initialised once, then memory is allocated and released in any order. \<open>live\<close> has the
  sizes of the requests that have not been released, by the address that was returned.\<close>

inductive pool_run :: "(nat \<Rightarrow> nat) \<Rightarrow> nat \<Rightarrow> nat \<Rightarrow> LlmMemPool \<Rightarrow> (nat \<rightharpoonup> nat) \<Rightarrow> bool" for drop_ref base n where
  initialize: "LlmMemPool_Initialize ans base n \<lparr>mp_allocator = new_ScalableAllocator cfg elems layer_elems heap, mp_addr_to_mem_block = Map.empty\<rparr>
      = (SUCCESS, mp) \<Longrightarrow> distinct elems \<Longrightarrow> base + n < 2 ^ 64 \<Longrightarrow> n div 2 ^ page_idem_num cfg < 2 ^ 32 \<Longrightarrow>
      page_mem_size_total_threshold cfg div 2 ^ page_idem_num cfg < 2 ^ 32 - 2 \<Longrightarrow> pool_run drop_ref base n mp Map.empty"
| alloc: "pool_run drop_ref base n mp live \<Longrightarrow> host_ok ans (mp_allocator mp) \<Longrightarrow> LlmMemPool_Alloc ans m mp = (Some p, mp') \<Longrightarrow>
      pool_run drop_ref base n mp' (live(p \<mapsto> m))"
| refused: "pool_run drop_ref base n mp live \<Longrightarrow> host_ok ans (mp_allocator mp) \<Longrightarrow> LlmMemPool_Alloc ans m mp = (None, mp') \<Longrightarrow>
      pool_run drop_ref base n mp' live"
| free: "pool_run drop_ref base n mp live \<Longrightarrow> new_layer ans \<noteq> None \<Longrightarrow> drop_ref 1 = 0 \<Longrightarrow>
      pool_run drop_ref base n (LlmMemPool_Free ans drop_ref p mp) (live(p := None))"

definition pool_inv :: "nat \<Rightarrow> nat \<Rightarrow> chain \<Rightarrow> LlmMemPool \<Rightarrow> (nat \<rightharpoonup> nat) \<Rightarrow> bool" where
  "pool_inv base N chain mp live \<longleftrightarrow>
     alloc_inv base N chain {} (mp_allocator mp) \<and> coalesced (set (sa_occupied (mp_allocator mp))) chain \<and>
     (\<forall>p s. mp_addr_to_mem_block mp p = Some s \<longleftrightarrow>
        s \<in> set (sa_occupied (mp_allocator mp)) \<and> p = sp_addr (sa_heap (mp_allocator mp) s)) \<and>
     dom live = dom (mp_addr_to_mem_block mp) \<and>
     (\<forall>p s m. mp_addr_to_mem_block mp p = Some s \<and> live p = Some m \<longrightarrow>
        sp_page_len (sa_heap (mp_allocator mp) s) = pages_for (mp_allocator mp) m)"

lemma MemPool_Initialize_inv:
  assumes init: "LlmMemPool_Initialize ans base n \<lparr>mp_allocator = new_ScalableAllocator cfg elems layer_elems heap, mp_addr_to_mem_block = Map.empty\<rparr>
      = (SUCCESS, mp)" and "distinct elems" "base + n < 2 ^ 64" and pg: "n div 2 ^ page_idem_num cfg < 2 ^ 32"
    "page_mem_size_total_threshold cfg div 2 ^ page_idem_num cfg < 2 ^ 32 - 2"
  shows "\<exists>chain. pool_inv base (n div page_size (mp_allocator mp)) chain mp Map.empty"
proof -
  let ?a0 = "new_ScalableAllocator cfg elems layer_elems heap" and ?N = "n div 2 ^ page_idem_num cfg" and ?i = "page_idem_num cfg"
  have i: "?i \<le> 30" "2 ^ ?i \<le> n" and ini: "InitFixSizedAllocator ans base n ?a0 = (SUCCESS, mp_allocator mp)"
    and m: "mp_addr_to_mem_block mp = Map.empty"
    using init by (auto simp: LlmMemPool_Initialize_def Let_def new_ScalableAllocator_def LLM_PARAM_INVALID_def SUCCESS_def split: if_splits prod.splits)
  have N: "PageLen_GetLenFromSize n ?i = ?N" "0 < ?N" using pg(1) i(2) by (simp_all add: PageLen_GetLenFromSize_def div_greater_zero_iff)
  have cap: "span_layer_capacity ?a0 = page_mem_size_total_threshold cfg div 2 ^ ?i + 1"
    using pg(2) by (simp add: span_layer_capacity_def new_ScalableAllocator_def PageLen_GetLenFromSize_def add32_id)
  obtain s es les where a: "(upd_span s (\<lambda>p. \<lparr>sp_addr = base, sp_page_len = 0, sp_prev = None, sp_next = None,
             sp_count = 0, sp_real_size = 0\<rparr>) ?a0)\<lparr>sa_elems := es, sa_layer_elems := les, sa_layers := [?N \<mapsto> [s]], sa_lut := [?N]\<rparr> = mp_allocator mp"
    and es: "ObjectAllocator_Alloc (new_span ans) elems = (Some s, es)" and cap': "?N < span_layer_capacity ?a0"
    using ini N(1) cap
    by (auto simp: InitFixSizedAllocator_def BlockAlloc_def FetchSpanLayer_def new_ScalableAllocator_def PushSpanToLayer_def lut_insert_def
        upd_span_def Let_def span_layer_capacity_def GE_FAILED_def SUCCESS_def insort_insert_key_def split: prod.splits option.splits if_splits)
  note a = a [symmetric]
  have "?N * 2 ^ ?i \<le> n" by (rule div_times_less_eq_dividend)
  then have "base + ?N * 2 ^ ?i < 2 ^ 64" using assms(3) by linarith
  then have sz: "sizes_ok base ?N (mp_allocator mp)"
    using cap cap' pg(2) i N(2) by (auto simp: sizes_ok_def a new_ScalableAllocator_def)
  have "s \<notin> set es \<and> distinct es" using es assms(2) by (auto simp: ObjectAllocator_Alloc_def split: list.splits)
  then have "objects_ok [(s, ?N)] (mp_allocator mp)" by (simp add: objects_ok_def a new_ScalableAllocator_def)
  moreover have "layers_ok [(s, ?N)] {} (mp_allocator mp)"
    using cap' by (auto simp: layers_ok_def layers_hold_def a new_ScalableAllocator_def free_spans_def span_layer_capacity_def split: if_splits)
  moreover have "shape base ?N [(s, ?N)] (mp_allocator mp)" using N(2) by (simp add: shape_def a new_ScalableAllocator_def)
  moreover have "status_ok [(s, ?N)] {} (mp_allocator mp)" by (simp add: status_ok_def span_ok_def a new_ScalableAllocator_def)
  ultimately have "alloc_inv base ?N [(s, ?N)] {} (mp_allocator mp)" using sz by (simp add: alloc_inv_def)
  then have "pool_inv base ?N [(s, ?N)] mp Map.empty" by (simp add: pool_inv_def m a new_ScalableAllocator_def)
  moreover have "sa_config (mp_allocator mp) = cfg" by (simp add: a new_ScalableAllocator_def)
  ultimately show ?thesis by auto
qed


lemma linked_place:
  assumes "linked pg h p adr xs q" "(s, n) \<in> set xs"
  shows "\<exists>i. sp_addr (h s) = adr + i * pg \<and> i + n \<le> pages xs"
proof -
  obtain A B where xs: "xs = A @ (s, n) # B" using assms(2) by (auto dest: split_list)
  then have "sp_addr (h s) = adr + pages A * pg" using assms(1) by (simp add: linked_append)
  with xs show ?thesis by (intro exI [of _ "pages A"]) simp
qed

lemma linked_apart:
  assumes "linked pg h p adr xs q" "(s, n) \<in> set xs" "(t, m) \<in> set xs" "s \<noteq> t"
  shows "sp_addr (h s) + n * pg \<le> sp_addr (h t) \<or> sp_addr (h t) + m * pg \<le> sp_addr (h s)"
  using assms
proof (induction xs arbitrary: p adr)
  case (Cons x xs)
  obtain r l where x: "x = (r, l)" by (cases x)
  have L: "sp_addr (h r) = adr" "linked pg h (Some r) (adr + l * pg) xs q" using Cons.prems(1) x by simp_all
  have "adr + l * pg \<le> sp_addr (h u)" if "(u, k) \<in> set xs" for u k using linked_place [OF L(2) that] by auto
  with Cons L x show ?case by auto
qed simp

lemma alloc_inv_place:
  assumes inv: "alloc_inv base N chain loose a" and s: "(s, n) \<in> set chain"
  shows "\<exists>i. sp_addr (sa_heap a s) = base + i * page_size a \<and> i + n \<le> N"
  using linked_place [of "page_size a" "sa_heap a" None base chain None s n] assms by (auto simp: alloc_inv_def shape_def)

lemma alloc_inv_apart:
  assumes "alloc_inv base N chain loose a" "(s, n) \<in> set chain" "(t, m) \<in> set chain" "s \<noteq> t"
  shows "sp_addr (sa_heap a s) + n * page_size a \<le> sp_addr (sa_heap a t) \<or> sp_addr (sa_heap a t) + m * page_size a \<le> sp_addr (sa_heap a s)"
  using linked_apart [of "page_size a" "sa_heap a" None base chain None s n t m] assms by (auto simp: alloc_inv_def shape_def)

lemma alloc_inv_occupied:
  assumes inv: "alloc_inv base N chain {} a" and s: "s \<in> set (sa_occupied a)"
  shows "(s, sp_page_len (sa_heap a s)) \<in> set chain" "sp_count (sa_heap a s) = 1"
proof -
  obtain n where "(s, n) \<in> set chain" using inv s by (force simp: alloc_inv_def objects_ok_def)
  moreover from this have "span_ok chain True (sa_heap a s) n" using inv s by (force simp: alloc_inv_def status_ok_def)
  ultimately show "(s, sp_page_len (sa_heap a s)) \<in> set chain" "sp_count (sa_heap a s) = 1" by (auto simp: span_ok_def)
qed

lemma occupied_addr_inj:
  assumes inv: "alloc_inv base N chain {} a" and "s \<in> set (sa_occupied a)" "t \<in> set (sa_occupied a)"
    and "sp_addr (sa_heap a s) = sp_addr (sa_heap a t)"
  shows "s = t"
proof (rule ccontr)
  assume "s \<noteq> t"
  with alloc_inv_apart [OF inv alloc_inv_occupied(1) [OF inv assms(2)] alloc_inv_occupied(1) [OF inv assms(3)]] assms(4)
  have "sp_page_len (sa_heap a s) * page_size a = 0 \<or> sp_page_len (sa_heap a t) * page_size a = 0" by auto
  then show False
    using alloc_inv_member(1) [OF inv alloc_inv_occupied(1) [OF inv assms(2)]] alloc_inv_member(1) [OF inv alloc_inv_occupied(1) [OF inv assms(3)]] by simp
qed

lemma pages_for_cong: "sa_config a' = sa_config a \<Longrightarrow> pages_for a' n = pages_for a n"
  by (simp add: pages_for_def)

lemma pool_inv_keep:
  assumes "pool_inv base N chain mp live" and inv: "alloc_inv base N chain' {} a'" "coalesced (set (sa_occupied a')) chain'"
    and occ: "sa_occupied a' = sa_occupied (mp_allocator mp)" and "keeps (set (sa_occupied a')) (mp_allocator mp) a'"
  shows "pool_inv base N chain' (mp\<lparr>mp_allocator := a'\<rparr>) live"
proof -
  have cfg: "sa_config a' = sa_config (mp_allocator mp)"
    and k: "\<And>t. t \<in> set (sa_occupied (mp_allocator mp)) \<Longrightarrow> sp_addr (sa_heap a' t) = sp_addr (sa_heap (mp_allocator mp) t) \<and>
        sp_page_len (sa_heap a' t) = sp_page_len (sa_heap (mp_allocator mp) t)"
    using assms(5) by (auto simp: keeps_def occ)
  show ?thesis
    using assms(1) inv k unfolding pool_inv_def by (auto simp: occ pages_for_cong [OF cfg])
qed

lemma LlmMemPool_Alloc_inv:
  assumes P: "pool_inv base N chain mp live" and host: "host_ok ans (mp_allocator mp)"
  shows "case LlmMemPool_Alloc ans m mp of
      (None, mp') \<Rightarrow> pool_inv base N chain mp' live \<and>
        (new_span ans \<noteq> None \<and> new_layer ans \<noteq> None \<and> span_layer_lift_max (sa_config (mp_allocator mp)) \<noteq> 0 \<and>
         m \<le> page_mem_size_total_threshold (sa_config (mp_allocator mp)) \<longrightarrow>
           (\<forall>j \<ge> pages_for (mp_allocator mp) m. free_spans chain (set (sa_occupied (mp_allocator mp))) j = {}))
    | (Some p, mp') \<Rightarrow> live p = None \<and> (\<exists>chain'. pool_inv base N chain' mp' (live(p \<mapsto> m)))"
proof -
  let ?a = "mp_allocator mp"
  have inv: "alloc_inv base N chain {} ?a" and co: "coalesced (set (sa_occupied ?a)) chain" using P by (simp_all add: pool_inv_def)
  note C = ScalableAllocator_Alloc_cases [OF inv co host_ok_fresh [OF host inv], of m]
  obtain r a' where r: "ScalableAllocator_Alloc ans m ?a = (r, a')" by (cases "ScalableAllocator_Alloc ans m ?a")
  show ?thesis
  proof (cases r)
    case None
    with C r have ref: "refuses base N chain ?a a'" by simp
    then have "pool_inv base N chain (mp\<lparr>mp_allocator := a'\<rparr>) live"
      using co by (intro pool_inv_keep [OF P]) (simp_all add: refuses_def)
    with C r None show ?thesis by (simp add: LlmMemPool_Alloc_def)
  next
    case (Some s)
    let ?p = "sp_addr (sa_heap a' s)"
    obtain chain' where T: "s \<notin> set (sa_occupied ?a)" "sa_occupied a' = s # sa_occupied ?a" "keeps (set (sa_occupied ?a)) ?a a'"
        "alloc_inv base N chain' {} a'" "coalesced (set (sa_occupied a')) chain'" "(s, pages_for ?a m) \<in> set chain'"
      using C r Some by (auto simp: takes_def)
    have cfg: "sa_config a' = sa_config ?a"
      and k: "\<And>t. t \<in> set (sa_occupied ?a) \<Longrightarrow> sp_addr (sa_heap a' t) = sp_addr (sa_heap ?a t) \<and> sp_page_len (sa_heap a' t) = sp_page_len (sa_heap ?a t)"
      using T(3) by (auto simp: keeps_def)
    have new: "\<forall>t \<in> set (sa_occupied ?a). sp_addr (sa_heap ?a t) \<noteq> ?p"
    proof
      fix t assume t: "t \<in> set (sa_occupied ?a)"
      then show "sp_addr (sa_heap ?a t) \<noteq> ?p" using occupied_addr_inj [OF T(4), of t s] k [OF t] T(1,2) by auto
    qed
    have len: "sp_page_len (sa_heap a' s) = pages_for ?a m"
      using chain_unique [OF alloc_inv_distinct [OF T(4)] alloc_inv_occupied(1) [OF T(4), of s] T(6)] T(2) by simp
    have none: "mp_addr_to_mem_block mp ?p = None"
      using P new by (cases "mp_addr_to_mem_block mp ?p") (auto simp: pool_inv_def)
    have map: "\<And>q t. mp_addr_to_mem_block mp q = Some t \<longleftrightarrow> t \<in> set (sa_occupied ?a) \<and> q = sp_addr (sa_heap ?a t)"
      and dom: "dom live = dom (mp_addr_to_mem_block mp)"
      and lens: "\<And>q t l. mp_addr_to_mem_block mp q = Some t \<Longrightarrow> live q = Some l \<Longrightarrow> sp_page_len (sa_heap ?a t) = pages_for ?a l"
      using P unfolding pool_inv_def by blast+
    have map': "((mp_addr_to_mem_block mp)(?p \<mapsto> s)) q = Some t \<longleftrightarrow> t \<in> set (sa_occupied a') \<and> q = sp_addr (sa_heap a' t)" for q t
    proof (cases "t \<in> set (sa_occupied ?a)")
      case True
      then show ?thesis using k [OF True] new map [of q t] T(1,2) none by auto
    next
      case False
      then show ?thesis using map [of q t] T(2) by auto
    qed
    have "sp_page_len (sa_heap a' t) = pages_for a' l" if "((mp_addr_to_mem_block mp)(?p \<mapsto> s)) q = Some t" "(live(?p \<mapsto> m)) q = Some l" for q t l
      using that len map [of q t] k [of t] lens [of q t l] by (auto simp: pages_for_cong [OF cfg] split: if_splits)
    then have "pool_inv base N chain' (mp\<lparr>mp_allocator := a', mp_addr_to_mem_block := (mp_addr_to_mem_block mp)(?p \<mapsto> s)\<rparr>) (live(?p \<mapsto> m))"
      using T(4,5) map' dom unfolding pool_inv_def by simp
    moreover have "live ?p = None" using P none by (auto simp: pool_inv_def domIff)
    ultimately show ?thesis using r Some by (auto simp: LlmMemPool_Alloc_def Let_def)
  qed
qed

lemma LlmMemPool_Free_inv:
  assumes P: "pool_inv base N chain mp live" and "new_layer ans \<noteq> None" "drop_ref 1 = 0"
  shows "\<exists>chain'. pool_inv base N chain' (LlmMemPool_Free ans drop_ref p mp) (live(p := None))"
proof (cases "mp_addr_to_mem_block mp p")
  case None
  then have "live p = None" using P unfolding pool_inv_def by blast
  then have "live(p := None) = live" by auto
  with None P show ?thesis by (auto simp: LlmMemPool_Free_def)
next
  case (Some s)
  let ?a = "mp_allocator mp" and ?mp = "LlmMemPool_Free ans drop_ref p mp"
  have inv: "alloc_inv base N chain {} ?a" and co: "coalesced (set (sa_occupied ?a)) chain" and s: "s \<in> set (sa_occupied ?a)"
      and p: "p = sp_addr (sa_heap ?a s)"
    using P Some by (auto simp: pool_inv_def)
  have cnt: "drop_ref (sp_count (sa_heap ?a s)) = 0" using alloc_inv_occupied(2) [OF inv s] assms(3) by simp
  have upd: "upd_span s (\<lambda>q. q\<lparr>sp_count := drop_ref (sp_count q)\<rparr>) ?a = upd_span s (\<lambda>q. q\<lparr>sp_count := 0\<rparr>) ?a"
    using cnt by (simp add: upd_span_def)
  define a' where "a' = ScalableAllocator_Free ans s (upd_span s (\<lambda>q. q\<lparr>sp_count := 0\<rparr>) ?a)"
  have mp: "?mp = mp\<lparr>mp_allocator := a', mp_addr_to_mem_block := (mp_addr_to_mem_block mp)(p := None)\<rparr>"
    by (simp add: LlmMemPool_Free_def Some Let_def upd a'_def)
  obtain chain' where F: "alloc_inv base N chain' {} a'" "coalesced (set (sa_occupied a')) chain'"
      "set (sa_occupied a') = set (sa_occupied ?a) - {s}" "keeps (set (sa_occupied ?a) - {s}) ?a a'"
    using ScalableAllocator_Free_inv [OF inv co s assms(2)] by (auto simp: a'_def)
  have cfg: "sa_config a' = sa_config ?a"
    and k: "\<And>t. t \<in> set (sa_occupied ?a) \<Longrightarrow> t \<noteq> s \<Longrightarrow> sp_addr (sa_heap a' t) = sp_addr (sa_heap ?a t) \<and> sp_page_len (sa_heap a' t) = sp_page_len (sa_heap ?a t)"
    using F(4) by (auto simp: keeps_def)
  have map: "\<And>q t. mp_addr_to_mem_block mp q = Some t \<longleftrightarrow> t \<in> set (sa_occupied ?a) \<and> q = sp_addr (sa_heap ?a t)"
    and dom: "dom live = dom (mp_addr_to_mem_block mp)"
    and lens: "\<And>q t l. mp_addr_to_mem_block mp q = Some t \<Longrightarrow> live q = Some l \<Longrightarrow> sp_page_len (sa_heap ?a t) = pages_for ?a l"
    using P unfolding pool_inv_def by blast+
  have map': "((mp_addr_to_mem_block mp)(p := None)) q = Some t \<longleftrightarrow> t \<in> set (sa_occupied a') \<and> q = sp_addr (sa_heap a' t)" for q t
  proof (cases "t \<in> set (sa_occupied ?a) \<and> t \<noteq> s")
    case True
    then have "sp_addr (sa_heap ?a t) \<noteq> p" using occupied_addr_inj [OF inv _ s, of t] p by blast
    then show ?thesis using True k [of t] map [of q t] F(3) by auto
  next
    case False
    then have "t \<notin> set (sa_occupied a')" using F(3) by blast
    moreover have "mp_addr_to_mem_block mp q \<noteq> Some t \<or> q = p" using False map [of q t] p by blast
    ultimately show ?thesis by auto
  qed
  have "sp_page_len (sa_heap a' t) = pages_for a' l" if "((mp_addr_to_mem_block mp)(p := None)) q = Some t" "(live(p := None)) q = Some l" for q t l
  proof -
    have "t \<in> set (sa_occupied a')" using map' that(1) by blast
    then have "sp_page_len (sa_heap a' t) = sp_page_len (sa_heap ?a t)" using k [of t] F(3) by simp
    moreover have "q \<noteq> p" using that(1) by auto
    ultimately show ?thesis using lens [of q t l] that by (simp add: pages_for_cong [OF cfg])
  qed
  then have "pool_inv base N chain' ?mp (live(p := None))"
    using F(1,2) map' dom unfolding pool_inv_def mp by simp
  then show ?thesis by blast
qed


text \<open>No operation changes the configuration.\<close>

lemma config_frame [simp]:
  "sa_config (SpanAllocator_Free s a) = sa_config a" "sa_config (RemoveFromLayer k s a) = sa_config a"
  "sa_config (snd (BlockAlloc ans adr a)) = sa_config a" "sa_config (snd (FetchSpanLayer ans k a)) = sa_config a"
  "sa_config (snd (PopSpanFromLayer k a)) = sa_config a" "sa_config (count_alloc s a) = sa_config a" "sa_config (count_free s a) = sa_config a"
  by (auto simp: SpanAllocator_Free_def RemoveFromLayer_def BlockAlloc_def FetchSpanLayer_def PopSpanFromLayer_def count_alloc_def count_free_def Let_def
      split: option.splits prod.splits list.splits)

lemma SplitSpan_config [simp]: "sa_config (snd (SplitSpan ans k j s a)) = sa_config a"
proof -
  let ?b = "BlockAlloc ans (PageLen_ForwardAddr (sub32 j k) (page_idem_num (sa_config a)) (sp_addr (sa_heap a s))) a"
  obtain r a1 where 1: "?b = (r, a1)" by fastforce
  obtain ok a2 where 2: "FetchSpanLayer ans (sub32 j k) a1 = (ok, a2)" by fastforce
  have "sa_config a1 = sa_config a" "sa_config a2 = sa_config a1"
    using config_frame(3) [of ans _ a] config_frame(4) [of ans "sub32 j k" a1] 1 2 by (metis snd_conv)+
  then show ?thesis by (simp add: SplitSpan_def Let_def 1 2 split: option.split bool.split)
qed

lemma AllocImp_config [simp]: "sa_config (snd (AllocImp ans n a)) = sa_config a"
proof -
  have "sa_config (snd (FetchLayerSpan k a)) = sa_config a" for k
    using config_frame(5) [of k a] by (auto simp: FetchLayerSpan_def simp del: config_frame split: option.splits prod.splits)
  moreover have "sa_config (snd (FetchSplitedSpan ans k j b)) = sa_config b" for k j b
    using config_frame(5) [of j b] SplitSpan_config by (auto simp: FetchSplitedSpan_def simp del: config_frame split: option.splits prod.splits)
  ultimately show ?thesis
    by (auto simp: AllocImp_def Let_def split: option.splits prod.splits) (metis snd_conv)+
qed

lemma LlmMemPool_Alloc_config: "sa_config (mp_allocator (snd (LlmMemPool_Alloc ans m mp))) = sa_config (mp_allocator mp)"
  using AllocImp_config [of ans m "mp_allocator mp"]
  by (auto simp: LlmMemPool_Alloc_def ScalableAllocator_Alloc_def Let_def simp del: AllocImp_config split: option.splits prod.splits)

lemma FreeSpan_config [simp]: "sa_config (FreeSpan ans s a) = sa_config a"
  using config_frame(4) [of ans "sp_page_len (sa_heap a s)" a]
  by (auto simp: FreeSpan_def Let_def simp del: config_frame split: prod.splits bool.splits)

lemma TryMerge_config [simp]: "sa_config (snd (TryMergeNext s a)) = sa_config a" "sa_config (snd (TryMergePrev s a)) = sa_config a"
  by (auto simp: TryMergeNext_def TryMergePrev_def PickOutBuddy_def Let_def split: option.splits prod.splits if_splits)

lemma ScalableAllocator_Free_config [simp]: "sa_config (ScalableAllocator_Free ans s a) = sa_config a"
proof -
  obtain s1 a3 where 1: "TryMergeNext s ((count_free s a)\<lparr>sa_occupied := remove1 s (sa_occupied (count_free s a))\<rparr>) = (s1, a3)" by fastforce
  obtain s2 a4 where 2: "TryMergePrev s1 a3 = (s2, a4)" by fastforce
  have "sa_config a3 = sa_config a" "sa_config a4 = sa_config a3"
    using TryMerge_config(1) [of s "(count_free s a)\<lparr>sa_occupied := remove1 s (sa_occupied (count_free s a))\<rparr>"] TryMerge_config(2) [of s1 a3] 1 2
    by simp_all
  then show ?thesis by (simp add: ScalableAllocator_Free_def Let_def 1 2)
qed

lemma LlmMemPool_Free_config: "sa_config (mp_allocator (LlmMemPool_Free ans drop_ref p mp)) = sa_config (mp_allocator mp)"
  by (auto simp: LlmMemPool_Free_def Let_def split: option.splits)


lemma pool_run_inv:
  assumes "pool_run drop_ref base n mp live"
  shows "\<exists>chain. pool_inv base (n div page_size (mp_allocator mp)) chain mp live"
  using assms
proof (induction rule: pool_run.induct)
  case (initialize ans cfg elems layer_elems heap mp)
  then show ?case by (rule MemPool_Initialize_inv)
next
  case (alloc mp live ans m p mp')
  then obtain chain where P: "pool_inv base (n div page_size (mp_allocator mp)) chain mp live" by blast
  have "sa_config (mp_allocator mp') = sa_config (mp_allocator mp)"
    using alloc LlmMemPool_Alloc_config [of ans m mp] by simp
  with LlmMemPool_Alloc_inv [OF P alloc(2), of m] alloc(3) show ?case by (auto simp del: fun_upd_apply)
next
  case (refused mp live ans m mp')
  then obtain chain where P: "pool_inv base (n div page_size (mp_allocator mp)) chain mp live" by blast
  have "sa_config (mp_allocator mp') = sa_config (mp_allocator mp)"
    using refused LlmMemPool_Alloc_config [of ans m mp] by simp
  with LlmMemPool_Alloc_inv [OF P refused(2), of m] refused(3) show ?case by auto
next
  case (free mp live ans p)
  then obtain chain where P: "pool_inv base (n div page_size (mp_allocator mp)) chain mp live" by blast
  with LlmMemPool_Free_inv [OF P, of ans drop_ref p] free(2,3) show ?case by (simp add: LlmMemPool_Free_config del: fun_upd_apply)
qed


section \<open>What the pool promises\<close>

text \<open>The allocations that have not been released start at a page, lie in the region and do not overlap.\<close>

definition allocations_ok :: "nat \<Rightarrow> nat \<Rightarrow> nat \<Rightarrow> (nat \<rightharpoonup> nat) \<Rightarrow> bool" where
  "allocations_ok base n pg live \<longleftrightarrow>
     (\<forall>p m. live p = Some m \<longrightarrow> (\<exists>i. p = base + i * pg) \<and> p + m \<le> base + n) \<and>
     (\<forall>p m q l. live p = Some m \<and> live q = Some l \<and> p \<noteq> q \<longrightarrow> p + m \<le> q \<or> q + l \<le> p)"

text \<open>The live request at \<open>p\<close> is an occupied span that starts there.\<close>

lemma pool_inv_live:
  assumes P: "pool_inv base N chain mp live" and p: "live p = Some m"
  obtains s where "mp_addr_to_mem_block mp p = Some s" "s \<in> set (sa_occupied (mp_allocator mp))" "p = sp_addr (sa_heap (mp_allocator mp) s)"
    "(s, pages_for (mp_allocator mp) m) \<in> set chain"
proof -
  let ?a = "mp_allocator mp"
  have "p \<in> dom (mp_addr_to_mem_block mp)" using P p by (auto simp: pool_inv_def)
  then obtain s where s: "mp_addr_to_mem_block mp p = Some s" by auto
  have map: "s \<in> set (sa_occupied ?a) \<and> p = sp_addr (sa_heap ?a s)" and len: "sp_page_len (sa_heap ?a s) = pages_for ?a m"
    and inv: "alloc_inv base N chain {} ?a"
    using P p s unfolding pool_inv_def by blast+
  have "(s, pages_for ?a m) \<in> set chain" using alloc_inv_occupied(1) [OF inv, of s] map len by simp
  with s map show ?thesis using that by blast
qed

text \<open>C2: Whatever sequence of allocations and releases a pool has seen since its initialisation, with memory for a free-list
  layer at every release, every allocation that has not been released starts at a page boundary of the region, lies completely
  inside it with the size that was asked for, and shares no byte with any other one.\<close>

theorem LlmMemPool_allocations_disjoint:
  assumes "pool_run drop_ref base n mp live"
  shows "allocations_ok base n (page_size (mp_allocator mp)) live"
proof -
  let ?a = "mp_allocator mp" let ?pg = "page_size ?a"
  obtain chain where P: "pool_inv base (n div ?pg) chain mp live" using pool_run_inv [OF assms] by blast
  then have inv: "alloc_inv base (n div ?pg) chain {} ?a" by (simp add: pool_inv_def)
  have "(\<exists>i. p = base + i * ?pg) \<and> p + m \<le> base + n" if p: "live p = Some m" for p m
  proof -
    obtain s where s: "p = sp_addr (sa_heap ?a s)" "(s, pages_for ?a m) \<in> set chain" using pool_inv_live [OF P p] by metis
    obtain i where i: "p = base + i * ?pg" "i + pages_for ?a m \<le> n div ?pg" using alloc_inv_place [OF inv s(2)] s(1) by auto
    have "(i + pages_for ?a m) * ?pg \<le> n div ?pg * ?pg" using i(2) by (rule mult_le_mono1)
    also have "\<dots> \<le> n" by (rule div_times_less_eq_dividend)
    finally have "i * ?pg + m \<le> n" using pages_for_enough(2) [of m ?a] by (simp add: add_mult_distrib)
    with i(1) show ?thesis by simp
  qed
  moreover have "p + m \<le> q \<or> q + l \<le> p" if p: "live p = Some m" and q: "live q = Some l" and "p \<noteq> q" for p m q l
  proof -
    obtain s where s: "p = sp_addr (sa_heap ?a s)" "(s, pages_for ?a m) \<in> set chain" using pool_inv_live [OF P p] by metis
    obtain t where t: "q = sp_addr (sa_heap ?a t)" "(t, pages_for ?a l) \<in> set chain" using pool_inv_live [OF P q] by metis
    have "s \<noteq> t" using s t \<open>p \<noteq> q\<close> by auto
    with alloc_inv_apart [OF inv s(2) t(2)] s t pages_for_enough(2) [of m ?a] pages_for_enough(2) [of l ?a] show ?thesis by linarith
  qed
  ultimately show ?thesis unfolding allocations_ok_def by blast
qed

text \<open>A run of free pages lies in one free span.\<close>

lemma page_owner: "i < pages xs \<Longrightarrow> \<exists>A s n B. xs = A @ (s, n) # B \<and> pages A \<le> i \<and> i < pages A + n"
proof (induction xs rule: rev_induct)
  case (snoc x xs)
  obtain s n where x: "x = (s, n)" by (cases x)
  show ?case
  proof (cases "i < pages xs")
    case True
    with snoc.IH obtain A t m B where "xs = A @ (t, m) # B" "pages A \<le> i" "i < pages A + m" by blast
    then show ?thesis by (intro exI [of _ A] exI [of _ t] exI [of _ m] exI [of _ "B @ [x]"]) simp
  next
    case False
    with snoc.prems x show ?thesis by (intro exI [of _ xs] exI [of _ s] exI [of _ n] exI [of _ "[]"]) simp
  qed
qed simp

lemma free_run_in_span:
  assumes co: "coalesced busy chain" and pos: "\<forall>(s, n) \<in> set chain. 0 < n" and k: "0 < k" "i + k \<le> pages chain"
    and free: "\<And>A s n B. chain = A @ (s, n) # B \<Longrightarrow> s \<in> busy \<Longrightarrow> pages A + n \<le> i \<or> i + k \<le> pages A"
  shows "\<exists>s n. (s, n) \<in> set chain \<and> s \<notin> busy \<and> k \<le> n"
proof -
  obtain A s n B where c: "chain = A @ (s, n) # B" and at: "pages A \<le> i" "i < pages A + n" using page_owner [of i chain] k by auto
  then have s: "s \<notin> busy" using free [OF c] k by auto
  show ?thesis
  proof (cases B)
    case Nil
    then have "k \<le> n" using k(2) at c by simp
    with s c show ?thesis by auto
  next
    case (Cons x B')
    obtain t m where x: "x = (t, m)" by (cases x)
    have "t \<in> busy" using co s c Cons x by (simp add: coalesced_append)
    moreover have "chain = (A @ [(s, n)]) @ (t, m) # B'" using c Cons x by simp
    ultimately have "pages (A @ [(s, n)]) + m \<le> i \<or> i + k \<le> pages (A @ [(s, n)])" using free by blast
    moreover have "0 < m" using pos c Cons x by auto
    ultimately have "k \<le> n" using at by auto
    with s c show ?thesis by auto
  qed
qed

text \<open>The \<open>k\<close> pages of the region from the \<open>i\<close>-th on belong to no live allocation.\<close>

definition pages_free :: "nat \<Rightarrow> nat \<Rightarrow> nat \<Rightarrow> (nat \<rightharpoonup> nat) \<Rightarrow> ScalableAllocator \<Rightarrow> bool" where
  "pages_free base i k live a \<longleftrightarrow>
     (\<forall>q l. live q = Some l \<longrightarrow> q + pages_for a l * page_size a \<le> base + i * page_size a \<or> base + (i + k) * page_size a \<le> q)"

lemma pages_free_span:
  assumes P: "pool_inv base N chain mp live" and k: "0 < k" "i + k \<le> N" and free: "pages_free base i k live (mp_allocator mp)"
  shows "\<exists>j \<ge> k. free_spans chain (set (sa_occupied (mp_allocator mp))) j \<noteq> {}"
proof -
  let ?a = "mp_allocator mp"
  have inv: "alloc_inv base N chain {} ?a" and co: "coalesced (set (sa_occupied ?a)) chain" using P by (auto simp: pool_inv_def)
  have "\<exists>s n. (s, n) \<in> set chain \<and> s \<notin> set (sa_occupied ?a) \<and> k \<le> n"
  proof (rule free_run_in_span [OF co _ k(1)])
    show "\<forall>(s, n) \<in> set chain. 0 < n" "i + k \<le> pages chain" using inv k(2) by (auto simp: alloc_inv_def shape_def)
    fix A s n B assume c: "chain = A @ (s, n) # B" and s: "s \<in> set (sa_occupied ?a)"
    let ?q = "sp_addr (sa_heap ?a s)"
    have q: "?q = base + pages A * page_size ?a" using alloc_inv_links(3) inv c by blast
    have m: "mp_addr_to_mem_block mp ?q = Some s" using P s unfolding pool_inv_def by blast
    then have "?q \<in> dom live" using P unfolding pool_inv_def by blast
    then obtain l where l: "live ?q = Some l" by blast
    have "pages_for ?a l = n"
      using P m l c s alloc_inv_occupied(1) [OF inv s] chain_unique [OF alloc_inv_distinct [OF inv], of s n "sp_page_len (sa_heap ?a s)"]
      by (simp add: pool_inv_def)
    moreover have "?q + pages_for ?a l * page_size ?a \<le> base + i * page_size ?a \<or> base + (i + k) * page_size ?a \<le> ?q"
      using free l unfolding pages_free_def by blast
    ultimately have "(pages A + n) * page_size ?a \<le> i * page_size ?a \<or> (i + k) * page_size ?a \<le> pages A * page_size ?a"
      unfolding q by (simp add: add_mult_distrib)
    then show "pages A + n \<le> i \<or> i + k \<le> pages A" by (simp only: mult_le_cancel2) simp
  qed
  then show ?thesis by (auto simp: free_spans_def)
qed


lemma new_allocation_place:
  assumes P: "pool_inv base N chain mp (live(p \<mapsto> m))" and new: "live p = None"
  shows "\<exists>i. i + pages_for (mp_allocator mp) m \<le> N \<and> pages_free base i (pages_for (mp_allocator mp) m) live (mp_allocator mp)"
proof -
  let ?a = "mp_allocator mp" let ?k = "pages_for ?a m"
  have inv: "alloc_inv base N chain {} ?a" using P by (simp add: pool_inv_def)
  obtain s where s: "p = sp_addr (sa_heap ?a s)" "(s, ?k) \<in> set chain" using pool_inv_live [OF P, of p m] by (metis fun_upd_same)
  obtain i where i: "p = base + i * page_size ?a" "i + ?k \<le> N" using alloc_inv_place [OF inv s(2)] s(1) by auto
  have "q + pages_for ?a l * page_size ?a \<le> p \<or> p + ?k * page_size ?a \<le> q" if q: "live q = Some l" for q l
  proof -
    have "q \<noteq> p" using q new by auto
    then have "(live(p \<mapsto> m)) q = Some l" using q by simp
    then obtain t where t: "q = sp_addr (sa_heap ?a t)" "(t, pages_for ?a l) \<in> set chain" using pool_inv_live [OF P] by metis
    with alloc_inv_apart [OF inv t(2) s(2)] s \<open>q \<noteq> p\<close> show ?thesis by auto
  qed
  with i show ?thesis by (intro exI [of _ i]) (simp add: pages_free_def add_mult_distrib add.assoc)
qed


text \<open>C10: Allocation is complete and does not waste memory to fragmentation inside free space: after any such sequence, as
  long as the host provides memory for the bookkeeping objects, a request of up to the configured maximum is refused exactly when
  the region has no run of consecutive pages, as many as the request needs, that no live allocation touches.\<close>

theorem LlmMemPool_Alloc_complete:
  assumes run: "pool_run drop_ref base n mp live" and host: "host_ok ans (mp_allocator mp)"
    and mem: "new_span ans \<noteq> None" "new_layer ans \<noteq> None" and cfg: "span_layer_lift_max (sa_config (mp_allocator mp)) \<noteq> 0"
    and m: "m \<le> page_mem_size_total_threshold (sa_config (mp_allocator mp))"
  shows "fst (LlmMemPool_Alloc ans m mp) = None \<longleftrightarrow>
    \<not> (\<exists>i. i + pages_for (mp_allocator mp) m \<le> n div page_size (mp_allocator mp) \<and>
           pages_free base i (pages_for (mp_allocator mp) m) live (mp_allocator mp))"
proof -
  let ?a = "mp_allocator mp" let ?N = "n div page_size ?a" and ?k = "pages_for ?a m"
  obtain chain where P: "pool_inv base ?N chain mp live" using pool_run_inv [OF run] by blast
  note A = LlmMemPool_Alloc_inv [OF P host, of m]
  obtain r mp' where r: "LlmMemPool_Alloc ans m mp = (r, mp')" by fastforce
  show ?thesis
  proof (cases r)
    case None
    with A r mem cfg m have "\<forall>j \<ge> ?k. free_spans chain (set (sa_occupied ?a)) j = {}" by simp
    with pages_free_span [OF P pages_for_enough(1)] r None show ?thesis by (metis fst_conv)
  next
    case (Some p)
    with A r obtain chain' where P': "pool_inv base ?N chain' mp' (live(p \<mapsto> m))" and new: "live p = None" by auto
    have c: "sa_config (mp_allocator mp') = sa_config ?a" using LlmMemPool_Alloc_config [of ans m mp] r by simp
    obtain i where "i + ?k \<le> ?N" "pages_free base i ?k live ?a" using new_allocation_place [OF P' new] by (auto simp: c pages_for_cong [OF c] pages_free_def)
    then show ?thesis using r Some by auto
  qed
qed


section \<open>A small pool\<close>

definition demo_config :: ScalableConfig where
  "demo_config = \<lparr>page_idem_num = 10, page_mem_size_total_threshold = 4096, span_layer_lift_max = 1\<rparr>"

definition demo_answers :: "nat \<Rightarrow> host_answers" where
  "demo_answers x = \<lparr>new_span = Some x, new_layer = Some 0, initial_count = 1\<rparr>"

definition demo_pool :: LlmMemPool where
  "demo_pool = snd (LlmMemPool_Initialize (demo_answers 1) 8192 4096
     \<lparr>mp_allocator = new_ScalableAllocator demo_config [] [] (\<lambda>x. \<lparr>sp_addr = 0, sp_page_len = 0, sp_prev = None, sp_next = None,
        sp_count = 0, sp_real_size = 0\<rparr>), mp_addr_to_mem_block = Map.empty\<rparr>)"

definition demo_used :: LlmMemPool where
  "demo_used = snd (LlmMemPool_Alloc (demo_answers 2) 1000 demo_pool)"

lemmas demo_defs = demo_pool_def demo_config_def demo_answers_def LlmMemPool_Initialize_def InitFixSizedAllocator_def BlockAlloc_def
  FetchSpanLayer_def new_ScalableAllocator_def PushSpanToLayer_def lut_insert_def upd_span_def span_layer_capacity_def
  ObjectAllocator_Alloc_def PageLen_GetLenFromSize_def u32_def add32_def insort_insert_key_def

lemma demo_pool_run: "pool_run (\<lambda>c. c - 1) 8192 4096 demo_pool Map.empty"
proof (rule pool_run.initialize)
  show "LlmMemPool_Initialize (demo_answers 1) 8192 4096
     \<lparr>mp_allocator = new_ScalableAllocator demo_config [] [] (\<lambda>x. \<lparr>sp_addr = 0, sp_page_len = 0, sp_prev = None, sp_next = None,
        sp_count = 0, sp_real_size = 0\<rparr>), mp_addr_to_mem_block = Map.empty\<rparr> = (SUCCESS, demo_pool)"
    by (simp add: demo_defs)
qed (simp_all add: demo_config_def)

lemma demo_pool_allocator: "sa_config (mp_allocator demo_pool) = demo_config" "in_use (mp_allocator demo_pool) = {1}"
  by (auto simp: demo_defs in_use_def split: if_splits)

lemma demo_used_address: "fst (LlmMemPool_Alloc (demo_answers 2) 1000 demo_pool) = Some 11264"
  by (simp add: demo_defs LlmMemPool_Alloc_def ScalableAllocator_Alloc_def AllocImp_def GetAllocSize_def page_mem_size_def
      PageLen_GetMemSize_def mul64_def FetchLayerSpan_def FindFitLayerId_def FetchSplitedSpan_def PopSpanFromLayer_def SplitSpan_def
      PageLen_ForwardAddr_def add64_def sub32_def SetBuddy_def OccupySpan_def count_alloc_def GetSize_def SPAN_LAYER_ID_INVALID_def Let_def)

lemma demo_used_run: "pool_run (\<lambda>c. c - 1) 8192 4096 demo_used [11264 \<mapsto> 1000]"
proof -
  have "LlmMemPool_Alloc (demo_answers 2) 1000 demo_pool = (Some 11264, demo_used)"
    using demo_used_address by (simp add: demo_used_def prod_eq_iff)
  moreover have "host_ok (demo_answers 2) (mp_allocator demo_pool)" by (simp add: host_ok_def demo_pool_allocator demo_answers_def)
  ultimately show ?thesis using pool_run.alloc [OF demo_pool_run] by simp
qed

theorem LlmMemPool_allocations_disjoint_witness:
  "allocations_ok 8192 4096 (page_size (mp_allocator demo_used)) [11264 \<mapsto> 1000]"
  by (rule LlmMemPool_allocations_disjoint [OF demo_used_run])

theorem LlmMemPool_Alloc_complete_witness:
  "fst (LlmMemPool_Alloc (demo_answers 2) 1000 demo_pool) = None \<longleftrightarrow>
    \<not> (\<exists>i. i + pages_for (mp_allocator demo_pool) 1000 \<le> 4096 div page_size (mp_allocator demo_pool) \<and>
           pages_free 8192 i (pages_for (mp_allocator demo_pool) 1000) Map.empty (mp_allocator demo_pool))"
  by (rule LlmMemPool_Alloc_complete [OF demo_pool_run])
     (simp_all add: host_ok_def demo_pool_allocator demo_answers_def, simp_all add: demo_config_def)

end
