(* ===== verification/Multi_Channel.thy ===== *)
theory Multi_Channel
  imports Mem_Store
begin

text \<open>
  The executor that spreads the descriptors of one transfer over several client handles of the same link:
  \<open>MultiChannelDispatcher\<close> (\<open>src/src/hixl/engine/multi_channel_dispatcher.cc\<close>). Handles and requests are numbers, the
  null pointer is 0; \<open>std::map\<close> is a list in key order. The calls of the CS client (\<open>HixlCSClient...\<close>) and of the thread pool are answered by a record that is
  an argument of each operation, and each operation returns the calls it made. The tasks of one \<open>Submit\<close> run concurrently,
  but each on a handle and a result slot of its own, and \<open>Submit\<close> waits for all of them: their calls are listed in
  the order of the workers. The class has no lock of its own; its users serialise the operations.
\<close>

section \<open>Data\<close>

record TransferOpDesc =
  td_local_addr :: nat
  td_remote_addr :: nat
  td_len :: nat

datatype TransferStatus = TS_WAITING | TS_COMPLETED | TS_TIMEOUT | TS_FAILED

datatype HixlCompleteStatus = HIXL_COMPLETE_STATUS_WAITING | HIXL_COMPLETE_STATUS_COMPLETED | HIXL_COMPLETE_STATUS_TIMEOUT
  | HIXL_COMPLETE_STATUS_FAILED

fun ToTransferStatus :: "HixlCompleteStatus \<Rightarrow> TransferStatus" where
  "ToTransferStatus HIXL_COMPLETE_STATUS_WAITING = TS_WAITING"
| "ToTransferStatus HIXL_COMPLETE_STATUS_COMPLETED = TS_COMPLETED"
| "ToTransferStatus HIXL_COMPLETE_STATUS_TIMEOUT = TS_TIMEOUT"
| "ToTransferStatus HIXL_COMPLETE_STATUS_FAILED = TS_FAILED"

datatype SubmitMode = SYNC | ASYNC

datatype WorkerState = PENDING | WS_COMPLETED | WS_FAILED

record WorkerEntry =
  client_idx :: nat
  we_handle :: nat
  we_state :: WorkerState

record MultiChannelDispatcher =
  mc_handles :: "nat list"
  split_batch_size :: nat
  mc_pool :: bool
  async_workers :: "(nat \<times> WorkerEntry list) list"

text \<open>What the CS client and the thread pool answer during one operation: the \<open>i\<close>-th creation of a client, a transfer on a
  handle, a query of a handle and a completion handle, the construction of the pool, and whether a task is accepted.\<close>

record cs_answers =
  cs_create :: "nat \<Rightarrow> status \<times> nat"
  cs_sync :: "bool \<Rightarrow> nat \<Rightarrow> HixlOneSideOpDesc list \<Rightarrow> nat \<Rightarrow> status"
  cs_async :: "bool \<Rightarrow> nat \<Rightarrow> HixlOneSideOpDesc list \<Rightarrow> status \<times> nat"
  cs_query :: "nat \<Rightarrow> nat \<Rightarrow> status \<times> HixlCompleteStatus"
  pool_make :: bool
  pool_commit :: "nat \<Rightarrow> bool"

text \<open>A call that posts descriptors: the handle, whether it reads, and the descriptors.\<close>

type_synonym posting = "nat \<times> bool \<times> HixlOneSideOpDesc list"

section \<open>Handles\<close>

text \<open>Creation and destruction of clients, in the order they happen.\<close>

datatype handle_event = ClientCreated nat | ClientDestroyed nat

definition DestroyHandles :: "MultiChannelDispatcher \<Rightarrow> MultiChannelDispatcher \<times> handle_event list" where
  "DestroyHandles d = (d\<lparr>mc_handles := []\<rparr>, map ClientDestroyed (filter (\<lambda>h. h \<noteq> 0) (mc_handles d)))"

definition InitPool :: "cs_answers \<Rightarrow> nat \<Rightarrow> MultiChannelDispatcher \<Rightarrow> status \<times> MultiChannelDispatcher" where
  "InitPool ans batch d =
     (let d1 = d\<lparr>split_batch_size := batch, mc_pool := pool_make ans\<rparr> in (if mc_pool d1 then SUCCESS else FAILED, d1))"

fun create_loop :: "cs_answers \<Rightarrow> nat \<Rightarrow> nat \<Rightarrow> MultiChannelDispatcher \<Rightarrow> status \<times> MultiChannelDispatcher \<times> handle_event list" where
  "create_loop ans i 0 d = (SUCCESS, d, [])"
| "create_loop ans i (Suc n) d =
     (case cs_create ans i of (ret, handle) \<Rightarrow>
        if ret \<noteq> SUCCESS then (ret, d, [])
        else case create_loop ans (Suc i) n (d\<lparr>mc_handles := mc_handles d @ [handle]\<rparr>) of
               (s, d', ev) \<Rightarrow> (s, d', ClientCreated handle # ev))"

definition CreateHandles :: "cs_answers \<Rightarrow> nat \<Rightarrow> nat \<Rightarrow> MultiChannelDispatcher \<Rightarrow> status \<times> MultiChannelDispatcher \<times> handle_event list" where
  "CreateHandles ans worker_num batch d =
     (case DestroyHandles d of (d0, ev0) \<Rightarrow>
      case create_loop ans 0 worker_num d0 of (ret, d1, ev1) \<Rightarrow>
        let (s, d2) = (if ret \<noteq> SUCCESS then (ret, d1) else InitPool ans batch d1) in
        if s \<noteq> SUCCESS then (case DestroyHandles d2 of (d3, ev3) \<Rightarrow> (s, d3, ev0 @ ev1 @ ev3))
        else (SUCCESS, d2, ev0 @ ev1))"

definition Reset :: "MultiChannelDispatcher \<Rightarrow> MultiChannelDispatcher" where
  "Reset d = d\<lparr>mc_pool := False, async_workers := []\<rparr>"

section \<open>Distribution of the descriptors\<close>

definition ResolveActualWorkerNum :: "nat \<Rightarrow> nat \<Rightarrow> nat \<Rightarrow> nat" where
  "ResolveActualWorkerNum configured_n desc_count batch =
     (if configured_n \<le> 1 \<or> batch = 0 then 1
      else if desc_count \<le> batch then 1
      else if desc_count > mul64 batch (configured_n - 1) then configured_n
      else desc_count div batch)"

definition ConvertDesc :: "TransferOpDesc \<Rightarrow> HixlOneSideOpDesc" where
  "ConvertDesc td = \<lparr>remote_buf = td_remote_addr td, local_buf = td_local_addr td, op_len = td_len td\<rparr>"

definition ConvertDescs :: "TransferOpDesc list \<Rightarrow> HixlOneSideOpDesc list" where
  "ConvertDescs descs = map ConvertDesc descs"

text \<open>The workers from \<open>i\<close> on, \<open>n\<close> of them; \<open>idx\<close> is the first descriptor that is left.\<close>

fun split_loop :: "TransferOpDesc list \<Rightarrow> nat \<Rightarrow> nat \<Rightarrow> nat \<Rightarrow> nat \<Rightarrow> nat \<Rightarrow> HixlOneSideOpDesc list list" where
  "split_loop descs base remainder i 0 idx = []"
| "split_loop descs base remainder i (Suc n) idx =
     (let count = base + (if i < remainder then 1 else 0) in
      map (\<lambda>j. ConvertDesc (descs ! (idx + j))) [0 ..< count] # split_loop descs base remainder (Suc i) n (idx + count))"

definition SplitDescs :: "TransferOpDesc list \<Rightarrow> nat \<Rightarrow> HixlOneSideOpDesc list list" where
  "SplitDescs descs worker_num =
     (if worker_num = 0 \<or> descs = [] then replicate worker_num []
      else
        let desc_num = u32 (length descs) in
        split_loop descs (desc_num div worker_num) (desc_num mod worker_num) 0 worker_num 0)"

section \<open>Submission\<close>

definition WorkerBatchSyncCall :: "cs_answers \<Rightarrow> bool \<Rightarrow> nat \<Rightarrow> HixlOneSideOpDesc list \<Rightarrow> nat \<Rightarrow> status \<times> posting list" where
  "WorkerBatchSyncCall ans is_get handle descs timeout_ms =
     (let ds = take (u32 (length descs)) descs in (cs_sync ans is_get handle ds timeout_ms, [(handle, is_get, ds)]))"

definition WorkerBatchAsyncCall :: "cs_answers \<Rightarrow> bool \<Rightarrow> nat \<Rightarrow> HixlOneSideOpDesc list \<Rightarrow> status \<times> nat \<times> posting list" where
  "WorkerBatchAsyncCall ans is_get handle descs =
     (let ds = take (u32 (length descs)) descs; (ret, ch) = cs_async ans is_get handle ds in (ret, ch, [(handle, is_get, ds)]))"

text \<open>The task of worker \<open>i\<close>: no status when it was not accepted, the completion handle it stored, its call.\<close>

definition worker_task :: "cs_answers \<Rightarrow> bool \<Rightarrow> nat \<Rightarrow> SubmitMode \<Rightarrow> MultiChannelDispatcher \<Rightarrow> nat \<times> HixlOneSideOpDesc list \<Rightarrow>
    (status option \<times> nat \<times> posting list) outcome" where
  "worker_task ans is_get timeout_ms mode d = (\<lambda>(i, descs).
     if i \<ge> length (mc_handles d) then Crash
     else if \<not> mc_pool d \<or> \<not> pool_commit ans i then Ok (None, 0, [])
     else case mode of
            SYNC \<Rightarrow> (case WorkerBatchSyncCall ans is_get (mc_handles d ! i) descs timeout_ms of (ret, ps) \<Rightarrow> Ok (Some ret, 0, ps))
          | ASYNC \<Rightarrow> (case WorkerBatchAsyncCall ans is_get (mc_handles d ! i) descs of (ret, ch, ps) \<Rightarrow> Ok (Some ret, ch, ps)))"

fun collect_futures :: "status \<Rightarrow> status option list \<Rightarrow> status" where
  "collect_futures first_error [] = first_error"
| "collect_futures first_error (None # fs) = collect_futures (if first_error = SUCCESS then FAILED else first_error) fs"
| "collect_futures first_error (Some ret # fs) =
     collect_futures (if ret \<noteq> SUCCESS \<and> first_error = SUCCESS then ret else first_error) fs"

definition CollectFutures :: "status option list \<Rightarrow> status" where
  "CollectFutures futures = collect_futures SUCCESS futures"

definition SubmitWorkersToPool :: "cs_answers \<Rightarrow> TransferOpDesc list \<Rightarrow> nat \<Rightarrow> bool \<Rightarrow> nat \<Rightarrow> SubmitMode \<Rightarrow> MultiChannelDispatcher \<Rightarrow>
    (status \<times> nat list \<times> posting list) outcome" where
  "SubmitWorkersToPool ans descs actual_n is_get timeout_ms mode d =
     obind (collect (worker_task ans is_get timeout_ms mode d) (enumerate 0 (SplitDescs descs actual_n)))
       (\<lambda>rs. Ok (CollectFutures (map fst rs), map (fst \<circ> snd) rs, concat (map (snd \<circ> snd) rs)))"

text \<open>The result is the status, the request when it was set, the new state and the calls.\<close>

definition RecordAsyncWorkers :: "WorkerEntry list \<Rightarrow> MultiChannelDispatcher \<Rightarrow> status \<times> nat option \<times> MultiChannelDispatcher" where
  "RecordAsyncWorkers workers d =
     (case find (\<lambda>e. we_handle e \<noteq> 0) workers of
        None \<Rightarrow> (PARAM_INVALID, None, d)
      | Some e \<Rightarrow> (SUCCESS, Some (we_handle e), d\<lparr>async_workers := map_assign (we_handle e) workers (async_workers d)\<rparr>))"

definition CollectAsyncWorkers :: "status \<Rightarrow> nat list \<Rightarrow> MultiChannelDispatcher \<Rightarrow> status \<times> nat option \<times> MultiChannelDispatcher" where
  "CollectAsyncWorkers submit_ret worker_results d =
     (if submit_ret \<noteq> SUCCESS then (submit_ret, None, d)
      else RecordAsyncWorkers (map (\<lambda>(i, h). \<lparr>client_idx = i, we_handle = h, we_state = PENDING\<rparr>) (enumerate 0 worker_results)) d)"

definition SubmitSingleWorker :: "cs_answers \<Rightarrow> bool \<Rightarrow> TransferOpDesc list \<Rightarrow> nat \<Rightarrow> SubmitMode \<Rightarrow> MultiChannelDispatcher \<Rightarrow>
    status \<times> nat option \<times> MultiChannelDispatcher \<times> posting list" where
  "SubmitSingleWorker ans is_get descs timeout_ms mode d =
     (case mc_handles d of
        [] \<Rightarrow> (FAILED, None, d, [])
      | h # hs \<Rightarrow>
          (case mode of
             SYNC \<Rightarrow> (case WorkerBatchSyncCall ans is_get h (ConvertDescs descs) timeout_ms of (ret, ps) \<Rightarrow> (ret, None, d, ps))
           | ASYNC \<Rightarrow>
               (case WorkerBatchAsyncCall ans is_get h (ConvertDescs descs) of (ret, ch, ps) \<Rightarrow>
                  if ret \<noteq> SUCCESS then (ret, None, d, ps)
                  else case RecordAsyncWorkers [\<lparr>client_idx = 0, we_handle = ch, we_state = PENDING\<rparr>] d of (s, req, d1) \<Rightarrow> (s, req, d1, ps))))"

definition Submit :: "cs_answers \<Rightarrow> TransferOpDesc list \<Rightarrow> bool \<Rightarrow> nat \<Rightarrow> SubmitMode \<Rightarrow> bool \<Rightarrow> MultiChannelDispatcher \<Rightarrow>
    (status \<times> nat option \<times> MultiChannelDispatcher \<times> posting list) outcome" where
  "Submit ans descs is_get timeout_ms mode has_req d =
     (if mode = ASYNC \<and> \<not> has_req then Ok (PARAM_INVALID, None, d, [])
      else
        let actual_n = ResolveActualWorkerNum (u32 (length (mc_handles d))) (u32 (length descs)) (split_batch_size d) in
        if actual_n \<le> 1 then Ok (SubmitSingleWorker ans is_get descs timeout_ms mode d)
        else obind (SubmitWorkersToPool ans descs actual_n is_get timeout_ms mode d)
               (\<lambda>(submit_ret, results, ps).
                  if mode = SYNC then Ok (submit_ret, None, d, ps)
                  else case CollectAsyncWorkers submit_ret results d of (s, req, d1) \<Rightarrow> Ok (s, req, d1, ps)))"

section \<open>Completion\<close>

text \<open>One query of a worker that is still pending; the last component lists the handles that were queried.\<close>

fun QueryWorkersStatus :: "cs_answers \<Rightarrow> nat list \<Rightarrow> WorkerEntry list \<Rightarrow> (WorkerEntry list \<times> bool \<times> bool \<times> (nat \<times> nat) list) outcome" where
  "QueryWorkersStatus ans hs [] = Ok ([], False, False, [])"
| "QueryWorkersStatus ans hs (e # es) =
     obind
       (if we_state e = PENDING then
          if client_idx e \<ge> length hs then Crash
          else
            let h = hs ! client_idx e; (ret, cs) = cs_query ans h (we_handle e) in
            if ret \<noteq> SUCCESS then Ok (e\<lparr>we_state := WS_FAILED\<rparr>, False, [(h, we_handle e)])
            else
              let ts = ToTransferStatus cs in
              if ts = TS_WAITING then Ok (e, True, [(h, we_handle e)])
              else Ok (e\<lparr>we_state := (if ts = TS_COMPLETED then WS_COMPLETED else WS_FAILED)\<rparr>, False, [(h, we_handle e)])
        else Ok (e, False, []))
       (\<lambda>(e', waiting, q).
          obind (QueryWorkersStatus ans hs es)
            (\<lambda>(es', any_waiting, any_failed, qs).
               Ok (e' # es', waiting \<or> any_waiting, we_state e' = WS_FAILED \<or> any_failed, q @ qs)))"

definition CheckStatus :: "cs_answers \<Rightarrow> nat \<Rightarrow> MultiChannelDispatcher \<Rightarrow>
    (status \<times> TransferStatus \<times> MultiChannelDispatcher \<times> (nat \<times> nat) list) outcome" where
  "CheckStatus ans req d =
     (if async_workers d = [] then Ok (FAILED, TS_FAILED, d, [])
      else case map_of (async_workers d) req of
             None \<Rightarrow> Ok (PARAM_INVALID, TS_FAILED, d, [])
           | Some workers \<Rightarrow>
               obind (QueryWorkersStatus ans (mc_handles d) workers)
                 (\<lambda>(workers', any_waiting, any_failed, qs).
                    if any_failed then Ok (SUCCESS, TS_FAILED, d\<lparr>async_workers := map_erase req (async_workers d)\<rparr>, qs)
                    else if any_waiting then Ok (SUCCESS, TS_WAITING, d\<lparr>async_workers := map_assign req workers' (async_workers d)\<rparr>, qs)
                    else Ok (SUCCESS, TS_COMPLETED, d\<lparr>async_workers := map_erase req (async_workers d)\<rparr>, qs)))"


section \<open>Every descriptor is posted once\<close>

lemma length_split_loop [simp]: "length (split_loop descs base remainder i n idx) = n"
  by (induction n arbitrary: i idx) (simp_all add: Let_def)

lemma sum_counts: "(\<Sum>j \<leftarrow> [i ..< i + n]. base + (if j < remainder then 1 else 0)) = n * base + (min (i + n) remainder - min i remainder)"
  for base :: nat
proof (induction n arbitrary: i)
  case (Suc n)
  have "[i ..< i + Suc n] = i # [Suc i ..< Suc i + n]" by (simp add: upt_rec)
  then show ?case using Suc [of "Suc i"] by (auto simp: min_def)
qed simp

lemma concat_split_loop:
  assumes "idx + (\<Sum>j \<leftarrow> [i ..< i + n]. base + (if j < remainder then 1 else 0)) = length descs"
  shows "concat (split_loop descs base remainder i n idx) = ConvertDescs (drop idx descs)"
  using assms
proof (induction n arbitrary: i idx)
  case (Suc n)
  let ?c = "base + (if i < remainder then 1 else 0)"
  have up: "[i ..< i + Suc n] = i # [Suc i ..< Suc i + n]" by (simp add: upt_rec)
  have len: "idx + ?c + (\<Sum>j \<leftarrow> [Suc i ..< Suc i + n]. base + (if j < remainder then 1 else 0)) = length descs"
    using Suc.prems unfolding up by simp
  then have le: "idx + ?c \<le> length descs" by linarith
  have "map (\<lambda>j. ConvertDesc (descs ! (idx + j))) [0 ..< ?c] = ConvertDescs (take ?c (drop idx descs))"
    using le by (intro nth_equalityI) (auto simp: ConvertDescs_def)
  moreover have "concat (split_loop descs base remainder (Suc i) n (idx + ?c)) = ConvertDescs (drop (idx + ?c) descs)"
    using len by (rule Suc.IH)
  moreover have "drop idx descs = take ?c (drop idx descs) @ drop (idx + ?c) descs"
    by (metis add.commute append_take_drop_id drop_drop)
  ultimately show ?case by (metis ConvertDescs_def concat.simps(2) map_append split_loop.simps(2))
qed (simp add: ConvertDescs_def)

lemma split_loop_lengths:
  "ds \<in> set (split_loop descs base remainder i n idx) \<Longrightarrow> length ds = base \<or> length ds = base + 1"
  by (induction n arbitrary: i idx) (auto simp: Let_def split: if_splits)

lemma SplitDescs_partition:
  assumes "length descs < 2 ^ 32" "0 < n"
  shows "concat (SplitDescs descs n) = ConvertDescs descs" "length (SplitDescs descs n) = n"
    "ds \<in> set (SplitDescs descs n) \<Longrightarrow> length descs div n \<le> length ds \<and> length ds \<le> length descs div n + 1"
proof -
  let ?b = "length descs div n" and ?r = "length descs mod n"
  have eq: "SplitDescs descs n = (if descs = [] then replicate n [] else split_loop descs ?b ?r 0 n 0)"
    using assms by (simp add: SplitDescs_def Let_def)
  have "?r < n" using assms(2) by simp
  then have "(\<Sum>j \<leftarrow> [0 ..< 0 + n]. ?b + (if j < ?r then 1 else 0)) = length descs"
    unfolding sum_counts by (simp add: min_def)
  then show "concat (SplitDescs descs n) = ConvertDescs descs"
    using concat_split_loop [where idx = 0 and i = 0 and n = n and base = ?b and remainder = ?r and descs = descs] by (simp add: eq ConvertDescs_def)
  show "length (SplitDescs descs n) = n" by (simp add: eq)
  show "length descs div n \<le> length ds \<and> length ds \<le> length descs div n + 1" if "ds \<in> set (SplitDescs descs n)"
    using that split_loop_lengths [of ds descs ?b ?r 0 n 0] by (auto simp: eq split: if_splits)
qed

lemma ResolveActualWorkerNum_bounds:
  fixes desc_count :: nat
  assumes "configured_n < 2 ^ 32" "batch < 2 ^ 32"
  defines "n \<equiv> ResolveActualWorkerNum configured_n desc_count batch"
  shows "1 \<le> n" "1 < n \<Longrightarrow> n \<le> configured_n" "1 < n \<Longrightarrow> n \<le> desc_count"
proof -
  have "batch * (configured_n - 1) \<le> 2 ^ 32 * 2 ^ 32" using assms by (intro mult_le_mono) auto
  moreover have "batch * (configured_n - 1) \<noteq> 2 ^ 32 * 2 ^ 32"
  proof
    assume "batch * (configured_n - 1) = 2 ^ 32 * 2 ^ 32"
    moreover have "batch * (configured_n - 1) \<le> batch * 2 ^ 32" using assms(1) by (intro mult_le_mono2) simp
    ultimately have "2 ^ 32 * 2 ^ 32 \<le> batch * 2 ^ 32" by simp
    then show False using assms(2) by simp
  qed
  ultimately have m: "mul64 batch (configured_n - 1) = batch * (configured_n - 1)" by (intro mul64_id) simp
  have pos: "batch = 0 \<or> 0 < batch" by blast
  show "1 \<le> n" using div_greater_zero_iff [of desc_count batch] unfolding n_def ResolveActualWorkerNum_def m by auto
  have "desc_count div batch \<le> configured_n - 1" if "desc_count \<le> batch * (configured_n - 1)" "batch \<noteq> 0"
    using that by (metis bot_nat_0.not_eq_extremum div_le_mono nonzero_mult_div_cancel_left)
  then show "1 < n \<Longrightarrow> n \<le> configured_n"
    unfolding n_def ResolveActualWorkerNum_def m by (auto split: if_splits)
  have "configured_n \<le> desc_count" if "batch * (configured_n - 1) < desc_count" "batch \<noteq> 0" "1 < configured_n"
  proof -
    have "configured_n - 1 \<le> batch * (configured_n - 1)" using that(2) by (cases batch) auto
    with that show ?thesis by linarith
  qed
  then show "1 < n \<Longrightarrow> n \<le> desc_count"
    using div_le_dividend [of desc_count batch] unfolding n_def ResolveActualWorkerNum_def m by (auto split: if_splits)
qed

lemma CollectFutures_SUCCESS: "collect_futures s fs = SUCCESS \<longleftrightarrow> s = SUCCESS \<and> (\<forall>f \<in> set fs. f = Some SUCCESS)"
  by (induction s fs rule: collect_futures.induct) auto


text \<open>The calls of one transfer: they use the first handles, one each, and their descriptors are those of the transfer in
  order, in parts whose lengths differ by at most one.\<close>

definition dispatched :: "nat list \<Rightarrow> TransferOpDesc list \<Rightarrow> bool \<Rightarrow> posting list \<Rightarrow> bool" where
  "dispatched handles descs is_get ps \<longleftrightarrow>
     ps \<noteq> [] \<and> length ps \<le> length handles \<and> map fst ps = take (length ps) handles \<and> (\<forall>(h, g, ds) \<in> set ps. g = is_get) \<and>
     concat (map (snd \<circ> snd) ps) = ConvertDescs descs \<and>
     (\<forall>(h, g, ds) \<in> set ps. length descs div length ps \<le> length ds \<and> length ds \<le> length descs div length ps + 1)"

lemma collect_map: "collect f (map g xs) = collect (\<lambda>x. f (g x)) xs"
  by (induction xs) auto

lemma collect_all: "(\<And>x. x \<in> set xs \<Longrightarrow> f x = Ok (g x)) \<Longrightarrow> collect f xs = Ok (map g xs)"
  by (induction xs) auto

text \<open>What the worker \<open>i\<close> with the descriptors \<open>ds\<close> returns.\<close>

definition sync_result :: "cs_answers \<Rightarrow> bool \<Rightarrow> nat \<Rightarrow> MultiChannelDispatcher \<Rightarrow> nat \<times> HixlOneSideOpDesc list \<Rightarrow> status option \<times> nat \<times> posting list" where
  "sync_result ans is_get timeout_ms d = (\<lambda>(i, ds).
     if mc_pool d \<and> pool_commit ans i
     then (Some (cs_sync ans is_get (mc_handles d ! i) ds timeout_ms), 0, [(mc_handles d ! i, is_get, ds)]) else (None, 0, []))"

lemma enumerate_nth: "(i, x) \<in> set (enumerate 0 xs) \<longleftrightarrow> i < length xs \<and> xs ! i = x"
  by (auto simp: in_set_enumerate_eq)

lemma SubmitWorkersToPool_sync:
  assumes n: "0 < n" "n \<le> length (mc_handles d)" and len: "length descs < 2 ^ 32"
  shows "SubmitWorkersToPool ans descs n is_get timeout_ms SYNC d =
    (let rs = map (sync_result ans is_get timeout_ms d) (enumerate 0 (SplitDescs descs n))
     in Ok (CollectFutures (map fst rs), map (fst \<circ> snd) rs, concat (map (snd \<circ> snd) rs)))"
proof -
  have "worker_task ans is_get timeout_ms SYNC d x = Ok (sync_result ans is_get timeout_ms d x)"
    if "x \<in> set (enumerate 0 (SplitDescs descs n))" for x
  proof -
    obtain i ds where e: "x = (i, ds)" by (cases x)
    then have x: "x = (i, ds)" "i < n" "ds \<in> set (SplitDescs descs n)"
      using that SplitDescs_partition(2) [OF len n(1)] by (auto simp: enumerate_nth)
    have "length ds \<le> length (concat (SplitDescs descs n))" using x(3) by (auto simp: length_concat intro: member_le_sum_list)
    then have "length ds \<le> length descs" using SplitDescs_partition(1) [OF len n(1)] by (simp add: ConvertDescs_def)
    then have "u32 (length ds) = length ds" using len by (intro u32_id) linarith
    with x n(2) show ?thesis by (simp add: worker_task_def sync_result_def WorkerBatchSyncCall_def)
  qed
  then show ?thesis by (simp add: SubmitWorkersToPool_def collect_all Let_def)
qed

lemma map_fst_enumerate_nth: "n \<le> length hs \<Longrightarrow> length xs = n \<Longrightarrow> map (\<lambda>(i, x). hs ! i) (enumerate 0 xs) = take n hs"
  by (intro nth_equalityI) (auto simp: nth_enumerate_eq)

text \<open>All tasks were accepted: the calls are a complete distribution.\<close>

lemma sync_results_accepted:
  fixes is_get :: bool and timeout_ms :: nat
  assumes n: "0 < n" "n \<le> length (mc_handles d)" and len: "length descs < 2 ^ 32"
    and ok: "mc_pool d" "\<forall>i < n. pool_commit ans i"
  defines "rs \<equiv> map (sync_result ans is_get timeout_ms d) (enumerate 0 (SplitDescs descs n))"
  shows "dispatched (mc_handles d) descs is_get (concat (map (snd \<circ> snd) rs))"
    "CollectFutures (map fst rs) = SUCCESS \<longleftrightarrow>
      (\<forall>(h, g, ds) \<in> set (concat (map (snd \<circ> snd) rs)). cs_sync ans g h ds timeout_ms = SUCCESS)"
proof -
  let ?xs = "enumerate 0 (SplitDescs descs n)"
  note S = SplitDescs_partition [OF len n(1)]
  have res: "sync_result ans is_get timeout_ms d (i, ds) =
      (Some (cs_sync ans is_get (mc_handles d ! i) ds timeout_ms), 0, [(mc_handles d ! i, is_get, ds)])" if "(i, ds) \<in> set ?xs" for i ds
    using that ok S(2) by (auto simp: sync_result_def enumerate_nth)
  have "concat (map (snd \<circ> snd) rs) = concat (map (\<lambda>x. [(mc_handles d ! fst x, is_get, snd x)]) ?xs)"
    unfolding rs_def map_map using res by (intro arg_cong [where f = concat] map_cong) auto
  then have ps: "concat (map (snd \<circ> snd) rs) = map (\<lambda>x. (mc_handles d ! fst x, is_get, snd x)) ?xs" by simp
  have len_ps: "length ?xs = n" using S(2) by simp
  have "map fst (concat (map (snd \<circ> snd) rs)) = take n (mc_handles d)"
    unfolding ps using map_fst_enumerate_nth [OF n(2) S(2)] by (simp add: comp_def case_prod_unfold)
  moreover have "concat (map (snd \<circ> snd) (concat (map (snd \<circ> snd) rs))) = ConvertDescs descs"
    unfolding ps using S(1) by (simp add: comp_def)
  moreover have "length descs div n \<le> length ds \<and> length ds \<le> length descs div n + 1" if "(i, ds) \<in> set ?xs" for i ds
    using that S(3) by (auto simp: enumerate_nth)
  ultimately show "dispatched (mc_handles d) descs is_get (concat (map (snd \<circ> snd) rs))"
    using n len_ps unfolding dispatched_def by (fastforce simp: ps)
  have "map fst rs = map (\<lambda>x. Some (cs_sync ans is_get (mc_handles d ! fst x) (snd x) timeout_ms)) ?xs"
    unfolding rs_def map_map using res by (intro map_cong) auto
  then show "CollectFutures (map fst rs) = SUCCESS \<longleftrightarrow>
      (\<forall>(h, g, ds) \<in> set (concat (map (snd \<circ> snd) rs)). cs_sync ans g h ds timeout_ms = SUCCESS)"
    unfolding ps by (auto simp: CollectFutures_def CollectFutures_SUCCESS)
qed


text \<open>A task was not accepted: its descriptors are missing.\<close>

lemma sum_list_filter_split:
  "sum_list (map f (filter P xs)) + sum_list (map f (filter (\<lambda>x. \<not> P x) xs)) = (sum_list (map f xs) :: nat)"
  by (induction xs) auto

lemma sync_results_rejected:
  fixes is_get :: bool and timeout_ms :: nat
  assumes n: "0 < n" "n \<le> length (mc_handles d)" "n \<le> length descs" and len: "length descs < 2 ^ 32"
    and rej: "i < n" "\<not> (mc_pool d \<and> pool_commit ans i)"
  defines "rs \<equiv> map (sync_result ans is_get timeout_ms d) (enumerate 0 (SplitDescs descs n))"
  shows "\<not> dispatched (mc_handles d) descs is_get (concat (map (snd \<circ> snd) rs))" "CollectFutures (map fst rs) \<noteq> SUCCESS"
proof -
  let ?xs = "enumerate 0 (SplitDescs descs n)" and ?acc = "\<lambda>x. mc_pool d \<and> pool_commit ans (fst x)"
  note S = SplitDescs_partition [OF len n(1)]
  define f where "f = (\<lambda>x :: nat \<times> HixlOneSideOpDesc list. length (snd x))"
  have in_xs: "(i, SplitDescs descs n ! i) \<in> set ?xs" using rej(1) S(2) by (simp add: enumerate_nth)
  have pos: "0 < f (i, SplitDescs descs n ! i)"
    using S(3) [of "SplitDescs descs n ! i"] S(2) rej(1) n div_greater_zero_iff [of "length descs" n] by (auto simp: f_def)
  have "concat (map (snd \<circ> snd) (concat (map (snd \<circ> snd) rs))) = concat (map snd (filter ?acc ?xs))"
  proof -
    have "concat (map (snd \<circ> snd) (concat (map (snd \<circ> snd) (map (sync_result ans is_get timeout_ms d) xs)))) = concat (map snd (filter ?acc xs))" for xs
      by (induction xs) (auto simp: sync_result_def)
    then show ?thesis by (simp add: rs_def)
  qed
  then have "length (concat (map (snd \<circ> snd) (concat (map (snd \<circ> snd) rs)))) = sum_list (map f (filter ?acc ?xs))"
    by (simp add: length_concat f_def comp_def)
  moreover have "sum_list (map f (filter ?acc ?xs)) + sum_list (map f (filter (\<lambda>x. \<not> ?acc x) ?xs)) = sum_list (map f ?xs)"
    by (rule sum_list_filter_split)
  moreover have "f (i, SplitDescs descs n ! i) \<le> sum_list (map f (filter (\<lambda>x. \<not> ?acc x) ?xs))"
    using in_xs rej(2) by (intro member_le_sum_list) auto
  moreover have "sum_list (map f ?xs) = length (ConvertDescs descs)"
  proof -
    have "map f ?xs = map length (map snd ?xs)" unfolding map_map by (simp add: f_def comp_def)
    then show ?thesis using arg_cong [OF S(1), of length] by (simp only: map_snd_enumerate length_concat)
  qed
  ultimately have "length (concat (map (snd \<circ> snd) (concat (map (snd \<circ> snd) rs)))) < length (ConvertDescs descs)" using pos by linarith
  then show "\<not> dispatched (mc_handles d) descs is_get (concat (map (snd \<circ> snd) rs))" unfolding dispatched_def by (metis nat_less_le)
  have "sync_result ans is_get timeout_ms d (i, SplitDescs descs n ! i) = (None, 0, [])" using rej(2) by (simp add: sync_result_def)
  then have "None \<in> set (map fst rs)" using in_xs unfolding rs_def by (force simp: image_iff)
  then show "CollectFutures (map fst rs) \<noteq> SUCCESS" by (force simp: CollectFutures_def CollectFutures_SUCCESS)
qed

lemma Submit_sync_dispatched:
  assumes "mc_handles d \<noteq> []" "length (mc_handles d) < 2 ^ 32" "split_batch_size d < 2 ^ 32" "length descs < 2 ^ 32"
  shows "\<exists>s ps. Submit ans descs is_get timeout_ms SYNC has_req d = Ok (s, None, d, ps) \<and>
    (s = SUCCESS \<longleftrightarrow> dispatched (mc_handles d) descs is_get ps \<and> (\<forall>(h, g, ds) \<in> set ps. cs_sync ans g h ds timeout_ms = SUCCESS))"
proof -
  let ?n = "ResolveActualWorkerNum (u32 (length (mc_handles d))) (u32 (length descs)) (split_batch_size d)"
  note R = ResolveActualWorkerNum_bounds [OF assms(2,3), of "length descs"]
  have u: "u32 (length (mc_handles d)) = length (mc_handles d)" "u32 (length descs) = length descs" using assms by simp_all
  show ?thesis
  proof (cases "?n \<le> 1")
    case True
    obtain h hs where h: "mc_handles d = h # hs" using assms(1) by (cases "mc_handles d") auto
    have l: "take (u32 (length (ConvertDescs descs))) (ConvertDescs descs) = ConvertDescs descs" using u(2) by (simp add: ConvertDescs_def)
    have "dispatched (mc_handles d) descs is_get [(h, is_get, ConvertDescs descs)]" by (simp add: dispatched_def h ConvertDescs_def)
    with True show ?thesis by (simp add: Submit_def SubmitSingleWorker_def WorkerBatchSyncCall_def Let_def l h)
  next
    case False
    then have n: "0 < ?n" "?n \<le> length (mc_handles d)" "?n \<le> length descs" using R u by auto
    define rs where "rs = map (sync_result ans is_get timeout_ms d) (enumerate 0 (SplitDescs descs ?n))"
    have sub: "Submit ans descs is_get timeout_ms SYNC has_req d = Ok (CollectFutures (map fst rs), None, d, concat (map (snd \<circ> snd) rs))"
      using False SubmitWorkersToPool_sync [OF n(1,2) assms(4), of ans is_get timeout_ms] by (simp add: Submit_def rs_def Let_def)
    show ?thesis
    proof (cases "mc_pool d \<and> (\<forall>i < ?n. pool_commit ans i)")
      case True
      then show ?thesis using sub sync_results_accepted [OF n(1,2) assms(4), of ans is_get timeout_ms] by (simp add: rs_def)
    next
      case rejected: False
      then obtain i where "i < ?n" "\<not> (mc_pool d \<and> pool_commit ans i)" using n(1) by blast
      then show ?thesis using sub sync_results_rejected [OF n assms(4), of i ans is_get timeout_ms] by (simp add: rs_def)
    qed
  qed
qed

definition example_dispatcher :: MultiChannelDispatcher where
  "example_dispatcher = \<lparr>mc_handles = [10, 20], split_batch_size = 1, mc_pool = True, async_workers = []\<rparr>"

definition example_cs :: cs_answers where
  "example_cs = \<lparr>cs_create = \<lambda>i. (SUCCESS, i + 1), cs_sync = \<lambda>g h ds t. SUCCESS, cs_async = \<lambda>g h ds. (SUCCESS, h + 1),
     cs_query = \<lambda>h c. (SUCCESS, if c = 11 then HIXL_COMPLETE_STATUS_COMPLETED else HIXL_COMPLETE_STATUS_WAITING),
     pool_make = True, pool_commit = \<lambda>i. True\<rparr>"

definition example_done :: cs_answers where
  "example_done = example_cs\<lparr>cs_query := \<lambda>h c. (SUCCESS, HIXL_COMPLETE_STATUS_COMPLETED)\<rparr>"

definition example_descs :: "TransferOpDesc list" where
  "example_descs = [\<lparr>td_local_addr = 100, td_remote_addr = 200, td_len = 8\<rparr>, \<lparr>td_local_addr = 108, td_remote_addr = 208, td_len = 8\<rparr>,
     \<lparr>td_local_addr = 116, td_remote_addr = 216, td_len = 8\<rparr>]"

definition example_postings :: "posting list" where
  "example_postings = [(10, True, ConvertDescs (take 2 example_descs)), (20, True, ConvertDescs (drop 2 example_descs))]"

lemmas example_defs = example_dispatcher_def example_cs_def example_done_def example_descs_def example_postings_def

lemma example_split: "SplitDescs example_descs 2 = [ConvertDescs (take 2 example_descs), ConvertDescs (drop 2 example_descs)]"
proof -
  have "u32 (length example_descs) = 3" "example_descs \<noteq> []" by (simp_all add: example_descs_def u32_def)
  then have "SplitDescs example_descs 2 = split_loop example_descs 1 1 0 2 0" by (simp add: SplitDescs_def)
  also have "\<dots> = [ConvertDescs (take 2 example_descs), ConvertDescs (drop 2 example_descs)]"
    by (simp add: ConvertDescs_def example_descs_def numeral_2_eq_2)
  finally show ?thesis .
qed

lemma example_workers: "ResolveActualWorkerNum (u32 (length (mc_handles example_dispatcher))) (u32 (length example_descs)) (split_batch_size example_dispatcher) = 2"
  by (simp add: ResolveActualWorkerNum_def example_defs u32_def mul64_def)

lemma example_submit_sync: "Submit example_cs example_descs True 1000 SYNC False example_dispatcher = Ok (SUCCESS, None, example_dispatcher, example_postings)"
  unfolding Submit_def Let_def example_workers SubmitWorkersToPool_def example_split
  by (simp add: example_defs worker_task_def WorkerBatchSyncCall_def u32_def ConvertDescs_def CollectFutures_def)

definition example_submitted :: MultiChannelDispatcher where
  "example_submitted = example_dispatcher\<lparr>async_workers :=
     [(11, [\<lparr>client_idx = 0, we_handle = 11, we_state = PENDING\<rparr>, \<lparr>client_idx = 1, we_handle = 21, we_state = PENDING\<rparr>])]\<rparr>"

lemma example_submit_async:
  "Submit example_cs example_descs True 0 ASYNC True example_dispatcher = Ok (SUCCESS, Some 11, example_submitted, example_postings)"
  unfolding Submit_def Let_def example_workers SubmitWorkersToPool_def example_split
  by (simp add: example_submitted_def example_defs worker_task_def WorkerBatchAsyncCall_def u32_def ConvertDescs_def CollectFutures_def
    CollectAsyncWorkers_def RecordAsyncWorkers_def map_defs insert_at_def lower_bound_def)

text \<open>C5: A synchronous submission succeeds exactly when the descriptors of the transfer have been posted completely, each
  once and in order, balanced over the first handles of the link, and every one of these calls succeeded. It never reads a handle that
  does not exist.\<close>

theorem Submit_sync_complete:
  assumes "mc_handles d \<noteq> []" "length (mc_handles d) < 2 ^ 32" "split_batch_size d < 2 ^ 32" "length descs < 2 ^ 32"
  shows "\<exists>s ps. Submit ans descs is_get timeout_ms SYNC has_req d = Ok (s, None, d, ps) \<and>
    (s = SUCCESS \<longleftrightarrow> dispatched (mc_handles d) descs is_get ps \<and> (\<forall>(h, g, ds) \<in> set ps. cs_sync ans g h ds timeout_ms = SUCCESS))"
  by (rule Submit_sync_dispatched [OF assms])


section \<open>Polling\<close>

text \<open>What becomes of a worker whose queries get the given answers: the first answer that is not "waiting" decides.\<close>

fun fate :: "(status \<times> HixlCompleteStatus) list \<Rightarrow> WorkerState" where
  "fate [] = PENDING"
| "fate ((ret, cs) # as) =
     (if ret \<noteq> SUCCESS then WS_FAILED
      else if cs = HIXL_COMPLETE_STATUS_WAITING then fate as
      else if cs = HIXL_COMPLETE_STATUS_COMPLETED then WS_COMPLETED
      else WS_FAILED)"

lemma fate_snoc: "fate (as @ [a]) = (if fate as = PENDING then fate [a] else fate as)"
  by (induction as rule: fate.induct) auto

text \<open>The answer to the query of worker \<open>w\<close> in a round, and its fate after some rounds.\<close>

definition answer :: "nat list \<Rightarrow> WorkerEntry \<Rightarrow> cs_answers \<Rightarrow> status \<times> HixlCompleteStatus" where
  "answer hs w ans = cs_query ans (hs ! client_idx w) (we_handle w)"

definition worker_fate :: "nat list \<Rightarrow> cs_answers list \<Rightarrow> WorkerEntry \<Rightarrow> WorkerState" where
  "worker_fate hs rounds w = fate (map (answer hs w) rounds)"

lemma worker_fate_snoc:
  "worker_fate hs (rounds @ [ans]) w = (if worker_fate hs rounds w = PENDING then fate [answer hs w ans] else worker_fate hs rounds w)"
  by (simp add: worker_fate_def fate_snoc)

definition aged :: "nat list \<Rightarrow> cs_answers list \<Rightarrow> WorkerEntry list \<Rightarrow> WorkerEntry list" where
  "aged hs rounds ws = map (\<lambda>w. w\<lparr>we_state := worker_fate hs rounds w\<rparr>) ws"

text \<open>The specification: the status of a request after some rounds, and the queries of the next round, which only concern workers
  without a final answer.\<close>

definition request_status :: "nat list \<Rightarrow> cs_answers list \<Rightarrow> WorkerEntry list \<Rightarrow> TransferStatus" where
  "request_status hs rounds ws =
     (if list_ex (\<lambda>w. worker_fate hs rounds w = WS_FAILED) ws then TS_FAILED
      else if list_ex (\<lambda>w. worker_fate hs rounds w = PENDING) ws then TS_WAITING
      else TS_COMPLETED)"

definition next_queries :: "nat list \<Rightarrow> cs_answers list \<Rightarrow> WorkerEntry list \<Rightarrow> (nat \<times> nat) list" where
  "next_queries hs rounds ws = map (\<lambda>w. (hs ! client_idx w, we_handle w)) (filter (\<lambda>w. worker_fate hs rounds w = PENDING) ws)"

lemma ToTransferStatus_cases: "ToTransferStatus cs = TS_WAITING \<longleftrightarrow> cs = HIXL_COMPLETE_STATUS_WAITING"
  "ToTransferStatus cs = TS_COMPLETED \<longleftrightarrow> cs = HIXL_COMPLETE_STATUS_COMPLETED"
  by (cases cs; simp)+

lemma fate_single: "fate [(ret, cs)] = (if ret \<noteq> SUCCESS then WS_FAILED else if cs = HIXL_COMPLETE_STATUS_WAITING then PENDING
    else if cs = HIXL_COMPLETE_STATUS_COMPLETED then WS_COMPLETED else WS_FAILED)"
  by simp

lemma list_ex_Cons_or: "list_ex P (x # xs) \<longleftrightarrow> P x \<or> list_ex P xs"
  by simp

lemma QueryWorkersStatus_aged:
  assumes "\<forall>w \<in> set ws. client_idx w < length hs"
  shows "QueryWorkersStatus ans hs (aged hs rounds ws) =
    Ok (aged hs (rounds @ [ans]) ws, list_ex (\<lambda>w. worker_fate hs (rounds @ [ans]) w = PENDING) ws,
        list_ex (\<lambda>w. worker_fate hs (rounds @ [ans]) w = WS_FAILED) ws, next_queries hs rounds ws)"
  using assms
proof (induction ws)
  case Nil
  then show ?case by (simp add: aged_def next_queries_def)
next
  case (Cons w ws)
  obtain ret cs where a: "answer hs w ans = (ret, cs)" by fastforce
  then have q: "cs_query ans (hs ! client_idx w) (we_handle w) = (ret, cs)" by (simp add: answer_def)
  have IH: "QueryWorkersStatus ans hs (aged hs rounds ws) =
    Ok (aged hs (rounds @ [ans]) ws, list_ex (\<lambda>w. worker_fate hs (rounds @ [ans]) w = PENDING) ws,
        list_ex (\<lambda>w. worker_fate hs (rounds @ [ans]) w = WS_FAILED) ws, next_queries hs rounds ws)"
    using Cons by simp
  have w: "client_idx w < length hs" using Cons.prems by simp
  have aged: "aged hs r (w # ws) = w\<lparr>we_state := worker_fate hs r w\<rparr> # aged hs r ws" for r by (simp add: aged_def)
  have nq: "next_queries hs rounds (w # ws) =
      (if worker_fate hs rounds w = PENDING then [(hs ! client_idx w, we_handle w)] else []) @ next_queries hs rounds ws"
    by (simp add: next_queries_def)
  show ?case
  proof (cases "worker_fate hs rounds w = PENDING")
    case True
    then have f: "worker_fate hs (rounds @ [ans]) w = fate [(ret, cs)]" by (simp add: worker_fate_snoc a)
    show ?thesis
      unfolding aged nq list_ex_Cons_or f fate_single
      using True w by (cases "ret = SUCCESS"; cases cs) (simp_all add: IH q)
  next
    case False
    then have f: "worker_fate hs (rounds @ [ans]) w = worker_fate hs rounds w" by (simp add: worker_fate_snoc)
    show ?thesis unfolding aged nq list_ex_Cons_or f using False by (simp add: IH)
  qed
qed

text \<open>Polling until the answer is final. The result has the statuses and the queries of each round.\<close>

fun poll :: "nat \<Rightarrow> cs_answers list \<Rightarrow> MultiChannelDispatcher \<Rightarrow>
    ((status \<times> TransferStatus \<times> (nat \<times> nat) list) list \<times> MultiChannelDispatcher) outcome" where
  "poll req [] d = Ok ([], d)"
| "poll req (ans # rest) d =
     obind (CheckStatus ans req d) (\<lambda>(s, ts, d1, qs).
       if ts = TS_WAITING then obind (poll req rest d1) (\<lambda>(out, d2). Ok ((s, ts, qs) # out, d2))
       else Ok ([(s, ts, qs)], d1))"

text \<open>The rounds that polling takes: up to the first one after which the status is final.\<close>

fun poll_spec :: "nat list \<Rightarrow> WorkerEntry list \<Rightarrow> cs_answers list \<Rightarrow> cs_answers list \<Rightarrow> (status \<times> TransferStatus \<times> (nat \<times> nat) list) list" where
  "poll_spec hs ws before [] = []"
| "poll_spec hs ws before (ans # rest) =
     (SUCCESS, request_status hs (before @ [ans]) ws, next_queries hs before ws) #
       (if request_status hs (before @ [ans]) ws = TS_WAITING then poll_spec hs ws (before @ [ans]) rest else [])"

lemma CheckStatus_aged:
  fixes ans :: cs_answers
  assumes "map_of (async_workers d) req = Some (aged (mc_handles d) before ws)" "\<forall>w \<in> set ws. client_idx w < length (mc_handles d)"
  defines "ts \<equiv> request_status (mc_handles d) (before @ [ans]) ws"
  shows "CheckStatus ans req d = Ok (SUCCESS, ts,
    d\<lparr>async_workers := (if ts = TS_WAITING then map_assign req (aged (mc_handles d) (before @ [ans]) ws) (async_workers d)
      else map_erase req (async_workers d))\<rparr>, next_queries (mc_handles d) before ws)"
proof -
  have "async_workers d \<noteq> []" using assms(1) by auto
  then show ?thesis
    using assms(1) by (simp add: CheckStatus_def QueryWorkersStatus_aged [OF assms(2)] ts_def request_status_def)
qed

lemma poll_spec_holds:
  assumes "map_of (async_workers d) req = Some (aged (mc_handles d) before ws)" "\<forall>w \<in> set ws. client_idx w < length (mc_handles d)"
  shows "\<exists>d'. poll req rounds d = Ok (poll_spec (mc_handles d) ws before rounds, d') \<and>
    (map_of (async_workers d') req = None \<longleftrightarrow> (\<exists>x \<in> set (poll_spec (mc_handles d) ws before rounds). fst (snd x) \<noteq> TS_WAITING))"
  using assms
proof (induction rounds arbitrary: d before)
  case (Cons ans rest)
  note C = CheckStatus_aged [OF Cons.prems, of ans]
  show ?case
  proof (cases "request_status (mc_handles d) (before @ [ans]) ws = TS_WAITING")
    case True
    let ?d = "d\<lparr>async_workers := map_assign req (aged (mc_handles d) (before @ [ans]) ws) (async_workers d)\<rparr>"
    have "\<exists>d'. poll req rest ?d = Ok (poll_spec (mc_handles ?d) ws (before @ [ans]) rest, d') \<and>
      (map_of (async_workers d') req = None \<longleftrightarrow> (\<exists>x \<in> set (poll_spec (mc_handles ?d) ws (before @ [ans]) rest). fst (snd x) \<noteq> TS_WAITING))"
      using Cons.prems(2) by (intro Cons.IH) simp_all
    with C True show ?thesis by auto
  next
    case False
    with C show ?thesis by (simp add: map_of_map_erase)
  qed
qed simp


section \<open>Asynchronous submission\<close>

text \<open>The status of an asynchronous call is that of a synchronous call to a client that answers in the same way.\<close>

definition as_sync :: "cs_answers \<Rightarrow> cs_answers" where
  "as_sync ans = ans\<lparr>cs_sync := \<lambda>g h ds t. fst (cs_async ans g h ds)\<rparr>"

definition posted_handle :: "cs_answers \<Rightarrow> posting \<Rightarrow> nat" where
  "posted_handle ans = (\<lambda>(h, g, ds). snd (cs_async ans g h ds))"

definition task_handle :: "cs_answers \<Rightarrow> posting list \<Rightarrow> nat" where
  "task_handle ans ps = (case ps of [] \<Rightarrow> 0 | p # _ \<Rightarrow> posted_handle ans p)"

lemma worker_task_async:
  "worker_task ans is_get t ASYNC d x =
    obind (worker_task (as_sync ans) is_get t SYNC d x) (\<lambda>(r, _, ps). Ok (r, task_handle ans ps, ps))"
  by (cases x) (auto simp: worker_task_def as_sync_def task_handle_def posted_handle_def WorkerBatchSyncCall_def WorkerBatchAsyncCall_def
    Let_def split: prod.splits)

lemma collect_obind: "collect (\<lambda>x. obind (g x) (\<lambda>y. Ok (k y))) xs = obind (collect g xs) (\<lambda>ys. Ok (map k ys))"
proof (induction xs)
  case (Cons x xs)
  then show ?case by (cases "g x"; cases "collect g xs") auto
qed simp

lemma SubmitWorkersToPool_async:
  "SubmitWorkersToPool ans descs n is_get t ASYNC d =
    obind (collect (worker_task (as_sync ans) is_get t SYNC d) (enumerate 0 (SplitDescs descs n)))
      (\<lambda>rs. Ok (CollectFutures (map fst rs), map (\<lambda>r. task_handle ans (snd (snd r))) rs, concat (map (snd \<circ> snd) rs)))"
proof -
  have "worker_task ans is_get t ASYNC d =
      (\<lambda>x. obind (worker_task (as_sync ans) is_get t SYNC d x) (\<lambda>r. Ok (fst r, task_handle ans (snd (snd r)), snd (snd r))))"
    by (rule ext) (simp add: worker_task_async case_prod_unfold)
  then show ?thesis
    unfolding SubmitWorkersToPool_def by (simp add: collect_obind comp_def)
      (cases "collect (worker_task (as_sync ans) is_get t SYNC d) (enumerate 0 (SplitDescs descs n))"; simp add: comp_def)
qed

lemma worker_task_posts:
  assumes "worker_task ans is_get t SYNC d x = Ok (Some r, c, ps)"
  obtains p where "ps = [p]"
  using assms by (cases x) (auto simp: worker_task_def WorkerBatchSyncCall_def Let_def split: if_splits)

lemma collect_Ok_set: "collect f xs = Ok ys \<Longrightarrow> y \<in> set ys \<Longrightarrow> \<exists>x \<in> set xs. f x = Ok y"
proof (induction xs arbitrary: ys)
  case (Cons x xs)
  then show ?case by (cases "f x"; cases "collect f xs") auto
qed simp

text \<open>When all tasks succeeded, each has stored the completion handle of its call.\<close>

lemma SubmitWorkersToPool_async_handles:
  assumes "SubmitWorkersToPool ans descs n is_get t ASYNC d = Ok (SUCCESS, hs, ps)"
  shows "hs = map (posted_handle ans) ps"
proof -
  obtain rs where rs: "collect (worker_task (as_sync ans) is_get t SYNC d) (enumerate 0 (SplitDescs descs n)) = Ok rs"
    "CollectFutures (map fst rs) = SUCCESS" "hs = map (\<lambda>r. task_handle ans (snd (snd r))) rs" "ps = concat (map (snd \<circ> snd) rs)"
    using assms unfolding SubmitWorkersToPool_async
    by (cases "collect (worker_task (as_sync ans) is_get t SYNC d) (enumerate 0 (SplitDescs descs n))") auto
  have "\<exists>p. snd (snd r) = [p]" if r: "r \<in> set rs" for r
  proof -
    have "fst r = Some SUCCESS" using r rs(2) by (auto simp: CollectFutures_def CollectFutures_SUCCESS)
    then obtain c qs where e: "r = (Some SUCCESS, c, qs)" by (metis prod.collapse)
    obtain x where "worker_task (as_sync ans) is_get t SYNC d x = Ok r" using collect_Ok_set [OF rs(1) r] by blast
    with e show ?thesis by (auto elim: worker_task_posts)
  qed
  then have "map (\<lambda>r. task_handle ans (snd (snd r))) rs = map (posted_handle ans) (concat (map (snd \<circ> snd) rs))"
    by (induction rs) (fastforce simp: task_handle_def)+
  then show ?thesis using rs by simp
qed

lemma SubmitWorkersToPool_as_sync:
  "SubmitWorkersToPool ans descs n is_get t ASYNC d = Ok (s, hs, ps) \<Longrightarrow>
    \<exists>hs'. SubmitWorkersToPool (as_sync ans) descs n is_get t SYNC d = Ok (s, hs', ps)"
  unfolding SubmitWorkersToPool_async unfolding SubmitWorkersToPool_def
  by (cases "collect (worker_task (as_sync ans) is_get t SYNC d) (enumerate 0 (SplitDescs descs n))") auto

definition async_entries :: "cs_answers \<Rightarrow> posting list \<Rightarrow> WorkerEntry list" where
  "async_entries ans ps = map (\<lambda>(i, h). \<lparr>client_idx = i, we_handle = h, we_state = PENDING\<rparr>) (enumerate 0 (map (posted_handle ans) ps))"

lemma RecordAsyncWorkers_SUCCESS:
  assumes "RecordAsyncWorkers ws d = (SUCCESS, req, d1)"
  shows "\<exists>r. req = Some r \<and> r \<in> we_handle ` set ws \<and> r \<noteq> 0 \<and> d1 = d\<lparr>async_workers := map_assign r ws (async_workers d)\<rparr>"
proof -
  obtain e where e: "find (\<lambda>e. we_handle e \<noteq> 0) ws = Some e"
    using assms by (auto simp: RecordAsyncWorkers_def split: option.splits)
  then have "e \<in> set ws" "we_handle e \<noteq> 0" by (auto simp: find_Some_iff)
  with e assms show ?thesis by (auto simp: RecordAsyncWorkers_def)
qed

lemma Submit_async_recorded:
  assumes "Submit ans descs is_get t ASYNC True d = Ok (SUCCESS, req, d1, ps)"
  shows "\<exists>r. req = Some r \<and> d1 = d\<lparr>async_workers := map_assign r (async_entries ans ps) (async_workers d)\<rparr> \<and>
    Submit (as_sync ans) descs is_get t SYNC True d = Ok (SUCCESS, None, d, ps)"
proof (cases "ResolveActualWorkerNum (u32 (length (mc_handles d))) (u32 (length descs)) (split_batch_size d) \<le> 1")
  case True
  let ?ds = "take (u32 (length (ConvertDescs descs))) (ConvertDescs descs)"
  obtain h hs where h: "mc_handles d = h # hs" using assms True by (cases "mc_handles d") (auto simp: Submit_def SubmitSingleWorker_def)
  obtain ret ch where ch: "cs_async ans is_get h ?ds = (ret, ch)" by fastforce
  have ps: "ret = SUCCESS" "ps = [(h, is_get, ?ds)]" "RecordAsyncWorkers (async_entries ans ps) d = (SUCCESS, req, d1)"
    using assms True h ch
    by (auto simp: Submit_def SubmitSingleWorker_def WorkerBatchAsyncCall_def Let_def async_entries_def posted_handle_def
      split: if_splits prod.splits)
  with RecordAsyncWorkers_SUCCESS [OF ps(3)] True h ch show ?thesis
    by (auto simp: Submit_def SubmitSingleWorker_def WorkerBatchSyncCall_def as_sync_def Let_def)
next
  case False
  let ?n = "ResolveActualWorkerNum (u32 (length (mc_handles d))) (u32 (length descs)) (split_batch_size d)"
  obtain s hs where sub: "SubmitWorkersToPool ans descs ?n is_get t ASYNC d = Ok (s, hs, ps)" "CollectAsyncWorkers s hs d = (SUCCESS, req, d1)"
    using assms False by (cases "SubmitWorkersToPool ans descs ?n is_get t ASYNC d") (auto simp: Submit_def Let_def split: prod.splits)
  then have s: "s = SUCCESS" by (auto simp: CollectAsyncWorkers_def split: if_splits)
  then have "hs = map (posted_handle ans) ps" using sub(1) SubmitWorkersToPool_async_handles by blast
  then have "RecordAsyncWorkers (async_entries ans ps) d = (SUCCESS, req, d1)"
    using sub(2) s by (simp add: CollectAsyncWorkers_def async_entries_def)
  from RecordAsyncWorkers_SUCCESS [OF this] SubmitWorkersToPool_as_sync [OF sub(1)] False s show ?thesis
    by (auto simp: Submit_def Let_def)
qed

lemma async_entries_aged: "aged hs [] (async_entries ans ps) = async_entries ans ps"
  by (auto simp: aged_def async_entries_def worker_fate_def)

lemma async_entries_idx: "w \<in> set (async_entries ans ps) \<Longrightarrow> client_idx w < length ps"
  by (auto simp: async_entries_def enumerate_nth)

text \<open>C14: After a successful asynchronous submission the whole transfer has been posted and accepted, and polling the returned
  request follows the completion handles of exactly these calls: each round asks only about the workers without a final answer; the request
  has failed as soon as one worker has, is waiting as long as one has no final answer, and is completed when all are; it is
  forgotten exactly when its status is final.\<close>

theorem Submit_async_polled:
  assumes "mc_handles d \<noteq> []" "length (mc_handles d) < 2 ^ 32" "split_batch_size d < 2 ^ 32" "length descs < 2 ^ 32"
    "Submit ans descs is_get t ASYNC True d = Ok (SUCCESS, req, d1, ps)"
  shows "dispatched (mc_handles d) descs is_get ps \<and> (\<forall>(h, g, ds) \<in> set ps. fst (cs_async ans g h ds) = SUCCESS) \<and>
    (\<exists>r d2. req = Some r \<and> poll r rounds d1 = Ok (poll_spec (mc_handles d) (async_entries ans ps) [] rounds, d2) \<and>
       (map_of (async_workers d2) r = None \<longleftrightarrow>
        (\<exists>(s, ts, qs) \<in> set (poll_spec (mc_handles d) (async_entries ans ps) [] rounds). ts \<noteq> TS_WAITING)))"
proof -
  obtain r where r: "req = Some r" "d1 = d\<lparr>async_workers := map_assign r (async_entries ans ps) (async_workers d)\<rparr>"
    "Submit (as_sync ans) descs is_get t SYNC True d = Ok (SUCCESS, None, d, ps)"
    using Submit_async_recorded [OF assms(5)] by blast
  have D: "dispatched (mc_handles d) descs is_get ps" "\<forall>(h, g, ds) \<in> set ps. fst (cs_async ans g h ds) = SUCCESS"
    using Submit_sync_dispatched [OF assms(1-4), of "as_sync ans" is_get t True] r(3) by (auto simp: as_sync_def)
  have "map_of (async_workers d1) r = Some (aged (mc_handles d1) [] (async_entries ans ps))"
    using r(2) by (simp add: async_entries_aged)
  moreover have "\<forall>w \<in> set (async_entries ans ps). client_idx w < length (mc_handles d1)"
    using D(1) async_entries_idx r(2) by (fastforce simp: dispatched_def)
  ultimately show ?thesis using poll_spec_holds [of d1 r "[]" "async_entries ans ps" rounds] D r by (auto simp: case_prod_unfold)
qed


section \<open>Handles are released\<close>

definition created :: "handle_event list \<Rightarrow> nat list" where
  "created ev = concat (map (\<lambda>e. case e of ClientCreated h \<Rightarrow> [h] | ClientDestroyed h \<Rightarrow> []) ev)"

definition destroyed :: "handle_event list \<Rightarrow> nat list" where
  "destroyed ev = concat (map (\<lambda>e. case e of ClientCreated h \<Rightarrow> [] | ClientDestroyed h \<Rightarrow> [h]) ev)"

lemma created_append: "created (xs @ ys) = created xs @ created ys" "destroyed (xs @ ys) = destroyed xs @ destroyed ys"
  by (simp_all add: created_def destroyed_def)

lemma DestroyHandles_events:
  assumes "0 \<notin> set (mc_handles d)"
  shows "DestroyHandles d = (d\<lparr>mc_handles := []\<rparr>, map ClientDestroyed (mc_handles d))"
    "created (map ClientDestroyed hs) = []" "destroyed (map ClientDestroyed hs) = hs"
proof -
  have "filter (\<lambda>h. h \<noteq> 0) (mc_handles d) = mc_handles d" using assms by (intro filter_True) metis
  then show "DestroyHandles d = (d\<lparr>mc_handles := []\<rparr>, map ClientDestroyed (mc_handles d))" by (simp add: DestroyHandles_def)
qed (induction hs; simp add: created_def destroyed_def)+

lemma create_loop_events:
  assumes "\<forall>i. fst (cs_create ans i) = SUCCESS \<longrightarrow> snd (cs_create ans i) \<noteq> 0" "create_loop ans i n d = (s, d', ev)" "0 \<notin> set (mc_handles d)"
  shows "mc_handles d' = mc_handles d @ created ev \<and> destroyed ev = [] \<and> 0 \<notin> set (mc_handles d') \<and>
    (s = SUCCESS \<longrightarrow> length (created ev) = n)"
  using assms(2-)
proof (induction n arbitrary: i d ev)
  case (Suc n)
  obtain ret h where c: "cs_create ans i = (ret, h)" by fastforce
  show ?case
  proof (cases "ret = SUCCESS")
    case True
    then have "h \<noteq> 0" using assms(1) c by (metis fst_conv snd_conv)
    obtain ev' where e: "create_loop ans (Suc i) n (d\<lparr>mc_handles := mc_handles d @ [h]\<rparr>) = (s, d', ev')" "ev = ClientCreated h # ev'"
      using Suc.prems(1) c True by (auto split: prod.splits)
    with Suc.IH [OF e(1)] Suc.prems(2) \<open>h \<noteq> 0\<close> show ?thesis by (auto simp: created_def destroyed_def)
  next
    case False
    then show ?thesis using Suc.prems c by (auto simp: created_def destroyed_def)
  qed
qed (auto simp: created_def destroyed_def)

text \<open>\<^const>\<open>CreateHandles\<close> releases the handles of an earlier connection; on success the dispatcher owns the handles it
  created, one per worker, and on any failure it owns none and every client it created is destroyed.\<close>

lemma CreateHandles_events:
  assumes "\<forall>i. fst (cs_create ans i) = SUCCESS \<longrightarrow> snd (cs_create ans i) \<noteq> 0" "0 \<notin> set (mc_handles d)"
    "CreateHandles ans worker_num batch d = (s, d', ev)"
  shows "if s = SUCCESS then length (mc_handles d') = worker_num \<and> mc_handles d' = created ev \<and> destroyed ev = mc_handles d \<and> mc_pool d'
    else mc_handles d' = [] \<and> destroyed ev = mc_handles d @ created ev"
proof -
  let ?d0 = "d\<lparr>mc_handles := []\<rparr>"
  obtain ret d1 ev1 where L: "create_loop ans 0 worker_num ?d0 = (ret, d1, ev1)" by (metis prod_cases3)
  note E = create_loop_events [OF assms(1) L, simplified]
  note D = DestroyHandles_events [OF assms(2)]
  show ?thesis
  proof (cases "ret = SUCCESS \<and> pool_make ans")
    case True
    then show ?thesis using assms(3) L E D by (auto simp: CreateHandles_def InitPool_def created_append Let_def)
  next
    case False
    let ?d2 = "if ret = SUCCESS then snd (InitPool ans batch d1) else d1"
    have h2: "mc_handles ?d2 = mc_handles d1" by (simp add: InitPool_def Let_def)
    then have D2: "DestroyHandles ?d2 = (?d2\<lparr>mc_handles := []\<rparr>, map ClientDestroyed (mc_handles d1))"
      using DestroyHandles_events(1) [of ?d2] E by auto
    have "s \<noteq> SUCCESS" "d' = ?d2\<lparr>mc_handles := []\<rparr>" "ev = map ClientDestroyed (mc_handles d) @ ev1 @ map ClientDestroyed (mc_handles d1)"
      using assms(3) L D(1) D2 False by (auto simp: CreateHandles_def InitPool_def Let_def split: if_splits)
    then show ?thesis using E D by (simp add: created_append DestroyHandles_events(2,3) [OF assms(2)])
  qed
qed


lemma Submit_sync_complete_witness:
  "dispatched [10, 20] example_descs True example_postings \<and>
   Submit example_cs example_descs True 1000 SYNC False example_dispatcher = Ok (SUCCESS, None, example_dispatcher, example_postings)"
  using Submit_sync_complete [of example_dispatcher example_descs example_cs True 1000 False] example_submit_sync
  by (simp add: example_dispatcher_def example_descs_def)

lemma Submit_async_polled_witness:
  "\<exists>d2. poll 11 [example_cs, example_done] example_submitted =
     Ok ([(SUCCESS, TS_WAITING, [(10, 11), (20, 21)]), (SUCCESS, TS_COMPLETED, [(20, 21)])], d2) \<and> map_of (async_workers d2) 11 = None"
proof -
  have "poll_spec (mc_handles example_dispatcher) (async_entries example_cs example_postings) [] [example_cs, example_done] =
      [(SUCCESS, TS_WAITING, [(10, 11), (20, 21)]), (SUCCESS, TS_COMPLETED, [(20, 21)])]"
    by (simp add: example_defs async_entries_def posted_handle_def request_status_def next_queries_def worker_fate_def answer_def)
  then show ?thesis
    using Submit_async_polled [OF _ _ _ _ example_submit_async, of "[example_cs, example_done]"]
    by (simp add: example_dispatcher_def example_descs_def del: poll.simps poll_spec.simps)
qed

end
