(* ===== verification/Hixl_Client.thy ===== *)
theory Hixl_Client
  imports Multi_Channel
begin

text \<open>
  One connection to a remote engine (\<open>src/src/hixl/engine/hixl_client.cc\<close>). Every method runs under the
  mutex of the client, so a method is one step. The client keeps whether it is connected and finalized, the requests that
  have not reached a final status, and the count of transfers that hold it. What the client handler answers during a call
  is an argument. The control socket (\<open>Initialize\<close>, \<open>SendNotify\<close>, the heartbeat) and the profiling data of a request are
  left out.
\<close>

section \<open>Data\<close>

record MemDesc =
  md_addr :: nat
  md_len :: nat
  md_local_only :: bool

record MemHandleInfo =
  mi_handle :: nat
  mi_mem :: MemDesc
  mi_type :: MemType

datatype TransferOp = READ | WRITE

text \<open>\<open>hc_handler\<close> says that there is a handler, \<open>hc_in_call\<close> that another thread holds the mutex of the client.\<close>

record HixlClient =
  hc_connected :: bool
  hc_finalized :: bool
  hc_handler :: bool
  hc_reqs :: "nat set"
  use_count :: nat
  hc_in_call :: bool

record handler_answers =
  ha_register :: "MemHandleInfo \<Rightarrow> status"
  ha_deregister :: "nat \<Rightarrow> status"
  ha_connect :: "nat \<Rightarrow> status"
  ha_sync :: "TransferOpDesc list \<Rightarrow> TransferOp \<Rightarrow> nat \<Rightarrow> status"
  ha_async :: "TransferOpDesc list \<Rightarrow> TransferOp \<Rightarrow> status \<times> nat"
  ha_status :: "nat \<Rightarrow> status \<times> TransferStatus"
  ha_finalize :: status

section \<open>Operations\<close>

text \<open>The second component lists the calls of the handler.\<close>

fun register_loop :: "handler_answers \<Rightarrow> MemHandleInfo list \<Rightarrow> status \<times> MemHandleInfo list" where
  "register_loop ha [] = (SUCCESS, [])"
| "register_loop ha (mi # mis) =
     (if ha_register ha mi \<noteq> SUCCESS then (ha_register ha mi, [mi])
      else case register_loop ha mis of (s, calls) \<Rightarrow> (s, mi # calls))"

definition HixlClient_RegisterMem :: "handler_answers \<Rightarrow> MemHandleInfo list \<Rightarrow> HixlClient \<Rightarrow> status \<times> MemHandleInfo list" where
  "HixlClient_RegisterMem ha mem_info_list c =
     (if \<not> hc_handler c then (FAILED, []) else register_loop ha mem_info_list)"

definition HixlClient_DeregisterMem :: "handler_answers \<Rightarrow> nat \<Rightarrow> HixlClient \<Rightarrow> status" where
  "HixlClient_DeregisterMem ha mem_handle c = (if \<not> hc_handler c then SUCCESS else ha_deregister ha mem_handle)"

definition HixlClient_Connect :: "handler_answers \<Rightarrow> nat \<Rightarrow> HixlClient \<Rightarrow> status \<times> HixlClient" where
  "HixlClient_Connect ha timeout_ms c =
     (if \<not> hc_handler c then (FAILED, c)
      else let ret = ha_connect ha timeout_ms in
           if ret \<noteq> SUCCESS then (ret, c) else (SUCCESS, c\<lparr>hc_connected := True\<rparr>))"

definition HixlClient_TransferSync :: "handler_answers \<Rightarrow> TransferOpDesc list \<Rightarrow> TransferOp \<Rightarrow> nat \<Rightarrow> HixlClient \<Rightarrow> status" where
  "HixlClient_TransferSync ha op_descs operation timeout_ms c =
     (if op_descs = [] then PARAM_INVALID
      else if \<not> hc_handler c then FAILED
      else if \<not> hc_connected c then NOT_CONNECTED
      else if hc_finalized c then FAILED
      else ha_sync ha op_descs operation timeout_ms)"

definition HixlClient_TransferAsync :: "handler_answers \<Rightarrow> TransferOpDesc list \<Rightarrow> TransferOp \<Rightarrow> HixlClient \<Rightarrow> status \<times> nat option \<times> HixlClient" where
  "HixlClient_TransferAsync ha op_descs operation c =
     (if op_descs = [] then (PARAM_INVALID, None, c)
      else if \<not> hc_connected c then (NOT_CONNECTED, None, c)
      else if \<not> hc_handler c then (FAILED, None, c)
      else case ha_async ha op_descs operation of (ret, req) \<Rightarrow>
        if ret \<noteq> SUCCESS then (ret, None, c) else (SUCCESS, Some req, c\<lparr>hc_reqs := insert req (hc_reqs c)\<rparr>))"

definition HixlClient_GetTransferStatus :: "handler_answers \<Rightarrow> nat \<Rightarrow> HixlClient \<Rightarrow> status \<times> TransferStatus \<times> HixlClient" where
  "HixlClient_GetTransferStatus ha req c =
     (if \<not> hc_handler c then (FAILED, TS_FAILED, c)
      else if req \<notin> hc_reqs c then (PARAM_INVALID, TS_FAILED, c)
      else case ha_status ha req of (ret, ts) \<Rightarrow>
        if ret \<noteq> SUCCESS then (ret, ts, c\<lparr>hc_reqs := hc_reqs c - {req}\<rparr>)
        else if ts = TS_COMPLETED then (SUCCESS, ts, c\<lparr>hc_reqs := hc_reqs c - {req}\<rparr>)
        else if ts = TS_FAILED then (SUCCESS, ts, c\<lparr>hc_reqs := hc_reqs c - {req}\<rparr>)
        else (SUCCESS, ts, c))"

definition AcquireUse :: "HixlClient \<Rightarrow> HixlClient" where
  "AcquireUse c = c\<lparr>use_count := add32 (use_count c) 1\<rparr>"

definition ReleaseUse :: "HixlClient \<Rightarrow> HixlClient" where
  "ReleaseUse c = c\<lparr>use_count := sub32 (use_count c) 1\<rparr>"

definition IsBusy :: "HixlClient \<Rightarrow> bool" where
  "IsBusy c = (use_count c > 0 \<or> hc_in_call c \<or> hc_reqs c \<noteq> {})"

definition HixlClient_Finalize :: "handler_answers \<Rightarrow> HixlClient \<Rightarrow> status \<times> HixlClient" where
  "HixlClient_Finalize ha c =
     (if hc_finalized c then (SUCCESS, c)
      else
        let ret = (if hc_handler c then ha_finalize ha else SUCCESS) in
        (ret, c\<lparr>hc_finalized := True, hc_reqs := {}, hc_connected := False\<rparr>))"

lemma HixlClient_Finalize_fields [simp]:
  "hc_finalized (snd (HixlClient_Finalize ha c))" "use_count (snd (HixlClient_Finalize ha c)) = use_count c"
  by (simp_all add: HixlClient_Finalize_def Let_def)

text \<open>After \<^const>\<open>HixlClient_Finalize\<close> no transfer reaches the handler. The state after a connection that was never
  finalized is kept as it is.\<close>

lemma finalized_rejects:
  assumes "\<not> hc_finalized c"
  shows "HixlClient_TransferSync ha ops oper t (snd (HixlClient_Finalize ha' c)) \<in> {PARAM_INVALID, FAILED, NOT_CONNECTED}"
    "fst (HixlClient_TransferAsync ha ops oper (snd (HixlClient_Finalize ha' c))) \<in> {PARAM_INVALID, NOT_CONNECTED}"
  using assms by (simp_all add: HixlClient_TransferSync_def HixlClient_TransferAsync_def HixlClient_Finalize_def Let_def)

end
