(* ===== verification/Client_Manager.thy ===== *)
theory Client_Manager
  imports Hixl_Client "HOL-Library.Char_ord" "HOL-Library.List_Lexorder" "HOL-Library.Product_Lexorder"
begin

text \<open>
  The pool of connections of an engine (\<open>src/src/hixl/engine/client_manager.cc\<close>). It holds at most \<open>max_channel\<close> connections,
  those under construction included; when it is full, the least recently used idle connection is taken down. The sections between
  lock and unlock of the manager mutex are the operations of the model, and calls of several threads are interleaved step by
  step. Client objects live in a heap indexed by numbers. The request index keeps asynchronous requests in the order of their
  submission. The last section is about the lifetime of the mutexes that serialise the calls for one remote engine.
\<close>

section \<open>State\<close>

text \<open>\<open>clients\<close> is the ordered map, \<open>client_objs\<close> the heap of the clients, \<open>next_client\<close> the next free place of the heap.\<close>

record ClientManager =
  clients :: "(string \<times> nat) list"
  last_access_seq :: "string \<rightharpoonup> nat"
  access_seq :: nat
  max_channel :: "nat option"
  creating_count :: nat
  cm_finalized :: bool
  ordered_reqs :: "nat list"
  req_to_client :: "nat \<rightharpoonup> nat \<times> nat"
  client_objs :: "nat \<Rightarrow> HixlClient"
  next_client :: nat

definition clients_erase :: "string \<Rightarrow> (string \<times> nat) list \<Rightarrow> (string \<times> nat) list" where
  "clients_erase e m = filter (\<lambda>kv. fst kv \<noteq> e) m"

definition clients_emplace :: "string \<Rightarrow> nat \<Rightarrow> (string \<times> nat) list \<Rightarrow> (string \<times> nat) list" where
  "clients_emplace e c m = (if e \<in> fst ` set m then m else insort_key fst (e, c) m)"

definition update_client :: "nat \<Rightarrow> (HixlClient \<Rightarrow> HixlClient) \<Rightarrow> ClientManager \<Rightarrow> ClientManager" where
  "update_client c f m = m\<lparr>client_objs := (client_objs m)(c := f (client_objs m c))\<rparr>"

section \<open>The request index\<close>

text \<open>A weak pointer to a client that no longer exists is \<open>expired\<close>.\<close>

definition EraseTransferReq :: "nat \<Rightarrow> ClientManager \<Rightarrow> ClientManager" where
  "EraseTransferReq req m =
     (case req_to_client m req of
        None \<Rightarrow> m
      | Some _ \<Rightarrow> m\<lparr>ordered_reqs := remove1 req (ordered_reqs m), req_to_client := (req_to_client m)(req := None)\<rparr>)"

definition RegisterTransferReq :: "nat \<Rightarrow> nat option \<Rightarrow> nat \<Rightarrow> ClientManager \<Rightarrow> ClientManager" where
  "RegisterTransferReq req client user_data m =
     (case client of
        None \<Rightarrow> m
      | Some c \<Rightarrow>
          if req = 0 then m
          else let m1 = EraseTransferReq req m in
               m1\<lparr>ordered_reqs := ordered_reqs m1 @ [req], req_to_client := (req_to_client m1)(req \<mapsto> (c, user_data))\<rparr>)"

definition GetClientByReq :: "(nat \<Rightarrow> bool) \<Rightarrow> nat \<Rightarrow> ClientManager \<Rightarrow> nat option \<times> ClientManager" where
  "GetClientByReq expired req m =
     (case req_to_client m req of
        None \<Rightarrow> (None, m)
      | Some (c, u) \<Rightarrow> if expired c then (None, EraseTransferReq req m) else (Some c, m))"

fun ordered_loop :: "(nat \<Rightarrow> bool) \<Rightarrow> nat \<Rightarrow> nat list \<Rightarrow> (nat \<rightharpoonup> nat \<times> nat) \<Rightarrow> nat \<Rightarrow>
    (nat \<times> nat \<times> nat) list \<times> nat list \<times> (nat \<rightharpoonup> nat \<times> nat)" where
  "ordered_loop expired max_count [] idx n = ([], [], idx)"
| "ordered_loop expired max_count (req # rs) idx n =
     (case idx req of
        None \<Rightarrow> ordered_loop expired max_count rs idx n
      | Some (c, u) \<Rightarrow>
          if expired c then ordered_loop expired max_count rs (idx(req := None)) n
          else if max_count > 0 \<and> Suc n \<ge> max_count then ([(req, c, u)], req # rs, idx)
          else case ordered_loop expired max_count rs idx (Suc n) of (out, rs', idx') \<Rightarrow> ((req, c, u) # out, req # rs', idx'))"

definition GetOrderedReqs :: "(nat \<Rightarrow> bool) \<Rightarrow> nat \<Rightarrow> ClientManager \<Rightarrow> (nat \<times> nat \<times> nat) list \<times> ClientManager" where
  "GetOrderedReqs expired max_count m =
     (case ordered_loop expired max_count (ordered_reqs m) (req_to_client m) 0 of
        (out, rs, idx) \<Rightarrow> (out, m\<lparr>ordered_reqs := rs, req_to_client := idx\<rparr>))"

text \<open>The entries of the client and those whose client has expired, in any order.\<close>

definition EraseReqIndexByClient :: "(nat \<Rightarrow> bool) \<Rightarrow> nat \<Rightarrow> ClientManager \<Rightarrow> ClientManager" where
  "EraseReqIndexByClient expired client m =
     (let gone = (\<lambda>req. case req_to_client m req of None \<Rightarrow> False | Some (c, u) \<Rightarrow> expired c \<or> c = client) in
      m\<lparr>ordered_reqs := filter (\<lambda>req. \<not> gone req) (ordered_reqs m),
        req_to_client := (\<lambda>req. if gone req then None else req_to_client m req)\<rparr>)"

section \<open>The pool\<close>

definition TouchClientLocked :: "string \<Rightarrow> ClientManager \<Rightarrow> ClientManager" where
  "TouchClientLocked e m =
     (if max_channel m = None then m
      else let seq = add64 (access_seq m) 1 in
           m\<lparr>access_seq := seq, last_access_seq := (last_access_seq m)(e \<mapsto> seq)\<rparr>)"

definition idle_clients :: "ClientManager \<Rightarrow> (nat \<times> string) list" where
  "idle_clients m =
     map (\<lambda>(e, c). (case last_access_seq m e of None \<Rightarrow> 0 | Some seq \<Rightarrow> seq, e))
       (filter (\<lambda>(e, c). \<not> IsBusy (client_objs m c)) (clients m))"

definition SelectLruIdleClientsLocked :: "nat \<Rightarrow> ClientManager \<Rightarrow> string list" where
  "SelectLruIdleClientsLocked evict_count m = map snd (take evict_count (sort (idle_clients m)))"

definition ReleaseChannelSlot :: "ClientManager \<Rightarrow> ClientManager" where
  "ReleaseChannelSlot m = (if creating_count m > 0 then m\<lparr>creating_count := creating_count m - 1\<rparr> else m)"

text \<open>\<open>transfer_use\<close> is the flag of the caller; the result is its new value.\<close>

definition ClaimTransferUseLocked :: "nat \<Rightarrow> bool \<Rightarrow> ClientManager \<Rightarrow> bool \<times> ClientManager" where
  "ClaimTransferUseLocked c transfer_use m =
     (if transfer_use \<or> max_channel m = None then (transfer_use, m) else (True, update_client c AcquireUse m))"

record ChannelAdmit =
  admit_client :: "nat option"
  already_connected :: bool
  admit_reserved :: bool
  pool_exhausted :: bool
  admit_victims :: "string list"

definition no_admit :: ChannelAdmit where
  "no_admit = \<lparr>admit_client = None, already_connected = False, admit_reserved = False, pool_exhausted = False, admit_victims = []\<rparr>"

text \<open>\<open>transfer_use\<close> is \<^const>\<open>None\<close> for the null pointer.\<close>

definition EvaluateChannelAdmit :: "string \<Rightarrow> bool option \<Rightarrow> ClientManager \<Rightarrow> ChannelAdmit \<times> bool option \<times> ClientManager" where
  "EvaluateChannelAdmit e transfer_use m =
     (case map_of (clients m) e of
        Some c \<Rightarrow>
          let (tu, m1) = (case transfer_use of None \<Rightarrow> (None, m)
                          | Some b \<Rightarrow> (case ClaimTransferUseLocked c b m of (b', m') \<Rightarrow> (Some b', m'))) in
          (no_admit\<lparr>admit_client := Some c, already_connected := True\<rparr>, tu, TouchClientLocked e m1)
      | None \<Rightarrow>
          (case max_channel m of
             None \<Rightarrow> (no_admit, transfer_use, m)
           | Some cap \<Rightarrow>
               let occupied = length (clients m) + creating_count m in
               if occupied < cap
               then (no_admit\<lparr>admit_reserved := True\<rparr>, transfer_use, m\<lparr>creating_count := Suc (creating_count m)\<rparr>)
               else
                 let evict_count = occupied - cap + 1; victims = SelectLruIdleClientsLocked evict_count m in
                 (no_admit\<lparr>admit_victims := victims, pool_exhausted := length victims < evict_count\<rparr>, transfer_use, m)))"

definition DestroyIdleClient :: "handler_answers \<Rightarrow> (nat \<Rightarrow> bool) \<Rightarrow> string \<Rightarrow> ClientManager \<Rightarrow> status \<times> bool \<times> ClientManager" where
  "DestroyIdleClient ha expired e m =
     (case map_of (clients m) e of
        None \<Rightarrow> (NOT_CONNECTED, False, m)
      | Some c \<Rightarrow>
          if IsBusy (client_objs m c) then (SUCCESS, False, m)
          else
            let m1 = m\<lparr>clients := clients_erase e (clients m), last_access_seq := (last_access_seq m)(e := None)\<rparr>;
                m2 = EraseReqIndexByClient expired c m1 in
            (fst (HixlClient_Finalize ha (client_objs m2 c)), True, update_client c (\<lambda>obj. snd (HixlClient_Finalize ha obj)) m2))"

fun DestroyIdleClients :: "handler_answers \<Rightarrow> (nat \<Rightarrow> bool) \<Rightarrow> string list \<Rightarrow> ClientManager \<Rightarrow> ClientManager" where
  "DestroyIdleClients ha expired [] m = m"
| "DestroyIdleClients ha expired (v # vs) m =
     (case DestroyIdleClient ha expired v m of (ret, removed, m1) \<Rightarrow> DestroyIdleClients ha expired vs m1)"

definition still_present :: "string list \<Rightarrow> ClientManager \<Rightarrow> nat" where
  "still_present victims m = length (filter (\<lambda>v. map_of (clients m) v \<noteq> None) victims)"

definition evict_status :: "string list \<Rightarrow> ClientManager \<Rightarrow> status" where
  "evict_status victims m = (if still_present victims m \<ge> length victims then RESOURCE_EXHAUSTED else SUCCESS)"

definition FinishEvict :: "handler_answers \<Rightarrow> (nat \<Rightarrow> bool) \<Rightarrow> string list \<Rightarrow> ClientManager \<Rightarrow> status \<times> ClientManager" where
  "FinishEvict ha expired victims m =
     (let m1 = DestroyIdleClients ha expired victims m in (evict_status victims m1, m1))"

text \<open>The loop without interference of other threads. No result means that the given number of rounds was not enough. The
  result has the status, the client, whether a place was reserved, and the flag of the caller.\<close>

fun ReserveChannelSlot :: "nat \<Rightarrow> handler_answers \<Rightarrow> (nat \<Rightarrow> bool) \<Rightarrow> string \<Rightarrow> bool option \<Rightarrow> ClientManager \<Rightarrow>
    (status \<times> nat option \<times> bool \<times> bool option \<times> ClientManager) option" where
  "ReserveChannelSlot 0 ha expired e tu m = None"
| "ReserveChannelSlot (Suc fuel) ha expired e tu m =
     (case EvaluateChannelAdmit e tu m of (admit, tu1, m1) \<Rightarrow>
        if already_connected admit then Some (ALREADY_CONNECTED, admit_client admit, False, tu1, m1)
        else if pool_exhausted admit then Some (RESOURCE_EXHAUSTED, None, False, tu1, m1)
        else if admit_reserved admit \<or> admit_victims admit = [] then Some (SUCCESS, None, admit_reserved admit, tu1, m1)
        else case FinishEvict ha expired (admit_victims admit) m1 of (s, m2) \<Rightarrow>
          if s \<noteq> SUCCESS then Some (s, None, False, tu1, m2)
          else ReserveChannelSlot fuel ha expired e tu1 m2)"

text \<open>What \<open>GetOrCreateClient\<close> does under the manager mutex after the new client \<open>c\<close> has connected.\<close>

definition publish_client :: "string \<Rightarrow> nat \<Rightarrow> bool \<Rightarrow> bool option \<Rightarrow> ClientManager \<Rightarrow> bool option \<times> ClientManager" where
  "publish_client e c slot_reserved transfer_use m =
     (let m1 = m\<lparr>clients := clients_emplace e c (clients m)\<rparr>;
          (tu, m2) = (case transfer_use of None \<Rightarrow> (None, m1)
                      | Some b \<Rightarrow> (case ClaimTransferUseLocked c b m1 of (b', m') \<Rightarrow> (Some b', m')));
          m3 = TouchClientLocked e m2 in
      (tu, if slot_reserved then ReleaseChannelSlot m3 else m3))"

text \<open>The creation of a client object: \<open>parse\<close> and \<open>init\<close> are the results of \<open>ParseListenInfo\<close> and \<open>HixlClient::Initialize\<close>.\<close>

definition new_client :: HixlClient where
  "new_client = \<lparr>hc_connected = False, hc_finalized = False, hc_handler = True, hc_reqs = {}, use_count = 0, hc_in_call = False\<rparr>"

definition CreateClient :: "status \<Rightarrow> status \<Rightarrow> ClientManager \<Rightarrow> status \<times> nat \<times> ClientManager" where
  "CreateClient parse init m =
     (if parse \<noteq> SUCCESS then (parse, 0, m)
      else if cm_finalized m then (FAILED, 0, m)
      else
        let c = next_client m; m1 = m\<lparr>client_objs := (client_objs m)(c := new_client\<lparr>hc_handler := init = SUCCESS\<rparr>), next_client := Suc c\<rparr> in
        (init, c, m1))"

text \<open>Creation, registration of the memory and connection of a client; on a failure the client is finalized.\<close>

definition connect_client :: "handler_answers \<Rightarrow> status \<Rightarrow> status \<Rightarrow> MemHandleInfo list \<Rightarrow> nat \<Rightarrow> ClientManager \<Rightarrow> status \<times> nat \<times> ClientManager" where
  "connect_client ha parse init infos timeout m =
     (case CreateClient parse init m of (ret, c, m1) \<Rightarrow>
        if ret \<noteq> SUCCESS then (ret, c, m1)
        else
          let r1 = fst (HixlClient_RegisterMem ha infos (client_objs m1 c));
              (r2, o2) = (if r1 \<noteq> SUCCESS then (r1, client_objs m1 c) else HixlClient_Connect ha timeout (client_objs m1 c)) in
          if r2 \<noteq> SUCCESS then (r2, c, update_client c (\<lambda>_. snd (HixlClient_Finalize ha o2)) m1)
          else (SUCCESS, c, update_client c (\<lambda>_. o2) m1))"

definition GetOrCreateClient :: "nat \<Rightarrow> handler_answers \<Rightarrow> (nat \<Rightarrow> bool) \<Rightarrow> status \<Rightarrow> status \<Rightarrow> string \<Rightarrow> MemHandleInfo list \<Rightarrow> nat \<Rightarrow> bool option \<Rightarrow> ClientManager \<Rightarrow>
    (status \<times> nat option \<times> bool option \<times> ClientManager) option" where
  "GetOrCreateClient fuel ha expired parse init e infos timeout tu m =
     (case ReserveChannelSlot fuel ha expired e tu m of
        None \<Rightarrow> None
      | Some (s, c, slot_reserved, tu1, m1) \<Rightarrow>
          if s \<noteq> SUCCESS then Some (s, c, tu1, m1)
          else case connect_client ha parse init infos timeout m1 of (r, c2, m2) \<Rightarrow>
            if r \<noteq> SUCCESS then Some (r, None, tu1, if slot_reserved then ReleaseChannelSlot m2 else m2)
            else case publish_client e c2 slot_reserved tu1 m2 of (tu2, m3) \<Rightarrow> Some (SUCCESS, Some c2, tu2, m3))"

definition GetClient :: "string \<Rightarrow> ClientManager \<Rightarrow> nat option \<times> ClientManager" where
  "GetClient e m = (case map_of (clients m) e of None \<Rightarrow> (None, m) | Some c \<Rightarrow> (Some c, TouchClientLocked e m))"

definition GetClientForUse :: "string \<Rightarrow> bool \<Rightarrow> ClientManager \<Rightarrow> nat option \<times> bool \<times> ClientManager" where
  "GetClientForUse e transfer_use m =
     (case map_of (clients m) e of
        None \<Rightarrow> (None, transfer_use, m)
      | Some c \<Rightarrow> (case ClaimTransferUseLocked c transfer_use m of (tu, m1) \<Rightarrow> (Some c, tu, TouchClientLocked e m1)))"

definition DestroyClient :: "handler_answers \<Rightarrow> (nat \<Rightarrow> bool) \<Rightarrow> string \<Rightarrow> ClientManager \<Rightarrow> status \<times> ClientManager" where
  "DestroyClient ha expired e m =
     (case map_of (clients m) e of
        None \<Rightarrow> (NOT_CONNECTED, m)
      | Some c \<Rightarrow>
          let m1 = m\<lparr>clients := clients_erase e (clients m), last_access_seq := (last_access_seq m)(e := None)\<rparr>;
              m2 = EraseReqIndexByClient expired c m1 in
          (fst (HixlClient_Finalize ha (client_objs m2 c)), update_client c (\<lambda>obj. snd (HixlClient_Finalize ha obj)) m2))"

definition IsEmpty :: "ClientManager \<Rightarrow> bool" where
  "IsEmpty m = (clients m = [])"

definition finalize_one :: "handler_answers \<Rightarrow> (nat \<Rightarrow> bool) \<Rightarrow> status \<times> ClientManager \<Rightarrow> string \<times> nat \<Rightarrow> status \<times> ClientManager" where
  "finalize_one ha expired = (\<lambda>(ret, m) (e, c).
     let m1 = EraseReqIndexByClient expired c m; client_ret = fst (HixlClient_Finalize ha (client_objs m1 c)) in
     (if client_ret \<noteq> SUCCESS \<and> ret = SUCCESS then client_ret else ret, update_client c (\<lambda>obj. snd (HixlClient_Finalize ha obj)) m1))"

definition ClientManager_Finalize :: "handler_answers \<Rightarrow> (nat \<Rightarrow> bool) \<Rightarrow> ClientManager \<Rightarrow> status \<times> ClientManager" where
  "ClientManager_Finalize ha expired m =
     (let cs = clients m; m1 = m\<lparr>cm_finalized := True, clients := [], last_access_seq := Map.empty\<rparr>;
          (ret, m2) = foldl (finalize_one ha expired) (SUCCESS, m1) cs in
      (ret, m2\<lparr>clients := [], ordered_reqs := [], req_to_client := Map.empty\<rparr>))"

definition ClientManager_Initialize :: "nat option \<Rightarrow> ClientManager \<Rightarrow> ClientManager" where
  "ClientManager_Initialize cap m = m\<lparr>max_channel := cap, creating_count := 0\<rparr>"

fun dereg_loop :: "(nat \<Rightarrow> handler_answers) \<Rightarrow> nat \<Rightarrow> ClientManager \<Rightarrow> (string \<times> nat) list \<Rightarrow> status" where
  "dereg_loop ha mem_handle m [] = SUCCESS"
| "dereg_loop ha mem_handle m ((e, c) # cs) =
     (let ret = HixlClient_DeregisterMem (ha c) mem_handle (client_objs m c) in
      if ret \<noteq> SUCCESS then ret else dereg_loop ha mem_handle m cs)"

definition ClientManager_DeregisterMem :: "(nat \<Rightarrow> handler_answers) \<Rightarrow> nat \<Rightarrow> ClientManager \<Rightarrow> status" where
  "ClientManager_DeregisterMem ha mem_handle m = dereg_loop ha mem_handle m (clients m)"


section \<open>Interleaved calls\<close>

text \<open>Where a thread is in \<open>GetOrCreateClient\<close> or a transfer. \<open>Using c\<close> is between the claim of a client and its release.\<close>

datatype thread =
    Resting
  | Admitting string "bool option"
  | Evicting string "bool option" "string list" "string list"
  | Creating string "bool option" bool
  | Publishing string "bool option" bool nat
  | Using nat

fun holds_slot :: "thread \<Rightarrow> bool" where
  "holds_slot (Creating e tu r) = r"
| "holds_slot (Publishing e tu r c) = r"
| "holds_slot _ = False"

text \<open>A configuration has the threads, the manager, and the clients that were taken down by \<open>DestroyClient\<close> or
  \<open>Finalize\<close>, that is, on request and not to make room.\<close>

record pool_config =
  threads :: "thread list"
  manager :: ClientManager
  disconnected :: "nat set"

definition after_claim :: "nat \<Rightarrow> bool option \<Rightarrow> thread" where
  "after_claim c tu = (if tu = Some True then Using c else Resting)"

text \<open>The steps of a thread. The mutex per remote engine is not modelled here: it only removes interleavings.\<close>

inductive thread_step :: "thread \<Rightarrow> ClientManager \<Rightarrow> thread \<Rightarrow> ClientManager \<Rightarrow> bool" where
  call: "tu \<in> {None, Some False} \<Longrightarrow> thread_step Resting m (Admitting e tu) m"
| use: "GetClientForUse e False m = (Some c, tu, m') \<Longrightarrow> thread_step Resting m (after_claim c (Some tu)) m'"
| admit_connected: "EvaluateChannelAdmit e tu m = (a, tu', m') \<Longrightarrow> already_connected a \<Longrightarrow> admit_client a = Some c \<Longrightarrow>
    thread_step (Admitting e tu) m (after_claim c tu') m'"
| admit_exhausted: "EvaluateChannelAdmit e tu m = (a, tu', m') \<Longrightarrow> \<not> already_connected a \<Longrightarrow> pool_exhausted a \<Longrightarrow>
    thread_step (Admitting e tu) m Resting m'"
| admit_create: "EvaluateChannelAdmit e tu m = (a, tu', m') \<Longrightarrow> \<not> already_connected a \<Longrightarrow> \<not> pool_exhausted a \<Longrightarrow>
    admit_reserved a \<or> admit_victims a = [] \<Longrightarrow> thread_step (Admitting e tu) m (Creating e tu' (admit_reserved a)) m'"
| admit_evict: "EvaluateChannelAdmit e tu m = (a, tu', m') \<Longrightarrow> \<not> already_connected a \<Longrightarrow> \<not> pool_exhausted a \<Longrightarrow>
    \<not> admit_reserved a \<Longrightarrow> admit_victims a \<noteq> [] \<Longrightarrow>
    thread_step (Admitting e tu) m (Evicting e tu' (admit_victims a) (admit_victims a)) m'"
| evict: "DestroyIdleClient ha expired v m = (s, removed, m') \<Longrightarrow> thread_step (Evicting e tu (v # vs) all) m (Evicting e tu vs all) m'"
| evict_failed: "evict_status all m \<noteq> SUCCESS \<Longrightarrow> thread_step (Evicting e tu [] all) m Resting m"
| evict_done: "evict_status all m = SUCCESS \<Longrightarrow> thread_step (Evicting e tu [] all) m (Admitting e tu) m"
| create_failed: "connect_client ha parse init infos timeout m = (s, c, m') \<Longrightarrow> s \<noteq> SUCCESS \<Longrightarrow>
    thread_step (Creating e tu r) m Resting (if r then ReleaseChannelSlot m' else m')"
| create: "connect_client ha parse init infos timeout m = (SUCCESS, c, m') \<Longrightarrow> thread_step (Creating e tu r) m (Publishing e tu r c) m'"
| publish: "publish_client e c r tu m = (tu', m') \<Longrightarrow> thread_step (Publishing e tu r c) m (after_claim c tu') m'"
| release: "thread_step (Using c) m Resting (update_client c ReleaseUse m)"

inductive pool_step :: "pool_config \<Rightarrow> pool_config \<Rightarrow> bool" where
  thread: "i < length (threads g) \<Longrightarrow> thread_step (threads g ! i) (manager g) t m \<Longrightarrow>
    pool_step g (g\<lparr>threads := (threads g)[i := t], manager := m\<rparr>)"
| disconnect: "map_of (clients (manager g)) e = Some c \<Longrightarrow> DestroyClient ha expired e (manager g) = (s, m) \<Longrightarrow>
    pool_step g (g\<lparr>manager := m, disconnected := insert c (disconnected g)\<rparr>)"
| finalize: "ClientManager_Finalize ha expired (manager g) = (s, m) \<Longrightarrow>
    pool_step g (g\<lparr>manager := m, disconnected := disconnected g \<union> snd ` set (clients (manager g))\<rparr>)"
| transfer: "pool_step g (g\<lparr>manager := update_client c (\<lambda>obj. obj\<lparr>hc_in_call := b, hc_reqs := rs\<rparr>) (manager g)\<rparr>)"
| index: "pool_step g (g\<lparr>manager := (manager g)\<lparr>ordered_reqs := rs, req_to_client := idx\<rparr>\<rparr>)"

definition new_manager :: "nat option \<Rightarrow> ClientManager" where
  "new_manager cap = \<lparr>clients = [], last_access_seq = Map.empty, access_seq = 0, max_channel = cap, creating_count = 0, cm_finalized = False,
     ordered_reqs = [], req_to_client = Map.empty, client_objs = (\<lambda>_. new_client), next_client = 0\<rparr>"

definition pool_start :: "nat option \<Rightarrow> nat \<Rightarrow> pool_config" where
  "pool_start cap n = \<lparr>threads = replicate n Resting, manager = new_manager cap, disconnected = {}\<rparr>"


subsection \<open>The invariant\<close>

fun pub_client :: "thread \<Rightarrow> nat option" where
  "pub_client (Publishing e tu r c) = Some c"
| "pub_client _ = None"

fun needs_slot :: "thread \<Rightarrow> bool" where
  "needs_slot (Creating e tu r) = True"
| "needs_slot (Publishing e tu r c) = True"
| "needs_slot _ = False"

fun flag :: "thread \<Rightarrow> bool option" where
  "flag (Admitting e tu) = tu"
| "flag (Evicting e tu vs all) = tu"
| "flag (Creating e tu r) = tu"
| "flag (Publishing e tu r c) = tu"
| "flag _ = None"

definition number :: "('a \<Rightarrow> bool) \<Rightarrow> 'a list \<Rightarrow> nat" where
  "number P ts = length (filter P ts)"

definition slots_ok :: "thread list \<Rightarrow> ClientManager \<Rightarrow> bool" where
  "slots_ok ts m \<longleftrightarrow> creating_count m = number holds_slot ts \<and>
     (\<forall>k. max_channel m = Some k \<longrightarrow> length (clients m) + number holds_slot ts \<le> k \<and> (\<forall>t \<in> set ts. needs_slot t \<longrightarrow> holds_slot t))"

definition clients_ok :: "ClientManager \<Rightarrow> bool" where
  "clients_ok m \<longleftrightarrow> distinct (map fst (clients m)) \<and> distinct (map snd (clients m)) \<and>
     (\<forall>c \<in> snd ` set (clients m). c < next_client m \<and> \<not> hc_finalized (client_objs m c))"

definition uses_ok :: "thread list \<Rightarrow> ClientManager \<Rightarrow> nat set \<Rightarrow> bool" where
  "uses_ok ts m D \<longleftrightarrow> (\<forall>c. use_count (client_objs m c) = number ((=) (Using c)) ts) \<and>
     (\<forall>c. Using c \<in> set ts \<longrightarrow> c < next_client m \<and> (hc_finalized (client_objs m c) \<longrightarrow> c \<in> D))"

definition pubs_ok :: "thread list \<Rightarrow> ClientManager \<Rightarrow> bool" where
  "pubs_ok ts m \<longleftrightarrow> (\<forall>c. number (\<lambda>t. pub_client t = Some c) ts \<le> 1) \<and>
     (\<forall>t \<in> set ts. \<forall>c. pub_client t = Some c \<longrightarrow> c < next_client m \<and> \<not> hc_finalized (client_objs m c) \<and> c \<notin> snd ` set (clients m))"

definition flags_ok :: "thread list \<Rightarrow> bool" where
  "flags_ok ts \<longleftrightarrow> length ts < 2 ^ 32 \<and> (\<forall>t \<in> set ts. flag t \<in> {None, Some False})"

definition channels_inv :: "thread list \<Rightarrow> ClientManager \<Rightarrow> nat set \<Rightarrow> bool" where
  "channels_inv ts m D \<longleftrightarrow> slots_ok ts m \<and> clients_ok m \<and> uses_ok ts m D \<and> pubs_ok ts m \<and> flags_ok ts"

lemmas channels_inv_defs = channels_inv_def slots_ok_def clients_ok_def uses_ok_def pubs_ok_def flags_ok_def

text \<open>The invariant reads only these fields.\<close>

definition same_core :: "ClientManager \<Rightarrow> ClientManager \<Rightarrow> bool" where
  "same_core m m' \<longleftrightarrow> clients m' = clients m \<and> creating_count m' = creating_count m \<and> max_channel m' = max_channel m \<and>
     client_objs m' = client_objs m \<and> next_client m' = next_client m"

lemma channels_inv_cong: "same_core m m' \<Longrightarrow> channels_inv ts m' D \<longleftrightarrow> channels_inv ts m D"
  by (simp add: same_core_def channels_inv_defs)

lemma same_core_Touch [simp]: "same_core m (TouchClientLocked e m)" and same_core_refl [simp]: "same_core m m"
  by (simp_all add: same_core_def TouchClientLocked_def Let_def)

lemma update_client_fields [simp]:
  "clients (update_client c f m) = clients m" "creating_count (update_client c f m) = creating_count m"
  "max_channel (update_client c f m) = max_channel m" "next_client (update_client c f m) = next_client m"
  "client_objs (update_client c f m) = (client_objs m)(c := f (client_objs m c))"
  by (simp_all add: update_client_def)

lemma AcquireUse_fields [simp]: "hc_finalized (AcquireUse c) = hc_finalized c" "use_count (AcquireUse c) = add32 (use_count c) 1"
  "hc_finalized (ReleaseUse c) = hc_finalized c" "use_count (ReleaseUse c) = sub32 (use_count c) 1"
  by (simp_all add: AcquireUse_def ReleaseUse_def)

lemma number_update:
  assumes "i < length ts"
  shows "number P (ts[i := t]) + (if P (ts ! i) then 1 else 0) = number P ts + (if P t then 1 else 0)"
  using assms unfolding number_def
proof (induction ts arbitrary: i)
  case (Cons x ts)
  then show ?case by (cases i) auto
qed simp

lemma number_same: "i < length ts \<Longrightarrow> P t = P (ts ! i) \<Longrightarrow> number P (ts[i := t]) = number P ts"
  using number_update [of i ts P t] by (simp split: if_splits)

lemma number_le: "number P ts \<le> length ts"
  by (simp add: number_def)

lemma number_0: "number P ts = 0 \<longleftrightarrow> (\<forall>t \<in> set ts. \<not> P t)"
  by (auto simp: number_def filter_empty_conv)

lemma in_updated: "x \<in> set (ts[i := t]) \<Longrightarrow> x = t \<or> x \<in> set ts"
  using set_update_subset_insert by fastforce

text \<open>The parts of the invariant when thread \<open>i\<close> changes to \<open>t\<close>.\<close>

lemma pubs_ok_update:
  assumes "pubs_ok ts m" "i < length ts" "pub_client t = None"
  shows "pubs_ok (ts[i := t]) m"
proof -
  have "number (\<lambda>t. pub_client t = Some c) (ts[i := t]) \<le> number (\<lambda>t. pub_client t = Some c) ts" for c
    using number_update [OF assms(2), of "\<lambda>t. pub_client t = Some c" t] assms(3) by simp
  then have "number (\<lambda>t. pub_client t = Some c) (ts[i := t]) \<le> 1" for c
    using assms(1) le_trans unfolding pubs_ok_def by blast
  moreover have "c < next_client m \<and> \<not> hc_finalized (client_objs m c) \<and> c \<notin> snd ` set (clients m)"
    if "x \<in> set (ts[i := t])" "pub_client x = Some c" for x c
    using in_updated [OF that(1)] that(2) assms(1,3) unfolding pubs_ok_def by auto
  ultimately show ?thesis unfolding pubs_ok_def by blast
qed

lemma flags_ok_update: "flags_ok ts \<Longrightarrow> flag t \<in> {None, Some False} \<Longrightarrow> flags_ok (ts[i := t])"
  unfolding flags_ok_def using in_updated by fastforce

lemma uses_ok_update:
  assumes "uses_ok ts m D" "i < length ts" "\<And>c. t = Using c \<longleftrightarrow> ts ! i = Using c"
  shows "uses_ok (ts[i := t]) m D"
proof -
  have "number ((=) (Using c)) (ts[i := t]) = number ((=) (Using c)) ts" for c
    using assms(2,3) by (intro number_same) (auto simp: eq_commute)
  moreover have "Using c \<in> set ts" if u: "Using c \<in> set (ts[i := t])" for c
    using in_updated [OF u] assms(2,3) by (metis nth_mem)
  ultimately show ?thesis using assms(1) unfolding uses_ok_def by simp
qed

lemma slots_ok_update:
  assumes "slots_ok ts m" "i < length ts" "holds_slot t = holds_slot (ts ! i)" "needs_slot t \<Longrightarrow> holds_slot t \<or> max_channel m = None"
  shows "slots_ok (ts[i := t]) m"
proof -
  have "number holds_slot (ts[i := t]) = number holds_slot ts" using assms by (intro number_same) auto
  moreover have "needs_slot x \<longrightarrow> holds_slot x" if "x \<in> set (ts[i := t])" "max_channel m = Some k" for x k
    using in_updated [OF that(1)] that(2) assms(1,4) unfolding slots_ok_def by auto
  ultimately show ?thesis using assms(1) unfolding slots_ok_def by auto
qed

text \<open>A step of one thread that concerns no place, no publication and no claim.\<close>

lemma quiet_step:
  assumes "channels_inv ts m D" "i < length ts" "holds_slot t = holds_slot (ts ! i)" "needs_slot t \<Longrightarrow> holds_slot t \<or> max_channel m = None"
    "pub_client t = None" "\<And>c. t = Using c \<longleftrightarrow> ts ! i = Using c" "flag t \<in> {None, Some False}"
  shows "channels_inv (ts[i := t]) m D"
  using assms(1) pubs_ok_update [of ts m i t] flags_ok_update [of ts t i] uses_ok_update [of ts m D i t] slots_ok_update [of ts m i t] assms(2-)
  unfolding channels_inv_def by simp

lemma claim_step:
  assumes inv: "channels_inv ts m D" and i: "i < length ts" "\<not> holds_slot (ts ! i)" "\<And>c. ts ! i \<noteq> Using c"
    and c: "c < next_client m" "\<not> hc_finalized (client_objs m c)"
  shows "channels_inv (ts[i := Using c]) (update_client c AcquireUse m) D"
proof -
  let ?ts = "ts[i := Using c]" and ?m = "update_client c AcquireUse m"
  have U: "uses_ok ts m D" "flags_ok ts" using inv by (simp_all add: channels_inv_def)
  have "slots_ok ?ts m" using inv i by (intro slots_ok_update) (simp_all add: channels_inv_def)
  then have "slots_ok ?ts ?m" by (simp add: slots_ok_def)
  moreover have "use_count (client_objs ?m d) = number ((=) (Using d)) ?ts" for d
  proof (cases "d = c")
    case True
    have n: "number ((=) (Using c)) ?ts = Suc (number ((=) (Using c)) ts)"
      using number_update [of i ts "(=) (Using c)" "Using c"] i(1) i(3) [of c] by (auto simp: eq_commute)
    have "number ((=) (Using c)) ?ts \<le> length ts" using number_le [of "(=) (Using c)" ?ts] by simp
    then have "Suc (use_count (client_objs m c)) < 2 ^ 32" using U n unfolding uses_ok_def flags_ok_def by simp
    then show ?thesis using True n U by (simp add: uses_ok_def add32_id)
  next
    case False
    then have "number ((=) (Using d)) ?ts = number ((=) (Using d)) ts" using i(1) i(3) [of d] by (intro number_same) (auto simp: eq_commute)
    with False show ?thesis using U by (simp add: uses_ok_def)
  qed
  moreover have "d < next_client ?m \<and> (hc_finalized (client_objs ?m d) \<longrightarrow> d \<in> D)" if "Using d \<in> set ?ts" for d
    using in_updated [OF that] U(1) c unfolding uses_ok_def by auto
  ultimately have "slots_ok ?ts ?m" "uses_ok ?ts ?m D" unfolding uses_ok_def by blast+
  moreover have "pubs_ok ?ts m" using inv i(1) by (intro pubs_ok_update) (simp_all add: channels_inv_def)
  then have "pubs_ok ?ts ?m" by (simp add: pubs_ok_def)
  moreover have "clients_ok ?m" using inv by (auto simp: channels_inv_def clients_ok_def)
  ultimately show ?thesis using inv flags_ok_update [of ts "Using c" i] unfolding channels_inv_def by simp
qed

lemma release_use_step:
  assumes inv: "channels_inv ts m D" and i: "i < length ts" "ts ! i = Using c"
  shows "channels_inv (ts[i := Resting]) (update_client c ReleaseUse m) D"
proof -
  let ?ts = "ts[i := Resting]" and ?m = "update_client c ReleaseUse m"
  have U: "uses_ok ts m D" "flags_ok ts" using inv by (simp_all add: channels_inv_def)
  have "slots_ok ?ts m" using inv i by (intro slots_ok_update) (simp_all add: channels_inv_def)
  then have "slots_ok ?ts ?m" by (simp add: slots_ok_def)
  moreover have "use_count (client_objs ?m d) = number ((=) (Using d)) ?ts" for d
  proof (cases "d = c")
    case True
    have n: "Suc (number ((=) (Using c)) ?ts) = number ((=) (Using c)) ts"
      using number_update [of i ts "(=) (Using c)" Resting] i by simp
    have "number ((=) (Using c)) ts < 2 ^ 32" using number_le [of "(=) (Using c)" ts] U(2) unfolding flags_ok_def by linarith
    moreover have "use_count (client_objs m c) = Suc (number ((=) (Using c)) ?ts)" using U(1) n unfolding uses_ok_def by simp
    ultimately show ?thesis using True n by (simp add: sub32_id)
  next
    case False
    then have "number ((=) (Using d)) ?ts = number ((=) (Using d)) ts" using i by (intro number_same) auto
    with False show ?thesis using U by (simp add: uses_ok_def)
  qed
  moreover have "d < next_client ?m \<and> (hc_finalized (client_objs ?m d) \<longrightarrow> d \<in> D)" if "Using d \<in> set ?ts" for d
    using in_updated [OF that] U(1) unfolding uses_ok_def by auto
  ultimately have "slots_ok ?ts ?m" "uses_ok ?ts ?m D" unfolding uses_ok_def by blast+
  moreover have "pubs_ok ?ts m" using inv i(1) by (intro pubs_ok_update) (simp_all add: channels_inv_def)
  then have "pubs_ok ?ts ?m" by (simp add: pubs_ok_def)
  moreover have "clients_ok ?m" using inv by (auto simp: channels_inv_def clients_ok_def)
  ultimately show ?thesis using inv flags_ok_update [of ts Resting i] unfolding channels_inv_def by simp
qed

lemma reserve_step:
  assumes "channels_inv ts m D" "i < length ts" "ts ! i = Admitting e tu" "max_channel m = Some k" "length (clients m) + creating_count m < k"
  shows "channels_inv (ts[i := Creating e tu True]) (m\<lparr>creating_count := Suc (creating_count m)\<rparr>) D"
proof -
  let ?ts = "ts[i := Creating e tu True]" and ?m = "m\<lparr>creating_count := Suc (creating_count m)\<rparr>"
  have fl: "tu \<in> {None, Some False}" using assms(1-3) unfolding channels_inv_def flags_ok_def by (metis flag.simps(1) nth_mem)
  have "number holds_slot ?ts = Suc (number holds_slot ts)" using number_update [of i ts holds_slot "Creating e tu True"] assms(2,3) by simp
  moreover have "needs_slot x \<longrightarrow> holds_slot x" if "x \<in> set ?ts" for x
    using in_updated [OF that] assms(1,4) unfolding channels_inv_def slots_ok_def by auto
  ultimately have "slots_ok ?ts ?m" using assms unfolding channels_inv_def slots_ok_def by simp
  moreover have "uses_ok ?ts m D" "pubs_ok ?ts m" "flags_ok ?ts"
    using assms(1-3) fl by (auto simp: channels_inv_def intro!: uses_ok_update pubs_ok_update flags_ok_update)
  ultimately show ?thesis using assms(1) unfolding channels_inv_def by (simp add: uses_ok_def pubs_ok_def clients_ok_def)
qed

lemma free_slot_step:
  assumes "channels_inv ts m D" "i < length ts" "ts ! i = Creating e tu r"
  shows "channels_inv (ts[i := Resting]) (if r then ReleaseChannelSlot m else m) D"
proof (cases r)
  case True
  let ?ts = "ts[i := Resting]"
  have n: "Suc (number holds_slot ?ts) = number holds_slot ts" using number_update [of i ts holds_slot Resting] assms(2,3) True by simp
  then have m: "ReleaseChannelSlot m = m\<lparr>creating_count := number holds_slot ?ts\<rparr>"
    using assms(1) unfolding channels_inv_def slots_ok_def ReleaseChannelSlot_def by (metis diff_Suc_1 zero_less_Suc)
  have "needs_slot x \<longrightarrow> holds_slot x" if "x \<in> set ?ts" "max_channel m = Some k" for x k
    using in_updated [OF that(1)] that(2) assms(1) unfolding channels_inv_def slots_ok_def by auto
  then have "slots_ok ?ts (ReleaseChannelSlot m)" using assms(1) n unfolding channels_inv_def slots_ok_def m by fastforce
  moreover have "uses_ok ?ts m D" "pubs_ok ?ts m" "flags_ok ?ts"
    using assms by (auto simp: channels_inv_def intro!: uses_ok_update pubs_ok_update flags_ok_update)
  ultimately show ?thesis using assms(1) True unfolding channels_inv_def by (simp add: uses_ok_def pubs_ok_def clients_ok_def m)
next
  case False
  then show ?thesis using assms by (auto intro!: quiet_step)
qed

text \<open>A new object in the heap, and its owner.\<close>

lemma alloc_step:
  assumes "channels_inv ts m D" "use_count x = 0"
  shows "channels_inv ts (m\<lparr>client_objs := (client_objs m)(next_client m := x), next_client := Suc (next_client m)\<rparr>) D"
proof -
  let ?m = "m\<lparr>client_objs := (client_objs m)(next_client m := x), next_client := Suc (next_client m)\<rparr>"
  have U: "uses_ok ts m D" using assms(1) by (simp add: channels_inv_def)
  have old: "Using c \<in> set ts \<Longrightarrow> c < next_client m" for c using U unfolding uses_ok_def by blast
  then have "number ((=) (Using (next_client m))) ts = 0" unfolding number_0 by fastforce
  then have "uses_ok ts ?m D" using U assms(2) old unfolding uses_ok_def by (auto simp: less_SucI)
  moreover have "pubs_ok ts ?m" using assms(1) unfolding channels_inv_def pubs_ok_def by (auto simp: less_SucI)
  moreover have "clients_ok ?m" using assms(1) unfolding channels_inv_def clients_ok_def by (auto simp: less_SucI)
  ultimately show ?thesis using assms(1) unfolding channels_inv_def by (simp add: slots_ok_def)
qed

lemma create_step:
  assumes "channels_inv ts m D" "i < length ts" "ts ! i = Creating e tu r" "use_count x = 0" "\<not> hc_finalized x"
  shows "channels_inv (ts[i := Publishing e tu r (next_client m)])
    (m\<lparr>client_objs := (client_objs m)(next_client m := x), next_client := Suc (next_client m)\<rparr>) D"
proof -
  let ?c = "next_client m"
  let ?m = "m\<lparr>client_objs := (client_objs m)(?c := x), next_client := Suc ?c\<rparr>" and ?t = "Publishing e tu r ?c"
  have inv: "channels_inv ts ?m D" using alloc_step [OF assms(1,4)] .
  have r: "r \<or> max_channel m = None" using assms(1-3) unfolding channels_inv_def slots_ok_def
    by (metis holds_slot.simps(1) needs_slot.simps(1) not_None_eq nth_mem)
  have fl: "tu \<in> {None, Some False}" using assms(1-3) unfolding channels_inv_def flags_ok_def by (metis flag.simps(3) nth_mem)
  have P: "pubs_ok ts m" using assms(1) by (simp add: channels_inv_def)
  have old: "pub_client t = Some c \<Longrightarrow> t \<in> set ts \<Longrightarrow> c < ?c" for t c using P unfolding pubs_ok_def by blast
  then have "number (\<lambda>t. pub_client t = Some ?c) ts = 0" unfolding number_0 by fastforce
  then have "number (\<lambda>t. pub_client t = Some c) (ts[i := ?t]) \<le> 1" for c
    using number_update [OF assms(2), of "\<lambda>t. pub_client t = Some c" ?t] P assms(3) unfolding pubs_ok_def
    by (cases "c = ?c") (auto simp: less_Suc_eq_le)
  moreover have "c < next_client ?m \<and> \<not> hc_finalized (client_objs ?m c) \<and> c \<notin> snd ` set (clients ?m)"
    if "t \<in> set (ts[i := ?t])" "pub_client t = Some c" for t c
    using in_updated [OF that(1)]
  proof
    assume "t = ?t"
    moreover have "?c \<notin> snd ` set (clients m)" using assms(1) unfolding channels_inv_def clients_ok_def by blast
    ultimately show ?thesis using that(2) assms(5) by simp
  next
    assume "t \<in> set ts"
    then show ?thesis using that(2) inv unfolding channels_inv_def pubs_ok_def by blast
  qed
  ultimately have "pubs_ok (ts[i := ?t]) ?m" unfolding pubs_ok_def by blast
  moreover have "slots_ok (ts[i := ?t]) ?m" "uses_ok (ts[i := ?t]) ?m D" "flags_ok (ts[i := ?t])"
    using inv assms(2,3) r fl unfolding channels_inv_def by (auto intro!: slots_ok_update uses_ok_update flags_ok_update)
  ultimately show ?thesis using inv unfolding channels_inv_def by blast
qed

lemma clients_emplace_set: "set (clients_emplace e c m) = (if e \<in> fst ` set m then set m else insert (e, c) (set m))"
  by (simp add: clients_emplace_def set_insort_key)

lemma length_clients_emplace: "length (clients_emplace e c m) \<le> Suc (length m)"
  by (simp add: clients_emplace_def)

lemma map_insort_mset: "mset (map f (insort_key g x xs)) = add_mset (f x) (mset (map f xs))"
  by (induction xs) auto

lemma distinct_map_insort: "distinct (map f (insort_key g x xs)) \<longleftrightarrow> f x \<notin> f ` set xs \<and> distinct (map f xs)"
proof -
  have "mset (map f (insort_key g x xs)) = mset (map f (x # xs))" by (simp add: map_insort_mset)
  then have "distinct (map f (insort_key g x xs)) \<longleftrightarrow> distinct (map f (x # xs))" by (rule mset_eq_imp_distinct_iff)
  then show ?thesis by simp
qed

lemma clients_emplace_distinct:
  assumes "distinct (map fst m)" "distinct (map snd m)" "c \<notin> snd ` set m"
  shows "distinct (map fst (clients_emplace e c m))" "distinct (map snd (clients_emplace e c m))"
  using assms unfolding clients_emplace_def by (auto simp: distinct_map_insort)

text \<open>A connected client enters the pool and its place becomes the place of the client.\<close>

lemma emplace_step:
  assumes inv: "channels_inv ts m D" and i: "i < length ts" "ts ! i = Publishing e tu r c"
  shows "channels_inv (ts[i := Resting])
    (m\<lparr>clients := clients_emplace e c (clients m), creating_count := number holds_slot (ts[i := Resting])\<rparr>) D"
proof -
  let ?ts = "ts[i := Resting]"
  let ?m = "m\<lparr>clients := clients_emplace e c (clients m), creating_count := number holds_slot ?ts\<rparr>"
  have P: "pubs_ok ts m" and C: "clients_ok m" and S: "slots_ok ts m" using inv by (simp_all add: channels_inv_def)
  have c: "c < next_client m" "\<not> hc_finalized (client_objs m c)" "c \<notin> snd ` set (clients m)"
    using P i unfolding pubs_ok_def by (metis nth_mem pub_client.simps(1))+
  have C': "clients_ok ?m"
    using C c clients_emplace_distinct [of "clients m" c e] unfolding clients_ok_def by (auto simp: clients_emplace_set split: if_splits)
  have "number (\<lambda>t. pub_client t = Some c) ?ts = 0"
  proof -
    have "number (\<lambda>t. pub_client t = Some c) ts \<le> 1" using P unfolding pubs_ok_def by blast
    then show ?thesis using number_update [OF i(1), of "\<lambda>t. pub_client t = Some c" Resting] i(2) by simp
  qed
  then have no: "t \<in> set ?ts \<Longrightarrow> pub_client t \<noteq> Some c" for t unfolding number_0 by blast
  have P1: "pubs_ok ?ts m" using P i by (intro pubs_ok_update) simp_all
  have "d \<notin> snd ` set (clients_emplace e c (clients m))" if "t \<in> set ?ts" "pub_client t = Some d" for t d
    using that no [OF that(1)] P1 unfolding pubs_ok_def by (auto simp: clients_emplace_set split: if_splits)
  then have P': "pubs_ok ?ts ?m" using P1 unfolding pubs_ok_def by auto
  have n: "number holds_slot ?ts + (if r then 1 else 0) = number holds_slot ts" using number_update [OF i(1), of holds_slot Resting] i(2) by simp
  have S': "slots_ok ?ts ?m" unfolding slots_ok_def
  proof (intro conjI allI impI)
    fix k assume k: "max_channel ?m = Some k"
    then have "max_channel m = Some k" by simp
    then have "r" using S i unfolding slots_ok_def by (metis holds_slot.simps(2) needs_slot.simps(2) nth_mem)
    then show "length (clients ?m) + number holds_slot ?ts \<le> k"
      using n S k length_clients_emplace [of e c "clients m"] unfolding slots_ok_def by fastforce
    show "\<forall>t \<in> set ?ts. needs_slot t \<longrightarrow> holds_slot t" using S k in_updated unfolding slots_ok_def by fastforce
  qed simp
  have "uses_ok ?ts m D" "flags_ok ?ts" using inv i by (auto simp: channels_inv_def intro!: uses_ok_update flags_ok_update)
  then show ?thesis using C' P' S' unfolding channels_inv_def by (simp add: uses_ok_def)
qed

lemma map_of_clients: "map_of (clients m) e = Some c \<Longrightarrow> c \<in> snd ` set (clients m)"
  by (metis image_eqI map_of_SomeD snd_conv)

lemma clients_erase_snd:
  assumes "distinct (map snd m)" "map_of m e = Some c"
  shows "c \<notin> snd ` set (clients_erase e m)"
proof
  assume "c \<in> snd ` set (clients_erase e m)"
  then obtain e' where "(e', c) \<in> set m" "e' \<noteq> e" by (auto simp: clients_erase_def)
  moreover have "(e, c) \<in> set m" using assms(2) by (rule map_of_SomeD)
  ultimately show False using assms(1) by (metis distinct_map inj_onD prod.inject snd_conv)
qed

text \<open>Clients leave the pool and are finalized; a claimed one only on request.\<close>

definition finalized_objs :: "(nat \<Rightarrow> handler_answers) \<Rightarrow> nat set \<Rightarrow> (nat \<Rightarrow> HixlClient) \<Rightarrow> nat \<Rightarrow> HixlClient" where
  "finalized_objs ha X objs = (\<lambda>c. if c \<in> X then snd (HixlClient_Finalize (ha c) (objs c)) else objs c)"

lemma remove_step:
  assumes inv: "channels_inv ts m D" and X: "X \<subseteq> snd ` set (clients m)"
    and cs: "set cs \<subseteq> set (clients m)" "length cs \<le> length (clients m)" "distinct (map fst cs)" "distinct (map snd cs)" "X \<inter> snd ` set cs = {}"
    and D: "D \<subseteq> D'" "\<And>c. c \<in> X \<Longrightarrow> c \<notin> D' \<Longrightarrow> use_count (client_objs m c) = 0"
    and m': "clients m' = cs" "creating_count m' = creating_count m" "max_channel m' = max_channel m"
      "client_objs m' = finalized_objs ha X (client_objs m)" "next_client m' = next_client m"
  shows "channels_inv ts m' D'"
proof -
  have U: "uses_ok ts m D" and P: "pubs_ok ts m" and C: "clients_ok m" and S: "slots_ok ts m" using inv by (simp_all add: channels_inv_def)
  have "slots_ok ts m'" using S cs(2) unfolding slots_ok_def by (auto simp: m')
  moreover have "clients_ok m'" using C cs unfolding clients_ok_def by (auto simp: m' finalized_objs_def)
  moreover have "uses_ok ts m' D'" unfolding uses_ok_def
  proof (intro conjI allI impI)
    fix c
    show "use_count (client_objs m' c) = number ((=) (Using c)) ts" using U unfolding uses_ok_def by (simp add: m' finalized_objs_def)
    assume u: "Using c \<in> set ts"
    then show "c < next_client m'" using U unfolding uses_ok_def by (simp add: m')
    have "number ((=) (Using c)) ts \<noteq> 0" using u unfolding number_0 by blast
    then have "use_count (client_objs m c) \<noteq> 0" using U unfolding uses_ok_def by simp
    moreover assume "hc_finalized (client_objs m' c)"
    ultimately show "c \<in> D'" using U D(1) D(2) [of c] u unfolding uses_ok_def by (auto simp: m' finalized_objs_def split: if_splits)
  qed
  moreover have "c < next_client m' \<and> \<not> hc_finalized (client_objs m' c) \<and> c \<notin> snd ` set (clients m')"
    if "t \<in> set ts" "pub_client t = Some c" for t c
  proof -
    have old: "c < next_client m" "\<not> hc_finalized (client_objs m c)" "c \<notin> snd ` set (clients m)" using P that unfolding pubs_ok_def by blast+
    then have "c \<notin> X" "c \<notin> snd ` set cs" using X image_mono [OF cs(1), of snd] by blast+
    with old show ?thesis by (simp add: m' finalized_objs_def)
  qed
  then have "pubs_ok ts m'" using P unfolding pubs_ok_def by blast
  ultimately show ?thesis using inv unfolding channels_inv_def by blast
qed

lemma index_fields [simp]:
  "clients (EraseReqIndexByClient ex c m) = clients m" "creating_count (EraseReqIndexByClient ex c m) = creating_count m"
  "max_channel (EraseReqIndexByClient ex c m) = max_channel m" "client_objs (EraseReqIndexByClient ex c m) = client_objs m"
  "next_client (EraseReqIndexByClient ex c m) = next_client m"
  by (simp_all add: EraseReqIndexByClient_def Let_def)

text \<open>The clients of the pool without the entry of \<open>e\<close>, as needed for \<open>remove_step\<close>.\<close>

lemma clients_erase_props:
  assumes "clients_ok m" "map_of (clients m) e = Some c"
  shows "set (clients_erase e (clients m)) \<subseteq> set (clients m)" "length (clients_erase e (clients m)) \<le> length (clients m)"
    "distinct (map fst (clients_erase e (clients m)))" "distinct (map snd (clients_erase e (clients m)))"
    "{c} \<inter> snd ` set (clients_erase e (clients m)) = {}" "{c} \<subseteq> snd ` set (clients m)"
  using assms clients_erase_snd [of "clients m" e c] map_of_clients [OF assms(2)]
  by (auto simp: clients_ok_def clients_erase_def distinct_map_filter)

lemma evict_step:
  assumes "channels_inv ts m D" "DestroyIdleClient ha ex v m = (s, removed, m')"
  shows "channels_inv ts m' D"
proof (cases "\<exists>c. map_of (clients m) v = Some c \<and> \<not> IsBusy (client_objs m c)")
  case True
  then obtain c where c: "map_of (clients m) v = Some c" "\<not> IsBusy (client_objs m c)" by blast
  have ok: "clients_ok m" using assms(1) by (simp add: channels_inv_def)
  note E = clients_erase_props [OF ok c(1)]
  have z: "use_count (client_objs m c) = 0" using c(2) by (simp add: IsBusy_def)
  have e: "clients m' = clients_erase v (clients m)" "creating_count m' = creating_count m" "max_channel m' = max_channel m"
    "client_objs m' = finalized_objs (\<lambda>_. ha) {c} (client_objs m)" "next_client m' = next_client m"
    using assms(2) c by (auto simp: DestroyIdleClient_def Let_def finalized_objs_def fun_eq_iff)
  show ?thesis by (rule remove_step [OF assms(1) E(6) E(1-5) subset_refl _ e]) (use z in simp)
next
  case False
  then show ?thesis using assms by (auto simp: DestroyIdleClient_def split: option.splits)
qed

lemma disconnect_step:
  assumes "channels_inv ts m D" "map_of (clients m) e = Some c" "DestroyClient ha ex e m = (s, m')"
  shows "channels_inv ts m' (insert c D)"
proof -
  have ok: "clients_ok m" using assms(1) by (simp add: channels_inv_def)
  note E = clients_erase_props [OF ok assms(2)]
  have e: "clients m' = clients_erase e (clients m)" "creating_count m' = creating_count m" "max_channel m' = max_channel m"
    "client_objs m' = finalized_objs (\<lambda>_. ha) {c} (client_objs m)" "next_client m' = next_client m"
    using assms(2,3) by (auto simp: DestroyClient_def Let_def finalized_objs_def fun_eq_iff)
  show ?thesis by (rule remove_step [OF assms(1) E(6) E(1-5) subset_insertI _ e]) simp
qed

lemma finalize_one_objs:
  assumes "finalize_one ha ex (r, m) (e, c) = (r', m')"
  shows "clients m' = clients m" "creating_count m' = creating_count m" "max_channel m' = max_channel m"
    "client_objs m' = finalized_objs (\<lambda>_. ha) {c} (client_objs m)" "next_client m' = next_client m"
  using assms by (auto simp: finalize_one_def Let_def finalized_objs_def fun_eq_iff)

lemma foldl_finalize:
  assumes "distinct (map snd cs)" "foldl (finalize_one ha ex) (r, m) cs = (r', m')"
  shows "clients m' = clients m \<and> creating_count m' = creating_count m \<and> max_channel m' = max_channel m \<and>
    client_objs m' = finalized_objs (\<lambda>_. ha) (snd ` set cs) (client_objs m) \<and> next_client m' = next_client m"
  using assms
proof (induction cs arbitrary: r m)
  case (Cons x cs)
  obtain e c where x: "x = (e, c)" by (cases x)
  obtain r1 m1 where f: "finalize_one ha ex (r, m) (e, c) = (r1, m1)" by (metis surj_pair)
  note F = finalize_one_objs [OF f]
  have IH: "clients m' = clients m1 \<and> creating_count m' = creating_count m1 \<and> max_channel m' = max_channel m1 \<and>
      client_objs m' = finalized_objs (\<lambda>_. ha) (snd ` set cs) (client_objs m1) \<and> next_client m' = next_client m1"
    using Cons.prems f x by (intro Cons.IH) auto
  have "c \<notin> snd ` set cs" using Cons.prems(1) x by auto
  then have "finalized_objs (\<lambda>_. ha) (snd ` set cs) (finalized_objs (\<lambda>_. ha) {c} (client_objs m)) =
      finalized_objs (\<lambda>_. ha) (snd ` set (x # cs)) (client_objs m)"
    using x by (auto simp: finalized_objs_def fun_eq_iff)
  with IH F show ?case by simp
qed (simp add: finalized_objs_def)

lemma finalize_step:
  assumes "channels_inv ts m D" "ClientManager_Finalize ha ex m = (s, m')"
  shows "channels_inv ts m' (D \<union> snd ` set (clients m))"
proof -
  let ?m1 = "m\<lparr>cm_finalized := True, clients := [], last_access_seq := Map.empty\<rparr>"
  obtain r m2 where f: "foldl (finalize_one ha ex) (SUCCESS, ?m1) (clients m) = (r, m2)" by (metis surj_pair)
  have d: "distinct (map snd (clients m))" using assms(1) by (simp add: channels_inv_def clients_ok_def)
  note F = foldl_finalize [OF d f]
  have e: "clients m' = []" "creating_count m' = creating_count m" "max_channel m' = max_channel m"
    "client_objs m' = finalized_objs (\<lambda>_. ha) (snd ` set (clients m)) (client_objs m)" "next_client m' = next_client m"
    using assms(2) f F by (auto simp: ClientManager_Finalize_def Let_def)
  show ?thesis by (rule remove_step [OF assms(1) subset_refl _ _ _ _ _ _ _ e]) auto
qed

lemma Claim_cases:
  "ClaimTransferUseLocked c False m = (if max_channel m = None then (False, m) else (True, update_client c AcquireUse m))"
  by (simp add: ClaimTransferUseLocked_def)

lemma touch_cong: "channels_inv ts (TouchClientLocked e m) D \<longleftrightarrow> channels_inv ts m D"
  by (rule channels_inv_cong) simp

text \<open>A thread obtains a client that is in the pool or was just published.\<close>

lemma obtain_step:
  assumes inv: "channels_inv ts m D" and i: "i < length ts" "\<not> holds_slot (ts ! i)" "\<And>c. ts ! i \<noteq> Using c"
    and c: "c < next_client m" "\<not> hc_finalized (client_objs m c)" and tu: "tu \<in> {None, Some False}"
    and m': "(tu', m') = (case tu of None \<Rightarrow> (None, m) | Some b \<Rightarrow> (case ClaimTransferUseLocked c b m of (b', m') \<Rightarrow> (Some b', m')))"
  shows "channels_inv (ts[i := after_claim c tu']) (TouchClientLocked e m') D"
proof (cases "tu = Some False \<and> max_channel m \<noteq> None")
  case True
  then have "tu' = Some True" "m' = update_client c AcquireUse m" using m' by (auto simp: Claim_cases)
  then show ?thesis using claim_step [OF inv i c] by (simp add: after_claim_def touch_cong)
next
  case False
  then have "tu' \<noteq> Some True" "m' = m" using m' tu by (auto simp: Claim_cases)
  then show ?thesis using i by (auto simp: after_claim_def touch_cong intro!: quiet_step [OF inv])
qed

lemma admit_cases:
  assumes "EvaluateChannelAdmit e tu m = (a, tu', m')"
  obtains (connected) c mc where "map_of (clients m) e = Some c" "a = no_admit\<lparr>admit_client := Some c, already_connected := True\<rparr>"
      "m' = TouchClientLocked e mc"
      "(tu', mc) = (case tu of None \<Rightarrow> (None, m) | Some b \<Rightarrow> (case ClaimTransferUseLocked c b m of (b', m') \<Rightarrow> (Some b', m')))"
  | (unlimited) "max_channel m = None" "a = no_admit" "tu' = tu" "m' = m"
  | (reserved) k where "max_channel m = Some k" "length (clients m) + creating_count m < k" "a = no_admit\<lparr>admit_reserved := True\<rparr>" "tu' = tu"
      "m' = m\<lparr>creating_count := Suc (creating_count m)\<rparr>"
  | (full) k where "max_channel m = Some k" "k \<le> length (clients m) + creating_count m" "\<not> already_connected a" "\<not> admit_reserved a"
      "admit_victims a = SelectLruIdleClientsLocked (length (clients m) + creating_count m - k + 1) m"
      "pool_exhausted a \<longleftrightarrow> length (admit_victims a) < length (clients m) + creating_count m - k + 1" "tu' = tu" "m' = m" "map_of (clients m) e = None"
proof (cases "map_of (clients m) e")
  case (Some c)
  obtain t mc where t: "(t, mc) = (case tu of None \<Rightarrow> (None, m) | Some b \<Rightarrow> (case ClaimTransferUseLocked c b m of (b', m') \<Rightarrow> (Some b', m')))"
    by (metis surj_pair)
  then have "a = no_admit\<lparr>admit_client := Some c, already_connected := True\<rparr>" "t = tu'" "m' = TouchClientLocked e mc"
    using assms Some by (simp_all add: EvaluateChannelAdmit_def split: prod.splits)
  then show thesis using connected Some t by blast
next
  case None
  show thesis
  proof (cases "max_channel m")
    case None
    then have "a = no_admit" "tu' = tu" "m' = m" using assms \<open>map_of (clients m) e = None\<close> by (simp_all add: EvaluateChannelAdmit_def)
    with None show thesis by (rule unlimited)
  next
    case (Some k)
    show thesis
    proof (cases "length (clients m) + creating_count m < k")
      case True
      then have "a = no_admit\<lparr>admit_reserved := True\<rparr>" "tu' = tu" "m' = m\<lparr>creating_count := Suc (creating_count m)\<rparr>"
        using assms \<open>map_of (clients m) e = None\<close> Some by (simp_all add: EvaluateChannelAdmit_def)
      with Some True show thesis by (rule reserved)
    next
      case False
      then have "a = no_admit\<lparr>admit_victims := SelectLruIdleClientsLocked (length (clients m) + creating_count m - k + 1) m,
          pool_exhausted := length (SelectLruIdleClientsLocked (length (clients m) + creating_count m - k + 1) m) < length (clients m) + creating_count m - k + 1\<rparr>"
        "tu' = tu" "m' = m"
        using assms \<open>map_of (clients m) e = None\<close> Some by (auto simp: EvaluateChannelAdmit_def Let_def)
      then show thesis using False Some \<open>map_of (clients m) e = None\<close> by (intro full [of k]) (simp_all add: no_admit_def)
    qed
  qed
qed

lemma connect_cases:
  assumes "connect_client ha parse init infos timeout m = (s, c, m')"
  shows "(s \<noteq> SUCCESS \<and> m' = m) \<or> (\<exists>x. use_count x = 0 \<and> (s = SUCCESS \<longrightarrow> c = next_client m \<and> \<not> hc_finalized x) \<and>
    m' = m\<lparr>client_objs := (client_objs m)(next_client m := x), next_client := Suc (next_client m)\<rparr>)"
proof (cases "parse \<noteq> SUCCESS \<or> cm_finalized m")
  case True
  then have "\<exists>s. s \<noteq> SUCCESS \<and> CreateClient parse init m = (s, 0, m)" by (auto simp: CreateClient_def)
  then show ?thesis using assms by (auto simp: connect_client_def)
next
  case False
  let ?new = "new_client\<lparr>hc_handler := init = SUCCESS\<rparr>"
  have fresh: "use_count ?new = 0" "\<not> hc_finalized ?new" by (simp_all add: new_client_def)
  obtain r2 x where x: "(r2, x) = (let r1 = fst (HixlClient_RegisterMem ha infos ?new) in
      if r1 \<noteq> SUCCESS then (r1, ?new) else HixlClient_Connect ha timeout ?new)" by (metis surj_pair)
  then have ux: "use_count x = 0" "\<not> hc_finalized x" using fresh by (auto simp: Let_def HixlClient_Connect_def split: if_splits)
  have C: "CreateClient parse init m =
      (init, next_client m, m\<lparr>client_objs := (client_objs m)(next_client m := ?new), next_client := Suc (next_client m)\<rparr>)"
    using False by (simp add: CreateClient_def Let_def)
  consider "init \<noteq> SUCCESS" | "init = SUCCESS" "r2 \<noteq> SUCCESS" | "init = SUCCESS" "r2 = SUCCESS" by blast
  then show ?thesis
  proof cases
    case 1
    then have "m' = m\<lparr>client_objs := (client_objs m)(next_client m := ?new), next_client := Suc (next_client m)\<rparr>" "s = init"
      using assms by (auto simp: connect_client_def C)
    then show ?thesis using 1 fresh by blast
  next
    case 2
    then have "m' = m\<lparr>client_objs := (client_objs m)(next_client m := snd (HixlClient_Finalize ha x)), next_client := Suc (next_client m)\<rparr>"
      "s = r2" using assms x unfolding connect_client_def C by (auto simp: Let_def update_client_def split: prod.splits if_splits)
    moreover have "use_count (snd (HixlClient_Finalize ha x)) = 0" using ux by simp
    ultimately show ?thesis using 2 by blast
  next
    case 3
    then have "m' = m\<lparr>client_objs := (client_objs m)(next_client m := x), next_client := Suc (next_client m)\<rparr>" "s = SUCCESS" "c = next_client m"
      using assms x unfolding connect_client_def C by (auto simp: Let_def update_client_def split: prod.splits if_splits)
    then show ?thesis using ux by blast
  qed
qed

lemma ReleaseChannelSlot_after:
  "creating_count m = number holds_slot ts \<Longrightarrow> i < length ts \<Longrightarrow> holds_slot (ts ! i) \<Longrightarrow> \<not> holds_slot t \<Longrightarrow>
    ReleaseChannelSlot m = m\<lparr>creating_count := number holds_slot (ts[i := t])\<rparr>"
  using number_update [of i ts holds_slot t] by (simp add: ReleaseChannelSlot_def)

text \<open>Publication: the client enters the pool, then the thread may claim it.\<close>

lemma publish_step:
  assumes inv: "channels_inv ts m D" and i: "i < length ts" "ts ! i = Publishing e tu r c" and p: "publish_client e c r tu m = (tu', m')"
  shows "channels_inv (ts[i := after_claim c tu']) m' D"
proof -
  define n where "n = number holds_slot (ts[i := Resting])"
  let ?m = "m\<lparr>clients := clients_emplace e c (clients m), creating_count := n\<rparr>"
  have E: "channels_inv (ts[i := Resting]) ?m D" using emplace_step [OF inv i] by (simp add: n_def)
  have tu: "tu \<in> {None, Some False}" using inv i unfolding channels_inv_def flags_ok_def by (metis flag.simps(4) nth_mem)
  have "c < next_client m" "\<not> hc_finalized (client_objs m c)"
    using inv i unfolding channels_inv_def pubs_ok_def by (metis nth_mem pub_client.simps(1))+
  then have c: "c < next_client ?m" "\<not> hc_finalized (client_objs ?m c)" by simp_all
  obtain t mc where t: "(t, mc) = (case tu of None \<Rightarrow> (None, ?m) | Some b \<Rightarrow> (case ClaimTransferUseLocked c b ?m of (b', m') \<Rightarrow> (Some b', m')))"
    by (metis surj_pair)
  have O: "channels_inv ((ts[i := Resting])[i := after_claim c t]) (TouchClientLocked e mc) D"
    using i by (intro obtain_step [OF E _ _ _ c tu t]) auto
  have S: "creating_count m = number holds_slot ts" using inv unfolding channels_inv_def slots_ok_def by blast
  have n: "n + (if r then 1 else 0) = creating_count m" using number_update [OF i(1), of holds_slot Resting] i(2) S by (simp add: n_def)
  have "t = tu' \<and> same_core (TouchClientLocked e mc) m'"
    using p t tu n by (cases r; cases "max_channel m"; cases tu) (auto simp: publish_client_def Let_def ClaimTransferUseLocked_def same_core_def
      TouchClientLocked_def ReleaseChannelSlot_def update_client_def)
  then show ?thesis using O channels_inv_cong [of "TouchClientLocked e mc" m' "ts[i := after_claim c tu']" D] by simp
qed

lemma admitted_flag: "channels_inv ts m D \<Longrightarrow> i < length ts \<Longrightarrow> ts ! i = Admitting e tu \<Longrightarrow> tu \<in> {None, Some False}"
  unfolding channels_inv_def flags_ok_def by (metis flag.simps(1) nth_mem)

lemma pool_client_ok:
  "channels_inv ts m D \<Longrightarrow> map_of (clients m) e = Some c \<Longrightarrow> c < next_client m \<and> \<not> hc_finalized (client_objs m c)"
  unfolding channels_inv_def clients_ok_def using map_of_clients by blast

lemma admit_step:
  assumes inv: "channels_inv ts m D" and i: "i < length ts" "ts ! i = Admitting e tu" and E: "EvaluateChannelAdmit e tu m = (a, tu', m')"
  shows "already_connected a \<Longrightarrow> admit_client a = Some c \<Longrightarrow> channels_inv (ts[i := after_claim c tu']) m' D"
    "\<not> already_connected a \<Longrightarrow> pool_exhausted a \<Longrightarrow> channels_inv (ts[i := Resting]) m' D"
    "\<not> already_connected a \<Longrightarrow> \<not> pool_exhausted a \<Longrightarrow> admit_reserved a \<or> admit_victims a = [] \<Longrightarrow> channels_inv (ts[i := Creating e tu' (admit_reserved a)]) m' D"
    "\<not> already_connected a \<Longrightarrow> \<not> admit_reserved a \<Longrightarrow> channels_inv (ts[i := Evicting e tu' vs ws]) m' D"
proof -
  note fl = admitted_flag [OF inv i]
  show "channels_inv (ts[i := after_claim c tu']) m' D" if "already_connected a" "admit_client a = Some c"
    using E
  proof (cases rule: admit_cases)
    case (connected c' mc)
    then have "c' = c" using that by (simp add: no_admit_def)
    then show ?thesis using connected obtain_step [OF inv i(1) _ _ _ _ fl connected(4)] pool_client_ok [OF inv connected(1)] i(2) by simp
  qed (use that in \<open>auto simp: no_admit_def\<close>)
  show "channels_inv (ts[i := Resting]) m' D" if "\<not> already_connected a" "pool_exhausted a"
    using E
  proof (cases rule: admit_cases)
    case (full k)
    then show ?thesis using i by (auto intro!: quiet_step [OF inv])
  qed (use that in \<open>auto simp: no_admit_def\<close>)
  show "channels_inv (ts[i := Evicting e tu' vs ws]) m' D" if "\<not> already_connected a" "\<not> admit_reserved a"
    using E
  proof (cases rule: admit_cases)
    case unlimited
    then show ?thesis using i fl by (auto intro!: quiet_step [OF inv])
  next
    case (full k)
    then show ?thesis using i fl by (auto intro!: quiet_step [OF inv])
  qed (use that in \<open>auto simp: no_admit_def\<close>)
  show "channels_inv (ts[i := Creating e tu' (admit_reserved a)]) m' D"
    if "\<not> already_connected a" "\<not> pool_exhausted a" "admit_reserved a \<or> admit_victims a = []"
    using E
  proof (cases rule: admit_cases)
    case unlimited
    then show ?thesis using i fl by (auto simp: no_admit_def intro!: quiet_step [OF inv])
  next
    case (reserved k)
    then show ?thesis using reserve_step [OF inv i reserved(1,2)] by (simp add: no_admit_def)
  qed (use that in \<open>auto simp: no_admit_def\<close>)
qed

lemma thread_step_inv:
  assumes "channels_inv ts m D" "i < length ts" "thread_step (ts ! i) m t m'"
  shows "channels_inv (ts[i := t]) m' D"
  using assms(3)
proof (cases rule: thread_step.cases)
  case (call tu e)
  then show ?thesis using assms by (auto intro!: quiet_step)
next
  case (use e c tu)
  obtain b mc where b: "ClaimTransferUseLocked c False m = (b, mc)" by (metis surj_pair)
  have c: "map_of (clients m) e = Some c" "tu = b" "m' = TouchClientLocked e mc"
    using use b by (auto simp: GetClientForUse_def split: option.splits prod.splits)
  then show ?thesis
    using use obtain_step [OF assms(1,2), of c "Some False" "Some b" mc e] pool_client_ok [OF assms(1) c(1)] b by simp
next
  case (admit_connected e tu a tu' c)
  then show ?thesis using admit_step(1) [OF assms(1,2)] by blast
next
  case (admit_exhausted e tu a tu')
  then show ?thesis using admit_step(2) [OF assms(1,2)] by blast
next
  case (admit_create e tu a tu')
  then show ?thesis using admit_step(3) [OF assms(1,2)] by blast
next
  case (admit_evict e tu a tu')
  then show ?thesis using admit_step(4) [OF assms(1,2)] by blast
next
  case (evict ha expired v s removed e tu vs all)
  have "channels_inv ts m' D" using evict_step [OF assms(1)] evict by blast
  moreover have "tu \<in> {None, Some False}" using assms(1,2) evict unfolding channels_inv_def flags_ok_def by (metis flag.simps(2) nth_mem)
  ultimately show ?thesis using assms(2) evict by (auto intro!: quiet_step)
next
  case (evict_failed all e tu)
  then show ?thesis using assms(1,2) by (auto intro!: quiet_step)
next
  case (evict_done all e tu)
  have "tu \<in> {None, Some False}" using assms(1,2) evict_done unfolding channels_inv_def flags_ok_def by (metis flag.simps(2) nth_mem)
  then show ?thesis using assms(1,2) evict_done by (auto intro!: quiet_step)
next
  case (create_failed ha parse init infos timeout s c m1 e tu r)
  have "channels_inv ts m1 D" using connect_cases [OF create_failed(4)] assms(1) create_failed(5) alloc_step by auto
  then show ?thesis using free_slot_step [of ts m1 D i e tu r] assms(2) create_failed by simp
next
  case (create ha parse init infos timeout c e tu r)
  then show ?thesis using connect_cases [OF create(3)] create_step [OF assms(1,2)] by auto
next
  case (publish e c r tu tu')
  then show ?thesis using publish_step [OF assms(1,2)] by simp
next
  case (release c)
  then show ?thesis using release_use_step [OF assms(1,2)] by simp
qed

lemma pool_step_inv:
  assumes "pool_step g g'" "channels_inv (threads g) (manager g) (disconnected g)"
  shows "channels_inv (threads g') (manager g') (disconnected g')"
  using assms
proof (cases rule: pool_step.cases)
  case (thread i t m)
  then show ?thesis using thread_step_inv assms(2) by simp
next
  case (disconnect e c ha expired s m)
  then show ?thesis using disconnect_step assms(2) by simp
next
  case (finalize ha expired s m)
  then show ?thesis using finalize_step assms(2) by simp
next
  case (transfer c b rs)
  then show ?thesis using assms(2) by (auto simp: channels_inv_defs)
next
  case (index idx rs)
  then show ?thesis using assms(2) channels_inv_cong [of "manager g" "(manager g)\<lparr>ordered_reqs := rs, req_to_client := idx\<rparr>"] by (simp add: same_core_def)
qed

lemma pool_start_inv: "n < 2 ^ 32 \<Longrightarrow> channels_inv (threads (pool_start cap n)) (manager (pool_start cap n)) (disconnected (pool_start cap n))"
  by (auto simp: pool_start_def new_manager_def new_client_def channels_inv_defs number_def)

lemma pool_reachable_inv:
  assumes "pool_step\<^sup>*\<^sup>* (pool_start cap n) g" "n < 2 ^ 32"
  shows "channels_inv (threads g) (manager g) (disconnected g)"
  using assms(1) by (induction rule: rtranclp_induct) (use pool_start_inv [OF assms(2)] pool_step_inv in blast)+

lemma Touch_max [simp]: "max_channel (TouchClientLocked e m) = max_channel m"
  by (simp add: TouchClientLocked_def Let_def)

lemma Release_max [simp]: "max_channel (ReleaseChannelSlot m) = max_channel m"
  by (simp add: ReleaseChannelSlot_def)

lemma Claim_max: "(t, m') = (case tu of None \<Rightarrow> (None, m) | Some b \<Rightarrow> (case ClaimTransferUseLocked c b m of (b', m') \<Rightarrow> (Some b', m'))) \<Longrightarrow>
    max_channel m' = max_channel m"
  by (auto simp: ClaimTransferUseLocked_def split: option.splits if_splits)

lemma admit_max: "EvaluateChannelAdmit e tu m = (a, tu', m') \<Longrightarrow> max_channel m' = max_channel m"
  by (erule admit_cases) (auto dest: Claim_max)

lemma thread_step_max: "thread_step t m t' m' \<Longrightarrow> max_channel m' = max_channel m"
proof (induction rule: thread_step.induct)
  case (use e m c tu m')
  then show ?case by (auto simp: GetClientForUse_def ClaimTransferUseLocked_def split: option.splits prod.splits if_splits)
next
  case (evict ha expired v m s removed m' e tu vs all)
  then show ?case by (auto simp: DestroyIdleClient_def Let_def split: option.splits if_splits)
next
  case (create_failed ha parse init infos timeout m s c m' e tu r)
  then show ?case using connect_cases by fastforce
next
  case (create ha parse init infos timeout m c m' e tu r)
  then show ?case using connect_cases by fastforce
next
  case (publish e c r tu m tu' m')
  then show ?case by (auto simp: publish_client_def ClaimTransferUseLocked_def Let_def split: option.splits if_splits)
qed (auto dest: admit_max)

lemma pool_step_max: "pool_step g g' \<Longrightarrow> max_channel (manager g') = max_channel (manager g)"
proof (induction rule: pool_step.induct)
  case (disconnect g e c ha expired s m)
  then show ?case by (auto simp: DestroyClient_def Let_def)
next
  case (finalize ha expired g s m)
  let ?m1 = "(manager g)\<lparr>cm_finalized := True, clients := [], last_access_seq := Map.empty\<rparr>"
  obtain r m2 where f: "foldl (finalize_one ha expired) (SUCCESS, ?m1) (clients (manager g)) = (r, m2)" by (metis surj_pair)
  have "max_channel (snd (foldl (finalize_one ha expired) (r, m1) cs)) = max_channel m1" for r m1 cs
    by (induction cs arbitrary: r m1) (auto simp: finalize_one_def Let_def)
  from this [of SUCCESS ?m1 "clients (manager g)"] have "max_channel m2 = max_channel (manager g)" by (simp add: f)
  then show ?case using finalize by (auto simp: ClientManager_Finalize_def Let_def f)
qed (auto dest: thread_step_max)

text \<open>C6: The pool of connections never exceeds its limit, and making room never takes down a connection that a transfer
  holds. In every interleaving of the calls of any number of threads with disconnections, transfers and shutdown, the connections in the
  pool and those under construction are together at most \<open>max_channel\<close>; the use count of a client is the number of
  threads that hold it; and a held client has only been finalized if it was disconnected on request.\<close>

theorem channel_pool_safe:
  assumes "pool_step\<^sup>*\<^sup>* (pool_start cap n) g" "n < 2 ^ 32"
  shows "(\<forall>k. cap = Some k \<longrightarrow> length (clients (manager g)) + creating_count (manager g) \<le> k) \<and>
    (\<forall>c. use_count (client_objs (manager g) c) = length (filter ((=) (Using c)) (threads g))) \<and>
    (\<forall>c. Using c \<in> set (threads g) \<longrightarrow> hc_finalized (client_objs (manager g) c) \<longrightarrow> c \<in> disconnected g)"
proof -
  have "max_channel (manager g) = cap" using assms(1)
    by (induction rule: rtranclp_induct) (auto simp: pool_start_def new_manager_def dest: pool_step_max)
  then show ?thesis
    using pool_reachable_inv [OF assms] unfolding channels_inv_def slots_ok_def uses_ok_def number_def by simp
qed

text \<open>One thread that connects to a remote engine through a pool of one place.\<close>

definition example_ha :: handler_answers where
  "example_ha = \<lparr>ha_register = (\<lambda>_. SUCCESS), ha_deregister = (\<lambda>_. SUCCESS), ha_connect = (\<lambda>_. SUCCESS), ha_sync = (\<lambda>_ _ _. SUCCESS),
     ha_async = (\<lambda>_ _. (SUCCESS, 1)), ha_status = (\<lambda>_. (SUCCESS, TS_COMPLETED)), ha_finalize = SUCCESS\<rparr>"

definition example_manager :: ClientManager where
  "example_manager = \<lparr>clients = [(''a'', 0)], last_access_seq = [''a'' \<mapsto> 1], access_seq = 1, max_channel = Some 1, creating_count = 0,
     cm_finalized = False, ordered_reqs = [], req_to_client = Map.empty,
     client_objs = (\<lambda>_. new_client)(0 := new_client\<lparr>hc_connected := True, use_count := 1\<rparr>), next_client = 1\<rparr>"

definition example_m1 :: ClientManager where
  "example_m1 = (new_manager (Some 1))\<lparr>creating_count := 1\<rparr>"

definition example_m2 :: ClientManager where
  "example_m2 = example_m1\<lparr>client_objs := (\<lambda>_. new_client)(0 := new_client\<lparr>hc_connected := True\<rparr>), next_client := 1\<rparr>"

lemma example_admit: "EvaluateChannelAdmit ''a'' (Some False) (new_manager (Some 1)) = (no_admit\<lparr>admit_reserved := True\<rparr>, Some False, example_m1)"
  by (simp add: EvaluateChannelAdmit_def new_manager_def example_m1_def)

lemma example_create: "connect_client example_ha SUCCESS SUCCESS [] 0 example_m1 = (SUCCESS, 0, example_m2)"
proof -
  have c: "CreateClient SUCCESS SUCCESS example_m1 = (SUCCESS, 0, example_m1\<lparr>client_objs := (\<lambda>_. new_client)(0 := new_client), next_client := 1\<rparr>)"
    by (simp add: CreateClient_def example_m1_def new_manager_def new_client_def Let_def)
  show ?thesis unfolding connect_client_def c
    by (simp add: HixlClient_RegisterMem_def HixlClient_Connect_def example_ha_def example_m2_def update_client_def new_client_def)
qed

lemma example_publish: "publish_client ''a'' 0 True (Some False) example_m2 = (Some True, example_manager)"
proof -
  let ?m = "example_m2\<lparr>clients := [(''a'', 0)]\<rparr>"
  have e: "example_m2\<lparr>clients := clients_emplace ''a'' 0 (clients example_m2)\<rparr> = ?m"
    by (simp add: clients_emplace_def example_m2_def example_m1_def new_manager_def)
  have c: "ClaimTransferUseLocked 0 False ?m = (True, update_client 0 AcquireUse ?m)"
    by (simp add: ClaimTransferUseLocked_def example_m2_def example_m1_def new_manager_def)
  have "ReleaseChannelSlot (TouchClientLocked ''a'' (update_client 0 AcquireUse ?m)) = example_manager"
    by (simp add: ReleaseChannelSlot_def TouchClientLocked_def update_client_def example_manager_def example_m2_def example_m1_def new_manager_def
      AcquireUse_def new_client_def add32_def add64_def)
  then show ?thesis unfolding publish_client_def e by (simp add: c)
qed

lemma single_thread_step:
  "thread_step t m t' m' \<Longrightarrow> pool_step \<lparr>threads = [t], manager = m, disconnected = D\<rparr> \<lparr>threads = [t'], manager = m', disconnected = D\<rparr>"
  using pool_step.thread [of 0 "\<lparr>threads = [t], manager = m, disconnected = D\<rparr>" t' m'] by simp

lemma example_pool_run:
  "pool_step\<^sup>*\<^sup>* (pool_start (Some 1) 1) \<lparr>threads = [Using 0], manager = example_manager, disconnected = {}\<rparr>"
proof -
  have t1: "thread_step Resting (new_manager (Some 1)) (Admitting ''a'' (Some False)) (new_manager (Some 1))" by (rule call) simp
  have t2: "thread_step (Admitting ''a'' (Some False)) (new_manager (Some 1)) (Creating ''a'' (Some False) True) example_m1"
    using admit_create [OF example_admit] by (simp add: no_admit_def)
  have t3: "thread_step (Creating ''a'' (Some False) True) example_m1 (Publishing ''a'' (Some False) True 0) example_m2"
    by (rule create [OF example_create])
  have t4: "thread_step (Publishing ''a'' (Some False) True 0) example_m2 (Using 0) example_manager"
    using publish [OF example_publish] by (simp add: after_claim_def)
  have "pool_start (Some 1) 1 = \<lparr>threads = [Resting], manager = new_manager (Some 1), disconnected = {}\<rparr>" by (simp add: pool_start_def)
  moreover have "pool_step\<^sup>*\<^sup>* \<lparr>threads = [Resting], manager = new_manager (Some 1), disconnected = {}\<rparr>
      \<lparr>threads = [Using 0], manager = example_manager, disconnected = {}\<rparr>"
    using single_thread_step [OF t1, of "{}"] single_thread_step [OF t2, of "{}"] single_thread_step [OF t3, of "{}"]
      single_thread_step [OF t4, of "{}"] by (iprover intro: rtranclp.rtrancl_refl converse_rtranclp_into_rtranclp)
  ultimately show ?thesis by simp
qed

lemma channel_pool_safe_witness:
  "length (clients example_manager) + creating_count example_manager \<le> 1 \<and> use_count (client_objs example_manager 0) = 1 \<and>
   \<not> hc_finalized (client_objs example_manager 0)"
  using channel_pool_safe [OF example_pool_run] by auto


section \<open>Admission without interference\<close>

lemma idle_client_found:
  assumes "distinct (map fst (clients m))" "(seq, v) \<in> set (idle_clients m)"
  obtains c where "map_of (clients m) v = Some c" "\<not> IsBusy (client_objs m c)"
  using assms by (auto simp: idle_clients_def)

lemma clients_erase_length:
  assumes "distinct (map fst cs)" "map_of cs v = Some c"
  shows "Suc (length (clients_erase v cs)) = length cs"
  using assms
proof (induction cs)
  case (Cons x cs)
  then show ?case
  proof (cases "fst x = v")
    case True
    then have "v \<notin> fst ` set cs" using Cons.prems(1) by auto
    then have "\<forall>y \<in> set cs. fst y \<noteq> v" by blast
    then have "clients_erase v cs = cs" by (simp add: clients_erase_def)
    with True show ?thesis by (simp add: clients_erase_def)
  next
    case False
    then have "map_of cs v = Some c" using Cons.prems(2) by (cases x) auto
    then have "Suc (length (clients_erase v cs)) = length cs" using Cons by simp
    with False show ?thesis by (simp add: clients_erase_def)
  qed
qed simp

lemma map_of_clients_erase: "map_of (clients_erase v cs) e = (if e = v then None else map_of cs e)"
  by (induction cs) (auto simp: clients_erase_def)

lemma DestroyIdleClient_idle:
  assumes "map_of (clients m) v = Some c" "\<not> IsBusy (client_objs m c)" "DestroyIdleClient ha ex v m = (s, removed, m')"
  shows "clients m' = clients_erase v (clients m)" "creating_count m' = creating_count m" "max_channel m' = max_channel m"
    "hc_finalized (client_objs m' c)" "\<forall>d. d \<noteq> c \<longrightarrow> client_objs m' d = client_objs m d"
  using assms by (auto simp: DestroyIdleClient_def Let_def)

lemma sort_hd:
  assumes "xs \<noteq> ([] :: 'a :: linorder list)"
  shows "take 1 (sort xs) = [hd (sort xs)]" "hd (sort xs) \<in> set xs" "\<forall>x \<in> set xs. hd (sort xs) \<le> x"
proof -
  obtain y ys where y: "sort xs = y # ys" using assms by (metis list.exhaust sort_key_const sorted_sort set_empty set_sort)
  then show "take 1 (sort xs) = [hd (sort xs)]" by simp
  have "set xs = insert y (set ys)" using y by (metis list.simps(15) set_sort)
  moreover have "\<forall>x \<in> set ys. y \<le> x" using sorted_sort [of xs] y by simp
  ultimately show "hd (sort xs) \<in> set xs" "\<forall>x \<in> set xs. hd (sort xs) \<le> x" using y by auto
qed

text \<open>C15: Without interference the admission loop ends after at most two rounds. A connected engine is returned; a free place is
  taken; when the pool is full and no connection is idle, the call fails and changes nothing; otherwise exactly the least recently used
  idle connection is finalized and removed, and its place is taken.\<close>

theorem ReserveChannelSlot_returns:
  assumes "max_channel m = Some k" "length (clients m) + creating_count m \<le> k" "distinct (map fst (clients m))" "2 \<le> fuel"
    "map_of (clients m) e = None"
  shows "if length (clients m) + creating_count m < k
    then ReserveChannelSlot fuel ha ex e tu m = Some (SUCCESS, None, True, tu, m\<lparr>creating_count := Suc (creating_count m)\<rparr>)
    else if idle_clients m = [] then ReserveChannelSlot fuel ha ex e tu m = Some (RESOURCE_EXHAUSTED, None, False, tu, m)
    else \<exists>seq v c m'. (seq, v) \<in> set (idle_clients m) \<and> (\<forall>x \<in> set (idle_clients m). (seq, v) \<le> x) \<and> map_of (clients m) v = Some c \<and>
      ReserveChannelSlot fuel ha ex e tu m = Some (SUCCESS, None, True, tu, m') \<and> clients m' = clients_erase v (clients m) \<and>
      creating_count m' = Suc (creating_count m) \<and> hc_finalized (client_objs m' c) \<and> (\<forall>d. d \<noteq> c \<longrightarrow> client_objs m' d = client_objs m d)"
proof -
  obtain f where f: "fuel = Suc (Suc f)" using assms(4) by (metis add_2_eq_Suc le_Suc_ex)
  show ?thesis
  proof (cases "length (clients m) + creating_count m < k")
    case True
    then show ?thesis using assms by (simp add: f EvaluateChannelAdmit_def no_admit_def)
  next
    case False
    then have full: "length (clients m) + creating_count m = k" using assms(2) by simp
    then have E: "EvaluateChannelAdmit e tu m =
        (no_admit\<lparr>admit_victims := SelectLruIdleClientsLocked 1 m, pool_exhausted := length (SelectLruIdleClientsLocked 1 m) < 1\<rparr>, tu, m)"
      using assms(1,5) by (simp add: EvaluateChannelAdmit_def Let_def)
    show ?thesis
    proof (cases "idle_clients m = []")
      case True
      then show ?thesis using False E by (simp add: f no_admit_def SelectLruIdleClientsLocked_def)
    next
      case idle: False
      obtain seq v where sv: "hd (sort (idle_clients m)) = (seq, v)" by (metis surj_pair)
      note S = sort_hd [OF idle, unfolded sv]
      obtain c where c: "map_of (clients m) v = Some c" "\<not> IsBusy (client_objs m c)" using idle_client_found [OF assms(3) S(2)] .
      obtain s removed m1 where D: "DestroyIdleClient ha ex v m = (s, removed, m1)" by (metis prod_cases3)
      note D1 = DestroyIdleClient_idle [OF c D]
      have victims: "SelectLruIdleClientsLocked 1 m = [v]" using S(1) by (simp add: SelectLruIdleClientsLocked_def)
      have F: "FinishEvict ha ex [v] m = (SUCCESS, m1)"
        by (simp add: FinishEvict_def D evict_status_def still_present_def D1(1) map_of_clients_erase Let_def)
      have room: "length (clients m1) + creating_count m1 < k" using clients_erase_length [OF assms(3) c(1)] full D1(1,2) by simp
      then have E2: "EvaluateChannelAdmit e tu m1 = (no_admit\<lparr>admit_reserved := True\<rparr>, tu, m1\<lparr>creating_count := Suc (creating_count m1)\<rparr>)"
        using assms(1,5) D1(1,3) by (simp add: EvaluateChannelAdmit_def map_of_clients_erase)
      define m2 where "m2 = m1\<lparr>creating_count := Suc (creating_count m1)\<rparr>"
      have R: "ReserveChannelSlot fuel ha ex e tu m = Some (SUCCESS, None, True, tu, m2)"
        unfolding m2_def by (simp add: f E E2 victims [simplified] F no_admit_def)
      have "clients m2 = clients_erase v (clients m)" "creating_count m2 = Suc (creating_count m)" "hc_finalized (client_objs m2 c)"
        "\<forall>d. d \<noteq> c \<longrightarrow> client_objs m2 d = client_objs m d" using D1 by (simp_all add: m2_def)
      then show ?thesis unfolding if_not_P [OF False] if_not_P [OF idle] using R S(2,3) c(1) by blast
    qed
  qed
qed


definition example_full :: ClientManager where
  "example_full = example_manager\<lparr>client_objs := (\<lambda>_. new_client)\<rparr>"

lemma ReserveChannelSlot_returns_witness:
  "\<exists>m'. ReserveChannelSlot 2 example_ha (\<lambda>_. False) ''b'' (Some False) example_full = Some (SUCCESS, None, True, Some False, m') \<and>
     clients m' = [] \<and> hc_finalized (client_objs m' 0)"
proof -
  have i: "idle_clients example_full = [(1, ''a'')]"
    by (simp add: idle_clients_def example_full_def example_manager_def new_client_def IsBusy_def)
  have "clients_erase ''a'' (clients example_full) = []" by (simp add: clients_erase_def example_full_def example_manager_def)
  then show ?thesis
    using ReserveChannelSlot_returns [of example_full 1 2 "''b''" example_ha "\<lambda>_. False" "Some False"] unfolding i
    by (auto simp: example_full_def example_manager_def split: if_splits)
qed


section \<open>The request index in order\<close>

definition index_inv :: "ClientManager \<Rightarrow> bool" where
  "index_inv m \<longleftrightarrow> distinct (ordered_reqs m) \<and> set (ordered_reqs m) = dom (req_to_client m)"

text \<open>The abstract index: the pending requests with their owner and user data, oldest first.\<close>

definition pending_reqs :: "ClientManager \<Rightarrow> (nat \<times> nat \<times> nat) list" where
  "pending_reqs m = map (\<lambda>r. (r, the (req_to_client m r))) (ordered_reqs m)"

datatype index_call =
    CallRegister nat "nat option" nat
  | CallErase nat
  | CallEraseClient "nat set" nat
  | CallByReq "nat set" nat
  | CallOrdered "nat set"

fun do_index_call :: "index_call \<Rightarrow> ClientManager \<Rightarrow> ClientManager" where
  "do_index_call (CallRegister r c u) m = RegisterTransferReq r c u m"
| "do_index_call (CallErase r) m = EraseTransferReq r m"
| "do_index_call (CallEraseClient gone c) m = EraseReqIndexByClient (\<lambda>d. d \<in> gone) c m"
| "do_index_call (CallByReq gone r) m = snd (GetClientByReq (\<lambda>d. d \<in> gone) r m)"
| "do_index_call (CallOrdered gone) m = snd (GetOrderedReqs (\<lambda>d. d \<in> gone) 0 m)"

fun spec_index_call :: "index_call \<Rightarrow> (nat \<times> nat \<times> nat) list \<Rightarrow> (nat \<times> nat \<times> nat) list" where
  "spec_index_call (CallRegister r None u) q = q"
| "spec_index_call (CallRegister r (Some c) u) q = (if r = 0 then q else filter (\<lambda>x. fst x \<noteq> r) q @ [(r, c, u)])"
| "spec_index_call (CallErase r) q = filter (\<lambda>x. fst x \<noteq> r) q"
| "spec_index_call (CallEraseClient gone c) q = filter (\<lambda>(r, d, u). d \<notin> gone \<and> d \<noteq> c) q"
| "spec_index_call (CallByReq gone r) q = filter (\<lambda>(r', d, u). \<not> (r' = r \<and> d \<in> gone)) q"
| "spec_index_call (CallOrdered gone) q = filter (\<lambda>(r, d, u). d \<notin> gone) q"

lemma index_entry: "index_inv m \<Longrightarrow> r \<in> set (ordered_reqs m) \<longleftrightarrow> (\<exists>c u. req_to_client m r = Some (c, u))"
  by (auto simp: index_inv_def)

lemma filter_map_cong: "(\<And>x. x \<in> set xs \<Longrightarrow> P (f x) = Q x) \<Longrightarrow> filter P (map f xs) = map f (filter Q xs)"
  by (induction xs) auto

lemma EraseTransferReq_refines:
  assumes "index_inv m"
  shows "index_inv (EraseTransferReq r m)" "pending_reqs (EraseTransferReq r m) = filter (\<lambda>x. fst x \<noteq> r) (pending_reqs m)"
proof -
  have d: "distinct (ordered_reqs m)" "set (ordered_reqs m) = dom (req_to_client m)" using assms by (simp_all add: index_inv_def)
  have rem: "remove1 r (ordered_reqs m) = filter (\<lambda>x. x \<noteq> r) (ordered_reqs m)"
    using d(1) by (simp add: distinct_remove1_removeAll removeAll_filter_not_eq eq_commute)
  have f: "filter (\<lambda>x. fst x \<noteq> r) (pending_reqs m) = map (\<lambda>r. (r, the (req_to_client m r))) (filter (\<lambda>x. x \<noteq> r) (ordered_reqs m))"
    unfolding pending_reqs_def by (intro filter_map_cong) simp
  show "index_inv (EraseTransferReq r m)" using d rem by (auto simp: EraseTransferReq_def index_inv_def split: option.splits)
  show "pending_reqs (EraseTransferReq r m) = filter (\<lambda>x. fst x \<noteq> r) (pending_reqs m)"
  proof (cases "req_to_client m r")
    case None
    then have "filter (\<lambda>x. x \<noteq> r) (ordered_reqs m) = ordered_reqs m" using d(2) by (intro filter_True) auto
    with None show ?thesis unfolding f by (simp add: EraseTransferReq_def pending_reqs_def)
  next
    case (Some x)
    then show ?thesis unfolding f by (auto simp: EraseTransferReq_def pending_reqs_def rem)
  qed
qed

lemma RegisterTransferReq_refines:
  assumes "index_inv m" "r \<noteq> 0"
  shows "index_inv (RegisterTransferReq r (Some c) u m)"
    "pending_reqs (RegisterTransferReq r (Some c) u m) = filter (\<lambda>x. fst x \<noteq> r) (pending_reqs m) @ [(r, c, u)]"
proof -
  let ?m = "EraseTransferReq r m"
  note E = EraseTransferReq_refines [OF assms(1), of r]
  have no: "r \<notin> set (ordered_reqs ?m)" "req_to_client ?m r = None"
    using assms(1) by (auto simp: EraseTransferReq_def index_inv_def split: option.splits)
  show "index_inv (RegisterTransferReq r (Some c) u m)"
    using E(1) no assms(2) by (auto simp: RegisterTransferReq_def index_inv_def Let_def)
  have "map (\<lambda>x. (x, the (((req_to_client ?m)(r \<mapsto> (c, u))) x))) (ordered_reqs ?m) = pending_reqs ?m"
    unfolding pending_reqs_def using no(1) by (intro map_cong) auto
  then have "pending_reqs (RegisterTransferReq r (Some c) u m) = pending_reqs ?m @ [(r, c, u)]"
    using assms(2) by (simp add: RegisterTransferReq_def pending_reqs_def Let_def del: map_eq_conv)
  then show "pending_reqs (RegisterTransferReq r (Some c) u m) = filter (\<lambda>x. fst x \<noteq> r) (pending_reqs m) @ [(r, c, u)]"
    by (simp add: E(2))
qed

lemma EraseReqIndexByClient_refines:
  assumes "index_inv m"
  shows "index_inv (EraseReqIndexByClient ex c m)"
    "pending_reqs (EraseReqIndexByClient ex c m) = filter (\<lambda>(r, d, u). \<not> ex d \<and> d \<noteq> c) (pending_reqs m)"
proof -
  define gone where "gone = (\<lambda>req. case req_to_client m req of None \<Rightarrow> False | Some (d, u) \<Rightarrow> ex d \<or> d = c)"
  have d: "distinct (ordered_reqs m)" "set (ordered_reqs m) = dom (req_to_client m)" using assms by (simp_all add: index_inv_def)
  have m: "EraseReqIndexByClient ex c m = m\<lparr>ordered_reqs := filter (\<lambda>r. \<not> gone r) (ordered_reqs m),
      req_to_client := (\<lambda>r. if gone r then None else req_to_client m r)\<rparr>"
    by (simp add: EraseReqIndexByClient_def gone_def Let_def)
  show "index_inv (EraseReqIndexByClient ex c m)" using d by (auto simp: m index_inv_def split: if_splits)
  have "filter (\<lambda>(r, d, u). \<not> ex d \<and> d \<noteq> c) (pending_reqs m) = map (\<lambda>r. (r, the (req_to_client m r))) (filter (\<lambda>r. \<not> gone r) (ordered_reqs m))"
    unfolding pending_reqs_def using d(2) by (intro filter_map_cong) (auto simp: gone_def)
  then show "pending_reqs (EraseReqIndexByClient ex c m) = filter (\<lambda>(r, d, u). \<not> ex d \<and> d \<noteq> c) (pending_reqs m)"
    by (simp add: m pending_reqs_def)
qed

lemma ordered_loop_live:
  assumes "distinct rs" "set rs \<subseteq> dom idx"
  shows "ordered_loop ex 0 rs idx n =
    (map (\<lambda>r. (r, the (idx r))) (filter (\<lambda>r. \<not> ex (fst (the (idx r)))) rs), filter (\<lambda>r. \<not> ex (fst (the (idx r)))) rs,
     \<lambda>r. if r \<in> set rs \<and> ex (fst (the (idx r))) then None else idx r)"
  using assms
proof (induction rs arbitrary: idx n)
  case (Cons r rs)
  obtain c u where i: "idx r = Some (c, u)" using Cons.prems(2) by auto
  show ?case
  proof (cases "ex c")
    case True
    let ?idx = "idx(r := None)"
    have same: "x \<in> set rs \<Longrightarrow> ?idx x = idx x" for x using Cons.prems(1) by auto
    have "set rs \<subseteq> dom ?idx" using Cons.prems by auto
    then have "ordered_loop ex 0 rs ?idx n = (map (\<lambda>r. (r, the (?idx r))) (filter (\<lambda>r. \<not> ex (fst (the (?idx r)))) rs),
        filter (\<lambda>r. \<not> ex (fst (the (?idx r)))) rs, \<lambda>r. if r \<in> set rs \<and> ex (fst (the (?idx r))) then None else ?idx r)"
      using Cons.IH Cons.prems(1) by simp
    moreover have "filter (\<lambda>r. \<not> ex (fst (the (?idx r)))) rs = filter (\<lambda>r. \<not> ex (fst (the (idx r)))) rs"
      by (intro filter_cong) (simp_all add: same del: fun_upd_apply)
    moreover have "(\<lambda>x. if x \<in> set rs \<and> ex (fst (the (?idx x))) then None else ?idx x) =
        (\<lambda>x. if x \<in> set (r # rs) \<and> ex (fst (the (idx x))) then None else idx x)"
      using i True by (auto simp: fun_eq_iff)
    moreover have "map (\<lambda>r. (r, the (?idx r))) (filter (\<lambda>r. \<not> ex (fst (the (idx r)))) rs) =
        map (\<lambda>r. (r, the (idx r))) (filter (\<lambda>r. \<not> ex (fst (the (idx r)))) rs)"
      by (intro map_cong) (simp_all add: same del: fun_upd_apply)
    ultimately show ?thesis using i True by simp
  next
    case False
    then show ?thesis using i Cons by (auto simp: fun_eq_iff)
  qed
qed simp

lemma GetOrderedReqs_refines:
  assumes "index_inv m"
  shows "index_inv (snd (GetOrderedReqs ex 0 m))" "pending_reqs (snd (GetOrderedReqs ex 0 m)) = filter (\<lambda>(r, d, u). \<not> ex d) (pending_reqs m)"
    "fst (GetOrderedReqs ex 0 m) = filter (\<lambda>(r, d, u). \<not> ex d) (pending_reqs m)"
proof -
  have d: "distinct (ordered_reqs m)" "set (ordered_reqs m) = dom (req_to_client m)" using assms by (simp_all add: index_inv_def)
  note L = ordered_loop_live [OF d(1), of "req_to_client m" ex 0]
  have f: "filter (\<lambda>(r, d, u). \<not> ex d) (pending_reqs m) =
      map (\<lambda>r. (r, the (req_to_client m r))) (filter (\<lambda>r. \<not> ex (fst (the (req_to_client m r)))) (ordered_reqs m))"
    unfolding pending_reqs_def by (intro filter_map_cong) (auto simp: case_prod_unfold)
  have G: "GetOrderedReqs ex 0 m = (map (\<lambda>r. (r, the (req_to_client m r))) (filter (\<lambda>r. \<not> ex (fst (the (req_to_client m r)))) (ordered_reqs m)),
      m\<lparr>ordered_reqs := filter (\<lambda>r. \<not> ex (fst (the (req_to_client m r)))) (ordered_reqs m),
        req_to_client := (\<lambda>r. if r \<in> set (ordered_reqs m) \<and> ex (fst (the (req_to_client m r))) then None else req_to_client m r)\<rparr>)"
    using L d(2) by (simp add: GetOrderedReqs_def)
  show "index_inv (snd (GetOrderedReqs ex 0 m))" using d by (auto simp: G index_inv_def split: if_splits)
  show "fst (GetOrderedReqs ex 0 m) = filter (\<lambda>(r, d, u). \<not> ex d) (pending_reqs m)" by (simp add: G f)
  show "pending_reqs (snd (GetOrderedReqs ex 0 m)) = filter (\<lambda>(r, d, u). \<not> ex d) (pending_reqs m)"
    unfolding f by (simp add: G pending_reqs_def)
qed

lemma GetClientByReq_refines:
  assumes "index_inv m"
  shows "index_inv (snd (GetClientByReq ex r m))"
    "pending_reqs (snd (GetClientByReq ex r m)) = filter (\<lambda>(r', d, u). \<not> (r' = r \<and> ex d)) (pending_reqs m)"
proof -
  have d: "set (ordered_reqs m) = dom (req_to_client m)" using assms by (simp add: index_inv_def)
  show "index_inv (snd (GetClientByReq ex r m))" using assms EraseTransferReq_refines(1) by (auto simp: GetClientByReq_def split: option.splits)
  show "pending_reqs (snd (GetClientByReq ex r m)) = filter (\<lambda>(r', d, u). \<not> (r' = r \<and> ex d)) (pending_reqs m)"
  proof (cases "\<exists>c u. req_to_client m r = Some (c, u) \<and> ex c")
    case True
    then have "filter (\<lambda>(r', d, u). \<not> (r' = r \<and> ex d)) (pending_reqs m) = filter (\<lambda>x. fst x \<noteq> r) (pending_reqs m)"
      by (intro filter_cong) (auto simp: pending_reqs_def)
    with True show ?thesis using EraseTransferReq_refines(2) [OF assms] by (auto simp: GetClientByReq_def)
  next
    case False
    then have "filter (\<lambda>(r', d, u). \<not> (r' = r \<and> ex d)) (pending_reqs m) = pending_reqs m"
      using d by (intro filter_True) (auto simp: pending_reqs_def)
    with False show ?thesis by (auto simp: GetClientByReq_def split: option.splits)
  qed
qed

lemma index_call_refines:
  assumes "index_inv m"
  shows "index_inv (do_index_call call m) \<and> pending_reqs (do_index_call call m) = spec_index_call call (pending_reqs m)"
proof (cases call)
  case (CallRegister r c u)
  then show ?thesis using assms RegisterTransferReq_refines [OF assms]
    by (cases c; cases "r = 0") (simp_all add: RegisterTransferReq_def)
qed (use EraseTransferReq_refines [OF assms] EraseReqIndexByClient_refines [OF assms] GetClientByReq_refines [OF assms]
  GetOrderedReqs_refines [OF assms] in simp_all)

lemma index_calls_refine:
  assumes "index_inv m"
  shows "index_inv (fold do_index_call calls m) \<and> pending_reqs (fold do_index_call calls m) = fold spec_index_call calls (pending_reqs m)"
  using assms by (induction calls arbitrary: m) (use index_call_refines in force)+

text \<open>C16: The request index is a queue of the pending requests. After any sequence of registrations, removals, disconnections and
  queries, \<open>GetOrderedReqs\<close> returns the requests that were registered and not removed, each once, in the order of their last
  registration, with the client and the user data they were registered with, and without those of expired clients.\<close>

theorem request_index_ordered:
  "fst (GetOrderedReqs (\<lambda>d. d \<in> gone) 0 (fold do_index_call calls (new_manager cap))) =
   filter (\<lambda>(r, d, u). d \<notin> gone) (fold spec_index_call calls [])"
proof -
  have "index_inv (new_manager cap)" "pending_reqs (new_manager cap) = []"
    by (simp_all add: index_inv_def pending_reqs_def new_manager_def)
  with index_calls_refine [of "new_manager cap" calls] show ?thesis by (simp add: GetOrderedReqs_refines(3))
qed


section \<open>The mutexes of the remote engines\<close>

text \<open>The map from remote engines to shared mutexes, the number of shared pointers to each mutex object, and the next free object.
  An object without pointers is destroyed.\<close>

record mutex_heap =
  client_mutexes :: "string \<rightharpoonup> nat"
  mutex_refs :: "nat \<Rightarrow> nat"
  next_mutex :: nat

definition take_ref :: "nat \<Rightarrow> mutex_heap \<Rightarrow> mutex_heap" where
  "take_ref x h = h\<lparr>mutex_refs := (mutex_refs h)(x := Suc (mutex_refs h x))\<rparr>"

definition drop_ref :: "nat \<Rightarrow> mutex_heap \<Rightarrow> mutex_heap" where
  "drop_ref x h = h\<lparr>mutex_refs := (mutex_refs h)(x := mutex_refs h x - 1)\<rparr>"

definition GetClientMutex :: "string \<Rightarrow> mutex_heap \<Rightarrow> nat \<times> mutex_heap" where
  "GetClientMutex e h =
     (case client_mutexes h e of
        Some x \<Rightarrow> (x, take_ref x h)
      | None \<Rightarrow>
          let x = next_mutex h; h1 = h\<lparr>next_mutex := Suc x, mutex_refs := (mutex_refs h)(x := 1)\<rparr> in
          (x, take_ref x (h1\<lparr>client_mutexes := (client_mutexes h1)(e \<mapsto> x)\<rparr>)))"

definition DestroyClientMutex :: "string \<Rightarrow> mutex_heap \<Rightarrow> mutex_heap" where
  "DestroyClientMutex e h =
     (case client_mutexes h e of None \<Rightarrow> h | Some x \<Rightarrow> drop_ref x (h\<lparr>client_mutexes := (client_mutexes h)(e := None)\<rparr>))"

definition unlock_mutex :: "nat \<Rightarrow> mutex_heap \<Rightarrow> mutex_heap outcome" where
  "unlock_mutex x h = (if mutex_refs h x = 0 then Crash else Ok h)"

text \<open>The mutex operations of \<open>DestroyClient\<close>: the local pointer is reset and the entry erased before the lock guard goes out of
  scope and unlocks the mutex.\<close>

definition DestroyClient_mutex :: "string \<Rightarrow> mutex_heap \<Rightarrow> mutex_heap outcome" where
  "DestroyClient_mutex e h =
     (case GetClientMutex e h of (x, h1) \<Rightarrow> unlock_mutex x (DestroyClientMutex e (drop_ref x h1)))"

text \<open>The mutex operations of \<open>DestroyIdleClient\<close>: the lock guard is left first, then the local pointer.\<close>

definition DestroyIdleClient_mutex :: "string \<Rightarrow> mutex_heap \<Rightarrow> mutex_heap outcome" where
  "DestroyIdleClient_mutex e h =
     (case GetClientMutex e h of (x, h1) \<Rightarrow> obind (unlock_mutex x h1) (\<lambda>h2. Ok (drop_ref x h2)))"

text \<open>C40: Unless another thread is waiting for the same remote engine, \<open>DestroyClient\<close> unlocks a mutex that has just been destroyed: it
  drops its own shared pointer and the one of the map while the lock guard still refers to the object. The same steps without these
  two lines, as in \<open>DestroyIdleClient\<close>, always unlock a live mutex.\<close>

theorem DestroyClient_unlocks_destroyed_mutex:
  assumes "\<forall>x. client_mutexes h e = Some x \<longrightarrow> mutex_refs h x = 1"
  shows "DestroyClient_mutex e h = Crash \<and> (\<exists>h'. DestroyIdleClient_mutex e h = Ok h')"
proof (cases "client_mutexes h e")
  case None
  then show ?thesis
    by (simp add: DestroyClient_mutex_def DestroyIdleClient_mutex_def GetClientMutex_def DestroyClientMutex_def take_ref_def drop_ref_def unlock_mutex_def Let_def)
next
  case (Some x)
  then show ?thesis using assms
    by (simp add: DestroyClient_mutex_def DestroyIdleClient_mutex_def GetClientMutex_def DestroyClientMutex_def take_ref_def drop_ref_def unlock_mutex_def)
qed

lemma DestroyClient_unlocks_destroyed_mutex_witness:
  "DestroyClient_mutex ''a'' \<lparr>client_mutexes = [''a'' \<mapsto> 7], mutex_refs = (\<lambda>_. 0)(7 := 1), next_mutex = 8\<rparr> = Crash"
  using DestroyClient_unlocks_destroyed_mutex [of "\<lparr>client_mutexes = [''a'' \<mapsto> 7], mutex_refs = (\<lambda>_. 0)(7 := 1), next_mutex = 8\<rparr>" "''a''"] by simp

end
