(* ===== verification/Spec2Isabelle.thy ===== *)
theory Spec2Isabelle
  imports Segments Mem_Store Ub_Mem Slot_Pool Cache_Manager Transfer_Request D2H_Transfer Task_Batch Send_State Cache_Table Endpoint_Matcher
    Mem_Pool Multi_Channel Client_Manager
begin

text \<open>
  A verification development for HIXL, a library that moves key-value caches and other memory between Ascend
  devices and hosts. The repository has two parts. \<^bold>\<open>hixl\<close> (\<open>src/src/hixl\<close>) is the transfer engine:
  memory is registered, endpoints of two nodes are matched to links, and one-sided reads and writes run over
  them. \<^bold>\<open>llm_datadist\<close> (\<open>src/src/llm_datadist\<close>) is the cache layer above it: caches are allocated from a
  pool and indexed by keys, a node publishes the layout of its caches in a table, and a peer pulls blocks of a cache
  by a request that the owner checks, cuts into tasks and answers.

  \<^bold>\<open>Conventions.\<close> \<open>Hixl_Prelude\<close> has what all theories share. A status is a \<open>32 word\<close>; \<open>'a outcome\<close> is
  the result of a call, \<open>Ok\<close>, \<open>Err\<close> with the status, or \<open>Crash\<close> for an out-of-range access, a division by zero
  and other undefined behaviour of the code. Sizes, addresses and counters are natural numbers, and every place where the
  code can wrap around uses \<open>add64\<close>, \<open>sub64\<close>, \<open>mul64\<close>, \<open>add32\<close> or \<open>sub32\<close>. A method that runs under the mutex of its
  object is one step. Calls into ACL, HCCL, the driver and the standard allocators are arguments: functions or
  recorded answers, with what is assumed of them written as hypotheses. Logging and profiling are left out
  everywhere.

  \<^bold>\<open>Theories, the code they model and what they show.\<close>

  \<^item> \<open>Segments\<close>: \<open>common/segment.cc\<close> of hixl (\<open>Segment\<close>) and \<open>adxl/segment_table.cc\<close> of llm_datadist
    (\<open>SegmentTable\<close>). The state is the sorted vector of ranges, resp. a map from channels and memory types. Both refine a
    specification by the multiset of live ranges, and \<open>Contains\<close> decides coverage by their union. The locales
    \<open>range_store\<close> and \<open>range_multistore\<close> state the contract; both classes are interpreted.
  \<^item> \<open>Mem_Store\<close>: \<open>cs/hixl_mem_store.cc\<close> and \<open>common/soc_type.cc\<close>. Registration, access checks across
    contiguous regions and the conversion of host addresses to device addresses. A granted access touches registered bytes only,
    and the check is exact.
  \<^item> \<open>Virtual_Memory\<close>: \<open>cs/ubmem/ubmem_virtual_memory_manager.cc\<close>. A bitmap of blocks of a reserved
    range. Reservations are disjoint and first fit; the locale \<open>va_reserver\<close> is what the allocator above relies on.
  \<^item> \<open>Ub_Mem\<close>: \<open>cs/ubmem/ubmem_allocator.cc\<close>, on top of \<open>Virtual_Memory\<close>. The driver calls leave a trace;
    after every call sequence the resources held are exactly those of the recorded allocations, on all error paths.
  \<^item> \<open>Slot_Pool\<close>: \<open>adxl/transfer_slot_pool.cc\<close>. Interleavings of users are sequences of atomic steps; a slot has
    one owner at a time (locale \<open>exclusive_pool\<close>).
  \<^item> \<open>Mem_Pool\<close>: \<open>common/llm_mem_pool.cc\<close> and \<open>memory/\<close> (\<open>ScalableAllocator\<close>, \<open>PageSpan\<close>, the free lists
    and their lookup table). The spans are a heap of linked objects, abstracted to a chain. Allocations are disjoint, and an
    allocation fails only if no run of free pages is long enough.
  \<^item> \<open>Cache_Manager\<close>: \<open>cache_mgr/cache_manager.cc\<close>. Registration, allocation and removal of caches
    and keys. What an allocation inserts is found and what was found before stays found; a continuous cache that the
    manager allocated stays exactly as long as its user or a recorded batch id needs it. An index entry can outlive its
    cache, when two keys of a call share an id.
  \<^item> \<open>Cache_Table\<close>: \<open>utils/cache_access_table.cc\<close>, byte by byte. What a node publishes is what a peer reads.
  \<^item> \<open>Transfer_Request\<close>: \<open>common/transfer_request_validation.h\<close>, \<open>fsm/send_state.cc\<close> and the tasks of
    \<open>data_transfer/d2d_data_transfer_job.cc\<close>. A request is a byte buffer from the peer; no content of it makes the
    checks read out of range, and the theorems say what the checks guarantee to the jobs, with the batch offset that the
    jobs add to the addresses.
  \<^item> \<open>D2H_Transfer\<close>: \<open>data_transfer/d2h_data_transfer_job.cc\<close>. The client and the server of a pull to host
    memory compute their tasks independently; they agree. The initialization of the server's job is modelled as a whole, with
    the exact condition under which it crashes.
  \<^item> \<open>Task_Batch\<close>: \<open>utils/task_batcher.cc\<close> and \<open>data_transfer/h2d_data_transfer_job.cc\<close>. The batches of a
    transfer from host to device memory move every byte once and in order, and the state machine ends. Copies into the
    buffer stay in the local tensors, apart from one way to pull a block cache that the checks leave open; unequal block
    lengths make the job put bytes it never copied.
  \<^item> \<open>Send_State\<close>: the whole of \<open>SendState::Prepare\<close> in \<open>fsm/send_state.cc\<close>, which puts the checks and the
    initialization of the three jobs together, with the exact condition under which a request crashes the server.
  \<^item> \<open>Endpoint_Matcher\<close>: \<open>engine/endpoint_matcher.cc\<close>. The links that are chosen fit the endpoints, and one is
    found whenever there is one. Keys are ordered by an instance of \<open>linorder\<close>.
  \<^item> \<open>Multi_Channel\<close>: \<open>engine/multi_channel_dispatcher.cc\<close>. A transfer is distributed over several handles of a link; every
    descriptor is posted once, and polling follows exactly the calls of a request.
  \<^item> \<open>Hixl_Client\<close> and \<open>Client_Manager\<close>: \<open>engine/hixl_client.cc\<close> without the control socket, and the pool of connections of
    \<open>engine/client_manager.cc\<close>. Calls of several threads are interleaved by a step relation; the pool keeps its limit and never takes
    down a connection in use to make room. The admission loop ends within two rounds when no other thread interferes. The request
    index is a queue. A last section shows that \<open>DestroyClient\<close> unlocks a destroyed mutex.

  \<^bold>\<open>Loops and bounds.\<close> Loops over containers are structural recursion or \<open>ofold\<close>, \<open>for_each\<close> and \<open>collect\<close> of the
  prelude. Loops that consume a number of bytes are \<open>function\<close>s with a \<open>termination\<close> proof. The state machine of
  \<open>Task_Batch\<close> runs with fuel; \<open>H2D_transfer_complete\<close> gives an amount that is enough. Hypotheses on sizes (fewer
  than \<open>2 ^ 32\<close> pages, ranges that end below \<open>2 ^ 64\<close>) are stated where a theorem needs them; findings in the
  manifest say where the code misbehaves without them.

  \<^bold>\<open>Not modelled.\<close> Threads as such (only their atomic steps), time-outs and condition variables; sockets, JSON
  messages and TLS (\<open>cs/hixl_cs_client.cc\<close>, \<open>cs/hixl_cs_server.cc\<close>, \<open>adxl/channel_msg_handler.cc\<close>,
  \<open>hixl/common/ctrl_msg_plugin.cc\<close>), whose behaviour is that of the operating system and of the JSON library; the transports
  over HCCL, HCOMM, RDMA and SDMA queues (\<open>hixl/proxy\<close>, \<open>comm_adapter\<close>, \<open>transfer_engine\<close>, \<open>adxl/comm_channel.cc\<close>,
  \<open>cs/ubmem\<close> apart from the two theories above), which are sequences of calls into libraries that are not part of the
  repository; generators of endpoint descriptions and rank tables (\<open>engine/endpoint_generator\<close>), which read
  device topology from the driver; profiling and statistics; the Python bindings, the device kernel (\<open>src/src/ops\<close>) and the
  scripts. The manifest lists them with their reasons.
\<close>

end
